(* ===== verification/R9_Prelude.thy ===== *)
theory R9_Prelude
  imports Main "HOL-Library.Word" "HOL-Library.Monad_Syntax"
begin

section \<open>Prelude: machine types, panics and the lists of the kernel's tables\<close>

text \<open>
  The shared vocabulary of the development.
  \<^item> Rust's unsigned integers are words of their width; a \<open>usize\<close> that only counts or indexes is a
    natural number whose bound is stated where the code relies on it.
  \<^item> Both build profiles of the workspace set \<open>panic = "abort"\<close> and keep overflow checks and debug
    assertions on, so a failed assertion, an \<open>expect\<close> on \<open>None\<close>, an out-of-range index and an
    arithmetic overflow all stop the kernel.  A computation that may stop the kernel has type
    \<open>'a option\<close> and \<open>None\<close> is the stop; Rust's own \<open>Option\<close> and \<open>Result\<close> are an inner \<open>option\<close> or
    a sum with \<open>Inl\<close> the error.
  \<^item> Fixed-size tables are lists; \<open>position\<close> is \<open>Iterator::position\<close>.
\<close>

type_synonym u8 = "8 word"
type_synonym u16 = "16 word"
type_synonym u32 = "32 word"
type_synonym u64 = "64 word"
type_synonym usize = nat

named_theorems r9_defs \<open>definitions unfolded by the component proofs\<close>

subsection \<open>Panics\<close>

definition assert_that :: "bool \<Rightarrow> unit option" where
  "assert_that b = (if b then Some () else None)"

lemma assert_that_simps [simp]:
  "assert_that True = Some ()"
  "assert_that False = None"
  "assert_that b = Some u \<longleftrightarrow> b"
  "assert_that b = None \<longleftrightarrow> \<not> b"
  by (simp_all add: assert_that_def)

lemma bind_assert_that [simp]: "Option.bind (assert_that b) f = (if b then f () else None)"
  by (simp add: assert_that_def)

text \<open>An index into a Rust array or slice: out of range stops the kernel.\<close>

definition index_at :: "'a list \<Rightarrow> usize \<Rightarrow> 'a option" where
  "index_at xs i = (if i < length xs then Some (xs ! i) else None)"

lemma index_at_simps [simp]:
  "i < length xs \<Longrightarrow> index_at xs i = Some (xs ! i)"
  "length xs \<le> i \<Longrightarrow> index_at xs i = None"
  by (simp_all add: index_at_def)

lemma index_at_eq_Some: "index_at xs i = Some x \<longleftrightarrow> i < length xs \<and> xs ! i = x"
  by (simp add: index_at_def)

subsection \<open>Checked arithmetic of a 64-bit \<open>usize\<close>\<close>

definition usize_bound :: nat where
  "usize_bound = 2 ^ 64"

definition checked_add :: "usize \<Rightarrow> usize \<Rightarrow> usize option" where
  "checked_add a b = (if a + b < usize_bound then Some (a + b) else None)"

definition checked_mul :: "usize \<Rightarrow> usize \<Rightarrow> usize option" where
  "checked_mul a b = (if a * b < usize_bound then Some (a * b) else None)"

definition checked_sub :: "usize \<Rightarrow> usize \<Rightarrow> usize option" where
  "checked_sub a b = (if b \<le> a then Some (a - b) else None)"

definition div_ceil :: "usize \<Rightarrow> usize \<Rightarrow> usize" where
  "div_ceil a b = (if a mod b = 0 then a div b else a div b + 1)"

lemma checked_add_eq_Some: "checked_add a b = Some c \<longleftrightarrow> c = a + b \<and> a + b < usize_bound"
  by (auto simp: checked_add_def)

lemma checked_mul_eq_Some: "checked_mul a b = Some c \<longleftrightarrow> c = a * b \<and> a * b < usize_bound"
  by (auto simp: checked_mul_def)

lemma checked_sub_eq_Some: "checked_sub a b = Some c \<longleftrightarrow> c = a - b \<and> b \<le> a"
  by (auto simp: checked_sub_def)

lemma div_ceil_mult_ge: "0 < b \<Longrightarrow> a \<le> div_ceil a b * b"
proof -
  assume b: "0 < b"
  have "a = a div b * b + a mod b" by simp
  moreover have "a mod b < b" using b by simp
  ultimately have "a \<le> a div b * b + b" by linarith
  then show ?thesis unfolding div_ceil_def by (auto simp: distrib_right)
qed

lemma div_ceil_mult_less: "0 < b \<Longrightarrow> div_ceil a b * b < a + b"
proof -
  assume b: "0 < b"
  have "a = a div b * b + a mod b" by simp
  moreover from this have "a mod b \<noteq> 0 \<Longrightarrow> a div b * b < a" by linarith
  ultimately show ?thesis using b unfolding div_ceil_def
    by (auto simp: distrib_right)
qed

lemma less_div_ceil: "0 < b \<Longrightarrow> k < div_ceil a b \<longleftrightarrow> k * b < a"
proof
  assume b: "0 < b" and k: "k < div_ceil a b"
  then have "(k + 1) * b \<le> div_ceil a b * b" by (intro mult_le_mono1) simp
  with div_ceil_mult_less[OF b, of a] show "k * b < a" by simp
next
  assume b: "0 < b" and "k * b < a"
  with div_ceil_mult_ge[OF b, of a] have "k * b < div_ceil a b * b" by linarith
  then show "k < div_ceil a b" by simp
qed

lemma dvd_gap:
  fixes a b p :: nat
  assumes "p dvd a" and "p dvd b" and "a < b"
  shows "a + p \<le> b"
proof -
  from assms(1,2) obtain i j where "a = p * i" "b = p * j" by (auto elim!: dvdE)
  with assms(3) have "i < j" by (cases "p = 0") auto
  then have "p * Suc i \<le> p * j" by (intro mult_left_mono) auto
  with \<open>a = p * i\<close> \<open>b = p * j\<close> show ?thesis by simp
qed

lemma mod_add_inj:
  fixes h j k n :: nat
  assumes "j < n" and "k < n" and "(h + j) mod n = (h + k) mod n"
  shows "j = k"
proof -
  have *: "b = a" if "a \<le> b" "b < n" "(h + b) mod n = (h + a) mod n" for a b
  proof -
    from that(1) have le: "h + a \<le> h + b" by simp
    from mod_eq_dvd_iff_nat[OF le] that(3) have "n dvd (h + b) - (h + a)" by metis
    then have d: "n dvd b - a" by simp
    have "b - a < n" using that(2) by linarith
    with d have "b - a = 0" by (metis dvd_imp_le gr0I leD)
    with that(1) show ?thesis by simp
  qed
  show ?thesis
  proof (cases "j \<le> k")
    case True
    from *[OF True assms(2)] assms(3) show ?thesis by metis
  next
    case False
    then have "k \<le> j" by simp
    from *[OF this assms(1) assms(3)] show ?thesis .
  qed
qed

subsection \<open>Tables\<close>

fun position :: "('a \<Rightarrow> bool) \<Rightarrow> 'a list \<Rightarrow> usize option" where
  "position P [] = None"
| "position P (x # xs) = (if P x then Some 0 else map_option Suc (position P xs))"

lemma position_Some:
  "position P xs = Some i \<Longrightarrow> i < length xs \<and> P (xs ! i) \<and> (\<forall>j<i. \<not> P (xs ! j))"
proof (induction xs arbitrary: i)
  case (Cons x xs)
  then show ?case
    by (auto split: if_splits simp: less_Suc_eq_0_disj nth_Cons')
qed simp

lemma position_None: "position P xs = None \<longleftrightarrow> (\<forall>x\<in>set xs. \<not> P x)"
  by (induction xs) auto

lemma position_None_nth: "position P xs = None \<longleftrightarrow> (\<forall>i<length xs. \<not> P (xs ! i))"
  by (auto simp: position_None all_set_conv_all_nth)

lemma position_unique:
  assumes "i < length xs" and "P (xs ! i)" and "\<And>j. j < length xs \<Longrightarrow> P (xs ! j) \<Longrightarrow> j = i"
  shows "position P xs = Some i"
proof (cases "position P xs")
  case None
  with assms(1,2) show ?thesis by (simp add: position_None_nth)
next
  case (Some k)
  with position_Some[OF Some] assms(3) show ?thesis by auto
qed

lemma position_exists: "i < length xs \<Longrightarrow> P (xs ! i) \<Longrightarrow> \<exists>k. position P xs = Some k"
  by (cases "position P xs") (auto simp: position_None_nth)

end
