(* ===== verification/Bounded_Queue.thy ===== *)
theory Bounded_Queue
  imports R9_Prelude
begin

section \<open>The bounded FIFO of a channel (\<open>port/src/ipc.rs\<close>, \<open>BoundedQueue\<close>)\<close>

text \<open>
  The eight-slot ring buffer inside a channel, field by field, its representation invariant and its
  abstraction to a list.  The locale \<open>fifo\<close> is the contract the channel code relies on; the ring
  buffer is its instance, and the traces of the two agree.
\<close>

definition QUEUE_CAP :: usize where
  "QUEUE_CAP = 8"

record 'a bounded_queue =
  slots :: "'a option list"
  head :: usize
  qlen :: usize

definition queue_new :: "'a bounded_queue" where
  "queue_new = \<lparr>slots = replicate QUEUE_CAP None, head = 0, qlen = 0\<rparr>"

definition is_full :: "'a bounded_queue \<Rightarrow> bool" where
  "is_full q \<longleftrightarrow> qlen q = QUEUE_CAP"

definition push :: "'a \<Rightarrow> 'a bounded_queue \<Rightarrow> bool \<times> 'a bounded_queue" where
  "push msg q =
     (if is_full q then (False, q)
      else let tail = (head q + qlen q) mod QUEUE_CAP
           in (True, q\<lparr>slots := (slots q)[tail := Some msg], qlen := qlen q + 1\<rparr>))"

text \<open>
  \<open>pop\<close> takes the head slot; an empty slot ends it with \<open>None\<close> before \<open>head\<close> and \<open>len\<close> move.  The
  outer option is the stop of an out-of-range index or of \<open>len -= 1\<close> at zero.
\<close>

definition pop :: "'a bounded_queue \<Rightarrow> ('a option \<times> 'a bounded_queue) option" where
  "pop q =
     do {
       slot \<leftarrow> index_at (slots q) (head q);
       case slot of
         None \<Rightarrow> Some (None, q)
       | Some msg \<Rightarrow>
           do {
             len' \<leftarrow> checked_sub (qlen q) 1;
             Some (Some msg, q\<lparr>slots := (slots q)[head q := None],
                               head := (head q + 1) mod QUEUE_CAP, qlen := len'\<rparr>)
           }
     }"

subsection \<open>Representation\<close>

definition ring :: "'a bounded_queue \<Rightarrow> nat \<Rightarrow> nat" where
  "ring q k = (head q + k) mod QUEUE_CAP"

definition queue_inv :: "'a bounded_queue \<Rightarrow> bool" where
  "queue_inv q \<longleftrightarrow> length (slots q) = QUEUE_CAP \<and> head q < QUEUE_CAP \<and> qlen q \<le> QUEUE_CAP \<and>
     (\<forall>k<QUEUE_CAP. slots q ! ring q k = None \<longleftrightarrow> qlen q \<le> k)"

definition queue_list :: "'a bounded_queue \<Rightarrow> 'a list" where
  "queue_list q = map (\<lambda>k. the (slots q ! ring q k)) [0..<qlen q]"

lemma ring_less [simp]: "ring q k < QUEUE_CAP"
  by (simp add: ring_def QUEUE_CAP_def)

lemma ring_inj: "j < QUEUE_CAP \<Longrightarrow> k < QUEUE_CAP \<Longrightarrow> ring q j = ring q k \<longleftrightarrow> j = k"
  unfolding ring_def by (auto dest: mod_add_inj)

lemma ring_upd [simp]:
  "ring (q\<lparr>slots := s\<rparr>) k = ring q k" "ring (q\<lparr>qlen := n\<rparr>) k = ring q k"
  by (simp_all add: ring_def)

lemma ring_step: "ring (q\<lparr>head := (head q + 1) mod QUEUE_CAP\<rparr>) k = ring q (Suc k)"
  unfolding ring_def QUEUE_CAP_def by (simp add: mod_simps)

lemma length_queue_list [simp]: "length (queue_list q) = qlen q"
  by (simp add: queue_list_def)

lemma nth_queue_list: "k < qlen q \<Longrightarrow> queue_list q ! k = the (slots q ! ring q k)"
  by (simp add: queue_list_def)

lemma queue_inv_len: "queue_inv q \<Longrightarrow> qlen q \<le> QUEUE_CAP"
  by (simp add: queue_inv_def)

lemma queue_new_inv: "queue_inv queue_new"
  by (auto simp: queue_inv_def queue_new_def ring_def QUEUE_CAP_def)

lemma queue_new_list: "queue_list queue_new = []"
  by (simp add: queue_list_def queue_new_def)

lemma push_full: "is_full q \<Longrightarrow> push m q = (False, q)"
  by (simp add: push_def)

lemma push_inv:
  assumes "queue_inv q"
  shows "queue_inv (snd (push m q))"
proof (cases "is_full q")
  case True
  with assms show ?thesis by (simp add: push_full)
next
  case False
  with assms have n: "qlen q < QUEUE_CAP" by (simp add: is_full_def queue_inv_def)
  have "(slots q)[ring q (qlen q) := Some m] ! ring q k = None \<longleftrightarrow> Suc (qlen q) \<le> k"
    if "k < QUEUE_CAP" for k
    using assms that n ring_inj[of k "qlen q" q] ring_inj[of "qlen q" k q]
    by (cases "k = qlen q") (auto simp: queue_inv_def nth_list_update)
  with False assms n show ?thesis
    by (simp add: push_def queue_inv_def Let_def ring_def[of q "qlen q", symmetric])
qed

lemma push_list:
  assumes "queue_inv q" and "\<not> is_full q"
  shows "queue_list (snd (push m q)) = queue_list q @ [m]"
proof (rule nth_equalityI)
  from assms(2) show len: "length (queue_list (snd (push m q))) = length (queue_list q @ [m])"
    by (simp add: push_def Let_def)
  fix k
  assume k: "k < length (queue_list (snd (push m q)))"
  from assms have n: "qlen q < QUEUE_CAP" and l: "length (slots q) = QUEUE_CAP"
    by (simp_all add: is_full_def queue_inv_def)
  have "k \<le> qlen q" using k assms(2) by (simp add: push_def Let_def)
  then show "queue_list (snd (push m q)) ! k = (queue_list q @ [m]) ! k"
    using assms(2) n l ring_inj[of k "qlen q" q]
    by (auto simp: push_def Let_def nth_queue_list nth_append
        ring_def[of q "qlen q", symmetric] nth_list_update)
qed

lemma pop_empty:
  assumes "queue_inv q" and "qlen q = 0"
  shows "pop q = Some (None, q)"
proof -
  from assms have "slots q ! ring q 0 = None" by (simp add: queue_inv_def QUEUE_CAP_def)
  moreover from assms have "ring q 0 = head q" by (simp add: ring_def queue_inv_def)
  ultimately show ?thesis using assms by (simp add: pop_def queue_inv_def)
qed

lemma pop_nonempty:
  assumes "queue_inv q" and "qlen q \<noteq> 0"
  shows "\<exists>q'. pop q = Some (Some (hd (queue_list q)), q') \<and> queue_inv q' \<and>
              queue_list q' = tl (queue_list q) \<and> qlen q' = qlen q - 1"
proof -
  from assms have h: "ring q 0 = head q" and l: "length (slots q) = QUEUE_CAP"
    and hc: "head q < QUEUE_CAP" and n: "0 < qlen q" "qlen q \<le> QUEUE_CAP"
    by (simp_all add: ring_def queue_inv_def)
  from assms have "slots q ! head q \<noteq> None"
    using h by (metis QUEUE_CAP_def gr_zeroI leD n(1) queue_inv_def zero_less_numeral)
  then obtain m where m: "slots q ! head q = Some m" by auto
  define q' where "q' = q\<lparr>slots := (slots q)[head q := None],
                         head := (head q + 1) mod QUEUE_CAP, qlen := qlen q - 1\<rparr>"
  have len': "qlen q' = qlen q - 1" by (simp add: q'_def)
  have pop: "pop q = Some (Some m, q')"
    using m l hc n by (simp add: pop_def q'_def checked_sub_def)
  have hd: "hd (queue_list q) = m"
    using n h m by (simp add: queue_list_def hd_map upt_conv_Cons)
  have ring': "ring q' k = ring q (Suc k)" for k
    unfolding q'_def ring_def QUEUE_CAP_def by (simp add: mod_simps)
  have wrap: "ring q QUEUE_CAP = head q"
    using hc by (simp add: ring_def)
  have slot: "slots q' ! ring q (Suc k) = (if Suc k = QUEUE_CAP then None else slots q ! ring q (Suc k))"
    if "k < QUEUE_CAP" for k
  proof (cases "Suc k = QUEUE_CAP")
    case True
    then show ?thesis using wrap l hc by (simp add: q'_def)
  next
    case False
    with that have "ring q (Suc k) \<noteq> ring q 0"
      using ring_inj[of "Suc k" 0 q] by (simp add: QUEUE_CAP_def)
    with False show ?thesis using h by (simp add: q'_def)
  qed
  have "slots q' ! ring q' k = None \<longleftrightarrow> qlen q - 1 \<le> k" if k: "k < QUEUE_CAP" for k
  proof (cases "Suc k = QUEUE_CAP")
    case True
    then show ?thesis using slot[OF k] n by (auto simp: ring')
  next
    case False
    with k have "Suc k < QUEUE_CAP" by simp
    with assms(1) have "slots q ! ring q (Suc k) = None \<longleftrightarrow> qlen q \<le> Suc k"
      by (simp add: queue_inv_def)
    with False slot[OF k] show ?thesis by (auto simp: ring')
  qed
  then have inv: "queue_inv q'"
    using l n by (simp add: queue_inv_def q'_def QUEUE_CAP_def)
  have "queue_list q' = tl (queue_list q)"
  proof (rule nth_equalityI)
    show "length (queue_list q') = length (tl (queue_list q))" by (simp add: len')
    fix k assume "k < length (queue_list q')"
    then have k: "Suc k < qlen q" by (simp add: len')
    with n have "Suc k \<noteq> QUEUE_CAP" "k < QUEUE_CAP" by simp_all
    then have "queue_list q' ! k = the (slots q ! ring q (Suc k))"
      using k slot[of k] nth_queue_list[of k q'] by (simp add: ring' len')
    then show "queue_list q' ! k = tl (queue_list q) ! k"
      using k by (simp add: nth_queue_list nth_tl)
  qed
  with pop hd inv show ?thesis by (simp add: len')
qed

subsection \<open>The contract of a bounded FIFO, and its instance\<close>

locale fifo =
  fixes cap :: nat
    and new :: "'q"
    and put :: "'a \<Rightarrow> 'q \<Rightarrow> bool \<times> 'q"
    and get :: "'q \<Rightarrow> ('a option \<times> 'q) option"
    and list :: "'q \<Rightarrow> 'a list"
    and invar :: "'q \<Rightarrow> bool"
  assumes new_invar: "invar new"
    and new_list: "list new = []"
    and put_room: "invar q \<Longrightarrow> length (list q) < cap \<Longrightarrow>
          \<exists>q'. put m q = (True, q') \<and> invar q' \<and> list q' = list q @ [m]"
    and put_none: "invar q \<Longrightarrow> length (list q) = cap \<Longrightarrow> put m q = (False, q)"
    and get_Nil: "invar q \<Longrightarrow> list q = [] \<Longrightarrow> get q = Some (None, q)"
    and get_Cons: "invar q \<Longrightarrow> list q = m # ms \<Longrightarrow>
          \<exists>q'. get q = Some (Some m, q') \<and> invar q' \<and> list q' = ms"
    and bounded: "invar q \<Longrightarrow> length (list q) \<le> cap"
begin

lemma put_cases:
  assumes "invar q"
  shows "(length (list q) < cap \<and> (\<exists>q'. put m q = (True, q') \<and> invar q' \<and> list q' = list q @ [m]))
       \<or> (length (list q) = cap \<and> put m q = (False, q))"
  using assms bounded[OF assms] put_room[OF assms] put_none[OF assms]
  by (cases "length (list q) = cap") auto

lemma put_True_iff: "invar q \<Longrightarrow> fst (put m q) \<longleftrightarrow> length (list q) < cap"
  using put_cases[of q m] by auto

lemma get_never_stops: "invar q \<Longrightarrow> get q \<noteq> None"
  by (cases "list q") (auto dest: get_Nil get_Cons)

lemma get_put_single:
  assumes "invar q" and "list q = []" and "0 < cap"
  shows "\<exists>q1 q2. put m q = (True, q1) \<and> get q1 = Some (Some m, q2) \<and> list q2 = []"
proof -
  from put_room[OF assms(1), of m] assms obtain q1 where
    q1: "put m q = (True, q1)" "invar q1" "list q1 = [m]" by auto
  from get_Cons[OF q1(2,3)] q1(1) show ?thesis by auto
qed

end

interpretation ring_fifo: fifo QUEUE_CAP queue_new push pop queue_list queue_inv
proof (unfold_locales, goal_cases)
  case 1
  show ?case by (rule queue_new_inv)
next
  case 2
  show ?case by (rule queue_new_list)
next
  case (3 q m)
  then have "\<not> is_full q" by (simp add: is_full_def)
  with 3 push_inv[of q m] push_list[of q m] show ?case
    by (simp add: push_def Let_def)
next
  case (4 q m)
  then show ?case by (simp add: push_full is_full_def)
next
  case (5 q)
  then have "qlen q = 0" by (metis length_queue_list list.size(3))
  with 5 show ?case by (simp add: pop_empty)
next
  case (6 q m ms)
  then have "qlen q \<noteq> 0" by (metis length_queue_list list.size(3) list.distinct(1) length_0_conv)
  with pop_nonempty[of q] 6 show ?case by auto
next
  case (7 q)
  then show ?case by (simp add: queue_inv_def)
qed

subsection \<open>Every run of the ring buffer is a run of a list\<close>

datatype 'a queue_op = Push 'a | Pop

datatype 'a queue_out = Pushed bool | Popped "'a option"

fun queue_run :: "'a queue_op list \<Rightarrow> 'a bounded_queue \<Rightarrow> ('a queue_out list \<times> 'a bounded_queue) option" where
  "queue_run [] q = Some ([], q)"
| "queue_run (Push m # ops) q =
     (case push m q of (ok, q') \<Rightarrow>
        map_option (\<lambda>(outs, q''). (Pushed ok # outs, q'')) (queue_run ops q'))"
| "queue_run (Pop # ops) q =
     (case pop q of None \<Rightarrow> None
      | Some (r, q') \<Rightarrow> map_option (\<lambda>(outs, q''). (Popped r # outs, q'')) (queue_run ops q'))"

fun list_run :: "'a queue_op list \<Rightarrow> 'a list \<Rightarrow> 'a queue_out list \<times> 'a list" where
  "list_run [] xs = ([], xs)"
| "list_run (Push m # ops) xs =
     (let ok = length xs < QUEUE_CAP; (outs, ys) = list_run ops (if ok then xs @ [m] else xs)
      in (Pushed ok # outs, ys))"
| "list_run (Pop # ops) xs =
     (case xs of
        [] \<Rightarrow> (let (outs, ys) = list_run ops [] in (Popped None # outs, ys))
      | x # xs' \<Rightarrow> (let (outs, ys) = list_run ops xs' in (Popped (Some x) # outs, ys)))"

lemma queue_run_refines:
  assumes "queue_inv q"
  shows "\<exists>q'. queue_run ops q = Some (fst (list_run ops (queue_list q)), q') \<and> queue_inv q' \<and>
              queue_list q' = snd (list_run ops (queue_list q))"
  using assms
proof (induction ops arbitrary: q)
  case Nil
  then show ?case by simp
next
  case (Cons op ops)
  show ?case
  proof (cases op)
    case (Push m)
    from ring_fifo.put_cases[OF Cons.prems, of m] Cons.IH Cons.prems show ?thesis
      by (fastforce simp: Push split: prod.splits)
  next
    case Pop
    show ?thesis
    proof (cases "queue_list q")
      case Nil
      with ring_fifo.get_Nil[OF Cons.prems] Cons.IH[OF Cons.prems] show ?thesis
        by (auto simp: Pop split: prod.splits)
    next
      case (Cons m ms)
      from ring_fifo.get_Cons[OF Cons.prems this] obtain q' where
        "pop q = Some (Some m, q')" "queue_inv q'" "queue_list q' = ms" by auto
      with Cons.IH[of q'] Cons show ?thesis
        by (auto simp: Pop split: prod.splits)
    qed
  qed
qed

text \<open>C7: any sequence of pushes and pops on a fresh \<open>BoundedQueue\<close> runs to the end without stopping
  the kernel and returns exactly what an eight-place list queue returns: a push is refused exactly
  when eight messages are held, and pops return the messages in push order.\<close>

theorem queue_run_is_fifo:
  "\<exists>q'. queue_run ops queue_new = Some (fst (list_run ops []), q') \<and> queue_inv q' \<and>
        queue_list q' = snd (list_run ops [])"
  using queue_run_refines[OF queue_new_inv, of ops] by (simp add: queue_new_list)

end
