(* ===== verification/Ipc_Channel.thy ===== *)
theory Ipc_Channel
  imports Bounded_Queue
begin

section \<open>Channels: send, receive, reply, close (\<open>port/src/ipc.rs\<close>)\<close>

text \<open>
  The arch-independent message passing of the kernel.  The scheduler trait \<open>IpcScheduler\<close> is a record
  of operations on an abstract scheduler state; the two operations that give up the CPU, \<open>block\<close> and
  \<open>block_at\<close>, are not state updates but the points where a call stops: one pass through the loop of
  \<open>send\<close>, \<open>receive\<close> or \<open>receive_at\<close> ends with \<open>Done\<close> of the call's result or with \<open>Wait\<close>, the request to
  block the named process and run the loop again once it is scheduled.  On this single-core kernel
  the interrupts are masked from trap entry to trap return, so a pass is not interleaved; the two
  critical sections of \<open>send\<close> are separate definitions because the code drops the lock between them.
\<close>

definition MSG_MAX :: usize where
  "MSG_MAX = 256"

definition RECEIVE_TIMEOUT :: u16 where
  "RECEIVE_TIMEOUT = 0xffff"

record message =
  opcode :: u16
  tag :: u32
  msg_len :: u16
  buf :: "u8 list"

definition message_new :: "u16 \<Rightarrow> u32 \<Rightarrow> u8 list \<Rightarrow> message" where
  "message_new op t data =
     (let n = min (length data) MSG_MAX
      in \<lparr>opcode = op, tag = t, msg_len = of_nat n, buf = take n data @ replicate (MSG_MAX - n) 0\<rparr>)"

datatype ipc_err = Closed | Full | BadTag | Empty

type_synonym proc_id = usize

record 's ipc_scheduler =
  current :: "'s \<Rightarrow> proc_id option"
  priority :: "proc_id \<Rightarrow> 's \<Rightarrow> u8"
  boost :: "proc_id \<Rightarrow> u8 \<Rightarrow> 's \<Rightarrow> 's"
  unboost :: "proc_id \<Rightarrow> 's \<Rightarrow> 's"
  wake :: "proc_id \<Rightarrow> 's \<Rightarrow> 's"
  now :: "'s \<Rightarrow> u64"

record channel_inner =
  queue :: "message bounded_queue"
  recv_waiter :: "proc_id option"
  send_waiter :: "proc_id option"
  closed :: bool

definition channel_inner_new :: channel_inner where
  "channel_inner_new = \<lparr>queue = queue_new, recv_waiter = None, send_waiter = None, closed = False\<rparr>"

record channel =
  inner :: channel_inner
  owner :: proc_id

definition channel_new :: "proc_id \<Rightarrow> channel" where
  "channel_new own = \<lparr>inner = channel_inner_new, owner = own\<rparr>"

definition is_blocked_on :: "proc_id \<Rightarrow> channel_inner \<Rightarrow> bool" where
  "is_blocked_on i ch \<longleftrightarrow> recv_waiter ch = Some i \<or> send_waiter ch = Some i"

definition wake_opt :: "'s ipc_scheduler \<Rightarrow> proc_id option \<Rightarrow> 's \<Rightarrow> 's" where
  "wake_opt S w s = (case w of None \<Rightarrow> s | Some i \<Rightarrow> wake S i s)"

definition close :: "'s ipc_scheduler \<Rightarrow> channel_inner \<Rightarrow> 's \<Rightarrow> channel_inner \<times> 's" where
  "close S ch s =
     (let recv = recv_waiter ch; sendw = send_waiter ch;
          ch' = ch\<lparr>closed := True, recv_waiter := None, send_waiter := None\<rparr>
      in (ch', wake_opt S sendw (wake_opt S recv s)))"

subsection \<open>Send\<close>

datatype 'a progress = Done 'a | Wait proc_id | WaitAt proc_id u64

datatype send_cs = Refused ipc_err | Fast proc_id | NotFast

definition send_first ::
  "'s ipc_scheduler \<Rightarrow> message \<Rightarrow> channel_inner \<Rightarrow> 's \<Rightarrow> (send_cs \<times> channel_inner \<times> 's) option" where
  "send_first S msg ch s =
     (if closed ch then Some (Refused Closed, ch, s)
      else case recv_waiter ch of
        Some receiver \<Rightarrow>
          (let s' = (case current S s of
                       Some sender \<Rightarrow>
                         if priority S sender s < priority S receiver s
                         then boost S receiver (priority S sender s) s else s
                     | None \<Rightarrow> s);
               (ok, q) = push msg (queue ch)
           in do { assert_that ok;
                   Some (Fast receiver, ch\<lparr>recv_waiter := None, queue := q\<rparr>, s') })
      | None \<Rightarrow>
          (case push msg (queue ch) of
             (True, q) \<Rightarrow> Some (NotFast, ch\<lparr>queue := q\<rparr>, s)
           | (False, q) \<Rightarrow>
               do { me \<leftarrow> current S s;
                    Some (NotFast, ch\<lparr>queue := q, send_waiter := Some me\<rparr>, s) }))"

text \<open>The second critical section only asks whether a sender is recorded as blocked.\<close>

definition send_second :: "channel_inner \<Rightarrow> bool" where
  "send_second ch \<longleftrightarrow> send_waiter ch \<noteq> None"

definition send_pass ::
  "'s ipc_scheduler \<Rightarrow> message \<Rightarrow> channel_inner \<Rightarrow> 's
     \<Rightarrow> ((ipc_err + unit) progress \<times> channel_inner \<times> 's) option" where
  "send_pass S msg ch s =
     do {
       (r, ch1, s1) \<leftarrow> send_first S msg ch s;
       (case r of
          Refused e \<Rightarrow> Some (Done (Inl e), ch1, s1)
        | Fast receiver \<Rightarrow> Some (Done (Inr ()), ch1, wake S receiver s1)
        | NotFast \<Rightarrow>
            if send_second ch1
            then do { me \<leftarrow> current S s1; Some (Wait me, ch1, s1) }
            else Some (Done (Inr ()), ch1, s1))
     }"

definition reply_pass ::
  "'s ipc_scheduler \<Rightarrow> u32 \<Rightarrow> message \<Rightarrow> channel_inner \<Rightarrow> 's
     \<Rightarrow> ((ipc_err + unit) progress \<times> channel_inner \<times> 's) option" where
  "reply_pass S t msg ch s =
     (if tag msg \<noteq> t then Some (Done (Inl BadTag), ch, s) else send_pass S msg ch s)"

definition try_send ::
  "'s ipc_scheduler \<Rightarrow> message \<Rightarrow> channel_inner \<Rightarrow> 's
     \<Rightarrow> ((ipc_err + unit) \<times> channel_inner \<times> 's) option" where
  "try_send S msg ch s =
     (if closed ch then Some (Inl Closed, ch, s)
      else case recv_waiter ch of
        Some receiver \<Rightarrow>
          (let (ok, q) = push msg (queue ch)
           in do { assert_that ok;
                   Some (Inr (), ch\<lparr>recv_waiter := None, queue := q\<rparr>, wake S receiver s) })
      | None \<Rightarrow>
          (case push msg (queue ch) of
             (True, q) \<Rightarrow> Some (Inr (), ch\<lparr>queue := q\<rparr>, s)
           | (False, q) \<Rightarrow> Some (Inl Full, ch\<lparr>queue := q\<rparr>, s)))"

subsection \<open>Receive\<close>

definition try_receive ::
  "'s ipc_scheduler \<Rightarrow> channel_inner \<Rightarrow> 's \<Rightarrow> ((ipc_err + message) \<times> channel_inner \<times> 's) option" where
  "try_receive S ch s =
     (if closed ch then Some (Inl Closed, ch, s)
      else do {
        (msg, q) \<leftarrow> pop (queue ch);
        (case msg of
           Some m \<Rightarrow> Some (Inr m, ch\<lparr>queue := q, send_waiter := None\<rparr>, wake_opt S (send_waiter ch) s)
         | None \<Rightarrow> Some (Inl Empty, ch\<lparr>queue := q\<rparr>, s))
      })"

definition receive_pass ::
  "'s ipc_scheduler \<Rightarrow> channel_inner \<Rightarrow> 's
     \<Rightarrow> ((ipc_err + message) progress \<times> channel_inner \<times> 's) option" where
  "receive_pass S ch s =
     do {
       me \<leftarrow> current S s;
       (if closed ch then Some (Done (Inl Closed), ch, s)
        else do {
          (msg, q) \<leftarrow> pop (queue ch);
          (case msg of
             Some m \<Rightarrow>
               Some (Done (Inr m), ch\<lparr>queue := q, send_waiter := None\<rparr>, wake_opt S (send_waiter ch) s)
           | None \<Rightarrow> Some (Wait me, ch\<lparr>queue := q, recv_waiter := Some me\<rparr>, unboost S me s))
        })
     }"

definition timeout_message :: message where
  "timeout_message = \<lparr>opcode = RECEIVE_TIMEOUT, tag = 0, msg_len = 0, buf = replicate MSG_MAX 0\<rparr>"

definition receive_at_pass ::
  "'s ipc_scheduler \<Rightarrow> u64 \<Rightarrow> channel_inner \<Rightarrow> 's
     \<Rightarrow> ((ipc_err + message) progress \<times> channel_inner \<times> 's) option" where
  "receive_at_pass S deadline ch s =
     do {
       me \<leftarrow> current S s;
       (if closed ch then Some (Done (Inl Closed), ch, s)
        else do {
          (msg, q) \<leftarrow> pop (queue ch);
          (case msg of
             Some m \<Rightarrow>
               Some (Done (Inr m), ch\<lparr>queue := q, send_waiter := None\<rparr>, wake_opt S (send_waiter ch) s)
           | None \<Rightarrow>
               if deadline \<le> now S s then Some (Done (Inr timeout_message), ch\<lparr>queue := q\<rparr>, s)
               else Some (WaitAt me deadline, ch\<lparr>queue := q, recv_waiter := Some me\<rparr>, unboost S me s))
        })
     }"

subsection \<open>The calls as loops\<close>

text \<open>
  A whole call repeats its pass; \<open>env\<close> is what happens to the channel and the scheduler while the
  process is off the CPU, from its \<open>block\<close> to the moment it runs again.  \<open>None\<close> is a kernel stop or a
  call that never returns.
\<close>

type_synonym 's switched = "proc_id \<Rightarrow> channel_inner \<times> 's \<Rightarrow> channel_inner \<times> 's"

partial_function (option) send ::
  "'s ipc_scheduler \<Rightarrow> 's switched \<Rightarrow> message \<Rightarrow> channel_inner \<times> 's
     \<Rightarrow> ((ipc_err + unit) \<times> channel_inner \<times> 's) option" where
  "send S env msg cs =
     do {
       (r, ch1, s1) \<leftarrow> send_pass S msg (fst cs) (snd cs);
       (case r of
          Done x \<Rightarrow> Some (x, ch1, s1)
        | Wait me \<Rightarrow> send S env msg (env me (ch1, s1))
        | WaitAt me d \<Rightarrow> send S env msg (env me (ch1, s1)))
     }"

partial_function (option) receive ::
  "'s ipc_scheduler \<Rightarrow> 's switched \<Rightarrow> channel_inner \<times> 's
     \<Rightarrow> ((ipc_err + message) \<times> channel_inner \<times> 's) option" where
  "receive S env cs =
     do {
       (r, ch1, s1) \<leftarrow> receive_pass S (fst cs) (snd cs);
       (case r of
          Done x \<Rightarrow> Some (x, ch1, s1)
        | Wait me \<Rightarrow> receive S env (env me (ch1, s1))
        | WaitAt me d \<Rightarrow> receive S env (env me (ch1, s1)))
     }"

partial_function (option) receive_at ::
  "'s ipc_scheduler \<Rightarrow> 's switched \<Rightarrow> u64 \<Rightarrow> channel_inner \<times> 's
     \<Rightarrow> ((ipc_err + message) \<times> channel_inner \<times> 's) option" where
  "receive_at S env deadline cs =
     do {
       (r, ch1, s1) \<leftarrow> receive_at_pass S deadline (fst cs) (snd cs);
       (case r of
          Done x \<Rightarrow> Some (x, ch1, s1)
        | Wait me \<Rightarrow> receive_at S env deadline (env me (ch1, s1))
        | WaitAt me d \<Rightarrow> receive_at S env deadline (env me (ch1, s1)))
     }"

definition reply ::
  "'s ipc_scheduler \<Rightarrow> 's switched \<Rightarrow> u32 \<Rightarrow> message \<Rightarrow> channel_inner \<times> 's
     \<Rightarrow> ((ipc_err + unit) \<times> channel_inner \<times> 's) option" where
  "reply S env t msg cs =
     (if tag msg \<noteq> t then Some (Inl BadTag, fst cs, snd cs) else send S env msg cs)"

subsection \<open>The channel invariant and the abstract channel\<close>

text \<open>
  A recorded receiver means an empty queue, a recorded sender means a full one.  Under this
  invariant the ring buffer, the fast-path assertion and the second look at \<open>send_waiter\<close> disappear:
  the calls are operations on a list of messages and two waiter slots.
\<close>

definition chan_inv :: "channel_inner \<Rightarrow> bool" where
  "chan_inv ch \<longleftrightarrow> queue_inv (queue ch) \<and>
     (recv_waiter ch \<noteq> None \<longrightarrow> queue_list (queue ch) = []) \<and>
     (send_waiter ch \<noteq> None \<longrightarrow> length (queue_list (queue ch)) = QUEUE_CAP)"

record achannel =
  msgs :: "message list"
  areceiver :: "proc_id option"
  asender :: "proc_id option"
  aclosed :: bool

definition chan_abs :: "channel_inner \<Rightarrow> achannel" where
  "chan_abs ch = \<lparr>msgs = queue_list (queue ch), areceiver = recv_waiter ch,
                  asender = send_waiter ch, aclosed = closed ch\<rparr>"

definition inherit :: "'s ipc_scheduler \<Rightarrow> proc_id \<Rightarrow> 's \<Rightarrow> 's" where
  "inherit S receiver s =
     (case current S s of
        Some sender \<Rightarrow> if priority S sender s < priority S receiver s
                       then boost S receiver (priority S sender s) s else s
      | None \<Rightarrow> s)"

definition send_spec ::
  "'s ipc_scheduler \<Rightarrow> proc_id \<Rightarrow> message \<Rightarrow> achannel \<Rightarrow> 's
     \<Rightarrow> (ipc_err + unit) progress \<times> achannel \<times> 's" where
  "send_spec S me msg a s =
     (if aclosed a then (Done (Inl Closed), a, s)
      else case areceiver a of
        Some r \<Rightarrow> (Done (Inr ()), a\<lparr>msgs := msgs a @ [msg], areceiver := None\<rparr>,
                   wake S r (inherit S r s))
      | None \<Rightarrow>
          if length (msgs a) < QUEUE_CAP then (Done (Inr ()), a\<lparr>msgs := msgs a @ [msg]\<rparr>, s)
          else (Wait me, a\<lparr>asender := Some me\<rparr>, s))"

definition try_send_spec ::
  "'s ipc_scheduler \<Rightarrow> message \<Rightarrow> achannel \<Rightarrow> 's \<Rightarrow> (ipc_err + unit) \<times> achannel \<times> 's" where
  "try_send_spec S msg a s =
     (if aclosed a then (Inl Closed, a, s)
      else case areceiver a of
        Some r \<Rightarrow> (Inr (), a\<lparr>msgs := msgs a @ [msg], areceiver := None\<rparr>, wake S r s)
      | None \<Rightarrow>
          if length (msgs a) < QUEUE_CAP then (Inr (), a\<lparr>msgs := msgs a @ [msg]\<rparr>, s)
          else (Inl Full, a, s))"

definition try_receive_spec ::
  "'s ipc_scheduler \<Rightarrow> achannel \<Rightarrow> 's \<Rightarrow> (ipc_err + message) \<times> achannel \<times> 's" where
  "try_receive_spec S a s =
     (if aclosed a then (Inl Closed, a, s)
      else case msgs a of
        m # ms \<Rightarrow> (Inr m, a\<lparr>msgs := ms, asender := None\<rparr>, wake_opt S (asender a) s)
      | [] \<Rightarrow> (Inl Empty, a, s))"

text \<open>\<open>receive\<close> is the case with no deadline, \<open>receive_at d\<close> the case \<open>Some d\<close>.\<close>

definition receive_spec ::
  "'s ipc_scheduler \<Rightarrow> proc_id \<Rightarrow> u64 option \<Rightarrow> achannel \<Rightarrow> 's
     \<Rightarrow> (ipc_err + message) progress \<times> achannel \<times> 's" where
  "receive_spec S me dl a s =
     (if aclosed a then (Done (Inl Closed), a, s)
      else case msgs a of
        m # ms \<Rightarrow> (Done (Inr m), a\<lparr>msgs := ms, asender := None\<rparr>, wake_opt S (asender a) s)
      | [] \<Rightarrow>
          (case dl of
             None \<Rightarrow> (Wait me, a\<lparr>areceiver := Some me\<rparr>, unboost S me s)
           | Some d \<Rightarrow>
               if d \<le> now S s then (Done (Inr timeout_message), a, s)
               else (WaitAt me d, a\<lparr>areceiver := Some me\<rparr>, unboost S me s)))"

lemma chan_invD:
  assumes "chan_inv ch"
  shows "queue_inv (queue ch)" and "recv_waiter ch \<noteq> None \<Longrightarrow> queue_list (queue ch) = []"
    and "send_waiter ch \<noteq> None \<Longrightarrow> length (queue_list (queue ch)) = QUEUE_CAP"
  using assms by (simp_all add: chan_inv_def)

lemma chan_abs_sel [simp]:
  "msgs (chan_abs ch) = queue_list (queue ch)" "areceiver (chan_abs ch) = recv_waiter ch"
  "asender (chan_abs ch) = send_waiter ch" "aclosed (chan_abs ch) = closed ch"
  by (simp_all add: chan_abs_def)

definition refines_by :: "('r \<times> channel_inner \<times> 's) option \<Rightarrow> 'r \<times> achannel \<times> 's \<Rightarrow> bool" where
  "refines_by p spec \<longleftrightarrow>
     (\<exists>ch'. p = Some (fst spec, ch', snd (snd spec)) \<and> chan_inv ch' \<and> chan_abs ch' = fst (snd spec))"

lemma refines_byD:
  "refines_by (Some (r, ch', s')) spec \<Longrightarrow> chan_inv ch' \<and> spec = (r, chan_abs ch', s')"
  by (cases spec) (auto simp: refines_by_def)

lemma chan_new_inv: "chan_inv channel_inner_new"
  by (simp add: chan_inv_def channel_inner_new_def queue_new_inv)

lemma chan_new_abs:
  "chan_abs channel_inner_new = \<lparr>msgs = [], areceiver = None, asender = None, aclosed = False\<rparr>"
  by (simp add: chan_abs_def channel_inner_new_def queue_new_list)

lemma QUEUE_CAP_pos [simp]: "0 < QUEUE_CAP"
  by (simp add: QUEUE_CAP_def)

text \<open>What the ring buffer's push and pop are under the invariant.\<close>

lemma chan_push_room:
  assumes "chan_inv ch" and "length (queue_list (queue ch)) < QUEUE_CAP"
  obtains q where "push m (queue ch) = (True, q)" and "queue_inv q"
    and "queue_list q = queue_list (queue ch) @ [m]" and "send_waiter ch = None"
proof -
  from ring_fifo.put_room[OF chan_invD(1)[OF assms(1)] assms(2), of m] obtain q where
    "push m (queue ch) = (True, q)" "queue_inv q" "queue_list q = queue_list (queue ch) @ [m]"
    by auto
  moreover have "send_waiter ch = None" using chan_invD(3)[OF assms(1)] assms(2) by fastforce
  ultimately show thesis by (rule that)
qed

lemma chan_push_full:
  assumes "chan_inv ch" and "\<not> length (queue_list (queue ch)) < QUEUE_CAP"
  shows "push m (queue ch) = (False, queue ch)"
  using ring_fifo.put_cases[OF chan_invD(1)[OF assms(1)], of m] assms(2) by auto

lemma chan_pop_Nil:
  "chan_inv ch \<Longrightarrow> queue_list (queue ch) = [] \<Longrightarrow> pop (queue ch) = Some (None, queue ch)"
  by (rule ring_fifo.get_Nil[OF chan_invD(1)])

lemma chan_pop_Cons:
  assumes "chan_inv ch" and "queue_list (queue ch) = m # ms"
  obtains q where "pop (queue ch) = Some (Some m, q)" and "queue_inv q" and "queue_list q = ms"
    and "recv_waiter ch = None"
  using ring_fifo.get_Cons[OF chan_invD(1)[OF assms(1)] assms(2)] chan_invD(2)[OF assms(1)] assms(2)
  by auto

lemma chan_recv_room: "chan_inv ch \<Longrightarrow> recv_waiter ch = Some r \<Longrightarrow>
    length (queue_list (queue ch)) < QUEUE_CAP"
  using chan_invD(2)[of ch] by (auto simp: QUEUE_CAP_def)

lemma send_pass_refines:
  assumes inv: "chan_inv ch" and me: "current S s = Some me"
  shows "refines_by (send_pass S msg ch s) (send_spec S me msg (chan_abs ch) s)"
proof (cases "closed ch")
  case True
  with inv show ?thesis by (simp add: refines_by_def send_pass_def send_first_def send_spec_def)
next
  case open': False
  show ?thesis
  proof (cases "recv_waiter ch")
    case (Some r)
    from chan_push_room[OF inv chan_recv_room[OF inv Some], of msg] obtain q where
      q: "push msg (queue ch) = (True, q)" "queue_inv q"
         "queue_list q = queue_list (queue ch) @ [msg]" "send_waiter ch = None" .
    with Some open' show ?thesis
      by (simp add: refines_by_def send_pass_def send_first_def send_spec_def inherit_def chan_inv_def chan_abs_def)
  next
    case None
    show ?thesis
    proof (cases "length (queue_list (queue ch)) < QUEUE_CAP")
      case True
      from chan_push_room[OF inv True, of msg] obtain q where
        "push msg (queue ch) = (True, q)" "queue_inv q"
        "queue_list q = queue_list (queue ch) @ [msg]" "send_waiter ch = None" .
      with None open' True show ?thesis
        by (simp add: refines_by_def send_pass_def send_first_def send_second_def send_spec_def chan_inv_def chan_abs_def)
    next
      case False
      with chan_push_full[OF inv False] None open' me inv ring_fifo.bounded[OF chan_invD(1)[OF inv]]
      show ?thesis
        by (simp add: refines_by_def send_pass_def send_first_def send_second_def send_spec_def chan_inv_def chan_abs_def)
    qed
  qed
qed

lemma try_send_refines:
  assumes inv: "chan_inv ch"
  shows "refines_by (try_send S msg ch s) (try_send_spec S msg (chan_abs ch) s)"
proof (cases "closed ch")
  case True
  with inv show ?thesis by (simp add: refines_by_def try_send_def try_send_spec_def)
next
  case open': False
  show ?thesis
  proof (cases "length (queue_list (queue ch)) < QUEUE_CAP")
    case True
    from chan_push_room[OF inv True, of msg] obtain q where
      "push msg (queue ch) = (True, q)" "queue_inv q"
      "queue_list q = queue_list (queue ch) @ [msg]" "send_waiter ch = None" .
    with open' True show ?thesis
      by (cases "recv_waiter ch")
        (simp_all add: refines_by_def try_send_def try_send_spec_def chan_inv_def chan_abs_def)
  next
    case False
    with chan_recv_room[OF inv] have "recv_waiter ch = None" by (cases "recv_waiter ch") auto
    with chan_push_full[OF inv False] open' False inv show ?thesis
      by (simp add: refines_by_def try_send_def try_send_spec_def)
  qed
qed

lemma try_receive_refines:
  assumes inv: "chan_inv ch"
  shows "refines_by (try_receive S ch s) (try_receive_spec S (chan_abs ch) s)"
proof (cases "closed ch")
  case True
  with inv show ?thesis by (simp add: refines_by_def try_receive_def try_receive_spec_def)
next
  case open': False
  show ?thesis
  proof (cases "queue_list (queue ch)")
    case Nil
    with chan_pop_Nil[OF inv Nil] open' inv show ?thesis
      by (simp add: refines_by_def try_receive_def try_receive_spec_def)
  next
    case (Cons m ms)
    from chan_pop_Cons[OF inv Cons] obtain q where
      "pop (queue ch) = Some (Some m, q)" "queue_inv q" "queue_list q = ms" "recv_waiter ch = None" .
    with open' Cons show ?thesis
      by (simp add: refines_by_def try_receive_def try_receive_spec_def chan_inv_def chan_abs_def)
  qed
qed

lemma receive_pass_is_receive_spec:
  assumes inv: "chan_inv ch" and me: "current S s = Some me"
    and pass: "case dl of None \<Rightarrow> p = receive_pass S ch s | Some d \<Rightarrow> p = receive_at_pass S d ch s"
  shows "refines_by (p) (receive_spec S me dl (chan_abs ch) s)"
proof (cases "closed ch")
  case True
  with inv me pass show ?thesis
    by (cases dl) (simp_all add: refines_by_def receive_pass_def receive_at_pass_def receive_spec_def)
next
  case open': False
  show ?thesis
  proof (cases "queue_list (queue ch)")
    case Nil
    have "send_waiter ch = None" using chan_invD(3)[OF inv] Nil
      by (cases "send_waiter ch") (auto simp: QUEUE_CAP_def)
    with chan_pop_Nil[OF inv Nil] open' inv me pass Nil show ?thesis
      by (cases dl) (auto simp: refines_by_def receive_pass_def receive_at_pass_def receive_spec_def chan_inv_def
          chan_abs_def)
  next
    case (Cons m ms)
    from chan_pop_Cons[OF inv Cons] obtain q where
      "pop (queue ch) = Some (Some m, q)" "queue_inv q" "queue_list q = ms" "recv_waiter ch = None" .
    with open' Cons me pass show ?thesis
      by (cases dl) (simp_all add: refines_by_def receive_pass_def receive_at_pass_def receive_spec_def chan_inv_def
          chan_abs_def)
  qed
qed

lemma close_inv: "chan_inv ch \<Longrightarrow> chan_inv (fst (close S ch s))"
  by (simp add: close_def chan_inv_def)

lemma close_abs:
  "chan_abs (fst (close S ch s)) = (chan_abs ch)\<lparr>aclosed := True, areceiver := None, asender := None\<rparr>"
  by (simp add: close_def chan_abs_def)

subsection \<open>The channel in use: every interleaving of calls\<close>

text \<open>
  One channel shared by any number of processes.  A process that is not inside a call may start one;
  a process whose pass ended in a wait repeats the same call when it is on the CPU again; the kernel
  may send and receive without blocking and close the channel; between the passes the scheduler state
  may change in any way (a context switch, a tick, another channel).  \<open>accepted\<close> and \<open>delivered\<close> are
  the messages of the sends that returned success and of the receives that returned a queued message.
\<close>

datatype phase = Idle | Sending message | Receiving "u64 option"

record 's chan_sys =
  chan :: channel_inner
  sch :: 's
  phase :: "proc_id \<Rightarrow> phase"
  accepted :: "message list"
  delivered :: "message list"

definition may_call :: "phase \<Rightarrow> phase \<Rightarrow> bool" where
  "may_call at call \<longleftrightarrow> at = Idle \<or> at = call"

definition recv_pass ::
  "'s ipc_scheduler \<Rightarrow> u64 option \<Rightarrow> channel_inner \<Rightarrow> 's
     \<Rightarrow> ((ipc_err + message) progress \<times> channel_inner \<times> 's) option" where
  "recv_pass S dl ch s = (case dl of None \<Rightarrow> receive_pass S ch s | Some d \<Rightarrow> receive_at_pass S d ch s)"

inductive chan_step :: "'s ipc_scheduler \<Rightarrow> 's chan_sys \<Rightarrow> 's chan_sys \<Rightarrow> bool" for S where
  send_done: "current S (sch \<sigma>) = Some i \<Longrightarrow> may_call (phase \<sigma> i) (Sending m) \<Longrightarrow>
     send_pass S m (chan \<sigma>) (sch \<sigma>) = Some (Done (Inr ()), ch', s') \<Longrightarrow>
     chan_step S \<sigma> (\<sigma>\<lparr>chan := ch', sch := s', phase := (phase \<sigma>)(i := Idle),
                      accepted := accepted \<sigma> @ [m]\<rparr>)"
| send_refused: "current S (sch \<sigma>) = Some i \<Longrightarrow> may_call (phase \<sigma> i) (Sending m) \<Longrightarrow>
     send_pass S m (chan \<sigma>) (sch \<sigma>) = Some (Done (Inl e), ch', s') \<Longrightarrow>
     chan_step S \<sigma> (\<sigma>\<lparr>chan := ch', sch := s', phase := (phase \<sigma>)(i := Idle)\<rparr>)"
| send_wait: "current S (sch \<sigma>) = Some i \<Longrightarrow> may_call (phase \<sigma> i) (Sending m) \<Longrightarrow>
     send_pass S m (chan \<sigma>) (sch \<sigma>) = Some (Wait w, ch', s') \<Longrightarrow>
     chan_step S \<sigma> (\<sigma>\<lparr>chan := ch', sch := s', phase := (phase \<sigma>)(i := Sending m)\<rparr>)"
| recv_message: "current S (sch \<sigma>) = Some i \<Longrightarrow> may_call (phase \<sigma> i) (Receiving dl) \<Longrightarrow>
     qlen (queue (chan \<sigma>)) \<noteq> 0 \<Longrightarrow>
     recv_pass S dl (chan \<sigma>) (sch \<sigma>) = Some (Done (Inr m), ch', s') \<Longrightarrow>
     chan_step S \<sigma> (\<sigma>\<lparr>chan := ch', sch := s', phase := (phase \<sigma>)(i := Idle),
                      delivered := delivered \<sigma> @ [m]\<rparr>)"
| recv_timeout: "current S (sch \<sigma>) = Some i \<Longrightarrow> may_call (phase \<sigma> i) (Receiving dl) \<Longrightarrow>
     qlen (queue (chan \<sigma>)) = 0 \<Longrightarrow>
     recv_pass S dl (chan \<sigma>) (sch \<sigma>) = Some (Done (Inr m), ch', s') \<Longrightarrow>
     chan_step S \<sigma> (\<sigma>\<lparr>chan := ch', sch := s', phase := (phase \<sigma>)(i := Idle)\<rparr>)"
| recv_refused: "current S (sch \<sigma>) = Some i \<Longrightarrow> may_call (phase \<sigma> i) (Receiving dl) \<Longrightarrow>
     recv_pass S dl (chan \<sigma>) (sch \<sigma>) = Some (Done (Inl e), ch', s') \<Longrightarrow>
     chan_step S \<sigma> (\<sigma>\<lparr>chan := ch', sch := s', phase := (phase \<sigma>)(i := Idle)\<rparr>)"
| recv_wait: "current S (sch \<sigma>) = Some i \<Longrightarrow> may_call (phase \<sigma> i) (Receiving dl) \<Longrightarrow>
     recv_pass S dl (chan \<sigma>) (sch \<sigma>) = Some (w, ch', s') \<Longrightarrow> (\<forall>x. w \<noteq> Done x) \<Longrightarrow>
     chan_step S \<sigma> (\<sigma>\<lparr>chan := ch', sch := s', phase := (phase \<sigma>)(i := Receiving dl)\<rparr>)"
| kernel_send: "try_send S m (chan \<sigma>) (sch \<sigma>) = Some (Inr (), ch', s') \<Longrightarrow>
     chan_step S \<sigma> (\<sigma>\<lparr>chan := ch', sch := s', accepted := accepted \<sigma> @ [m]\<rparr>)"
| kernel_send_lost: "try_send S m (chan \<sigma>) (sch \<sigma>) = Some (Inl e, ch', s') \<Longrightarrow>
     chan_step S \<sigma> (\<sigma>\<lparr>chan := ch', sch := s'\<rparr>)"
| kernel_recv: "try_receive S (chan \<sigma>) (sch \<sigma>) = Some (Inr m, ch', s') \<Longrightarrow>
     chan_step S \<sigma> (\<sigma>\<lparr>chan := ch', sch := s', delivered := delivered \<sigma> @ [m]\<rparr>)"
| kernel_recv_none: "try_receive S (chan \<sigma>) (sch \<sigma>) = Some (Inl e, ch', s') \<Longrightarrow>
     chan_step S \<sigma> (\<sigma>\<lparr>chan := ch', sch := s'\<rparr>)"
| closing: "close S (chan \<sigma>) (sch \<sigma>) = (ch', s') \<Longrightarrow>
     chan_step S \<sigma> (\<sigma>\<lparr>chan := ch', sch := s'\<rparr>)"
| elsewhere: "chan_step S \<sigma> (\<sigma>\<lparr>sch := s'\<rparr>)"

definition chan_init :: "'s \<Rightarrow> 's chan_sys" where
  "chan_init s = \<lparr>chan = channel_inner_new, sch = s, phase = (\<lambda>_. Idle), accepted = [], delivered = []\<rparr>"

inductive chan_reachable :: "'s ipc_scheduler \<Rightarrow> 's chan_sys \<Rightarrow> bool" for S where
  init: "chan_reachable S (chan_init s)"
| step: "chan_reachable S \<sigma> \<Longrightarrow> chan_step S \<sigma> \<tau> \<Longrightarrow> chan_reachable S \<tau>"

definition sys_inv :: "'s chan_sys \<Rightarrow> bool" where
  "sys_inv \<sigma> \<longleftrightarrow> chan_inv (chan \<sigma>) \<and>
     accepted \<sigma> = delivered \<sigma> @ queue_list (queue (chan \<sigma>))"

text \<open>What one pass does to the queued messages, read off the specifications.\<close>

lemma send_pass_msgs:
  assumes "chan_inv ch" and "current S s = Some me" and "send_pass S m ch s = Some (r, ch', s')"
  shows "chan_inv ch' \<and> queue_list (queue ch') =
           (if r = Done (Inr ()) then queue_list (queue ch) @ [m] else queue_list (queue ch))"
proof -
  from send_pass_refines[OF assms(1,2), of m, unfolded assms(3)] have
    inv: "chan_inv ch'" and spec: "send_spec S me m (chan_abs ch) s = (r, chan_abs ch', s')"
    by (blast dest: refines_byD)+
  from arg_cong[OF spec, of fst] arg_cong[OF spec, of "\<lambda>x. msgs (fst (snd x))"] inv show ?thesis
    by (auto simp: send_spec_def split: option.splits if_splits)
qed

lemma recv_pass_refines:
  assumes "chan_inv ch" and "current S s = Some me"
  shows "refines_by (recv_pass S dl ch s) (receive_spec S me dl (chan_abs ch) s)"
  by (rule receive_pass_is_receive_spec[OF assms, where dl = dl]) (simp add: recv_pass_def split: option.split)

lemma recv_pass_msgs:
  assumes "chan_inv ch" and "current S s = Some me" and "recv_pass S dl ch s = Some (r, ch', s')"
  shows "chan_inv ch' \<and>
    (case r of Done (Inr m) \<Rightarrow>
         if qlen (queue ch) = 0 then queue_list (queue ch') = queue_list (queue ch)
         else queue_list (queue ch) = m # queue_list (queue ch')
     | _ \<Rightarrow> queue_list (queue ch') = queue_list (queue ch))"
proof -
  have nil: "qlen (queue ch) = 0 \<longleftrightarrow> queue_list (queue ch) = []"
    by (metis length_queue_list length_0_conv)
  from recv_pass_refines[OF assms(1,2), of dl, unfolded assms(3)] have
    inv: "chan_inv ch'" and spec: "receive_spec S me dl (chan_abs ch) s = (r, chan_abs ch', s')"
    by (blast dest: refines_byD)+
  from arg_cong[OF spec, of fst] arg_cong[OF spec, of "\<lambda>x. msgs (fst (snd x))"] inv show ?thesis
    by (auto simp: receive_spec_def nil split: option.splits list.splits if_splits)
qed

lemma try_send_msgs:
  assumes "chan_inv ch" and "try_send S m ch s = Some (r, ch', s')"
  shows "chan_inv ch' \<and> queue_list (queue ch') =
           (if r = Inr () then queue_list (queue ch) @ [m] else queue_list (queue ch))"
proof -
  from try_send_refines[OF assms(1), of S m s, unfolded assms(2)] have
    inv: "chan_inv ch'" and spec: "try_send_spec S m (chan_abs ch) s = (r, chan_abs ch', s')"
    by (blast dest: refines_byD)+
  from arg_cong[OF spec, of fst] arg_cong[OF spec, of "\<lambda>x. msgs (fst (snd x))"] inv show ?thesis
    by (auto simp: try_send_spec_def split: option.splits if_splits)
qed

lemma try_receive_msgs:
  assumes "chan_inv ch" and "try_receive S ch s = Some (r, ch', s')"
  shows "chan_inv ch' \<and> queue_list (queue ch) =
           (case r of Inr m \<Rightarrow> m # queue_list (queue ch') | Inl e \<Rightarrow> queue_list (queue ch'))"
proof -
  from try_receive_refines[OF assms(1), of S s, unfolded assms(2)] have
    inv: "chan_inv ch'" and spec: "try_receive_spec S (chan_abs ch) s = (r, chan_abs ch', s')"
    by (blast dest: refines_byD)+
  from arg_cong[OF spec, of fst] arg_cong[OF spec, of "\<lambda>x. msgs (fst (snd x))"] inv show ?thesis
    by (auto simp: try_receive_spec_def split: list.splits if_splits)
qed

lemma close_msgs:
  assumes "chan_inv ch" and "close S ch s = (ch', s')"
  shows "chan_inv ch' \<and> queue_list (queue ch') = queue_list (queue ch)"
  using close_inv[OF assms(1), of S s] assms(2) by (auto simp: close_def)

lemma chan_step_inv: "chan_step S \<sigma> \<tau> \<Longrightarrow> sys_inv \<sigma> \<Longrightarrow> sys_inv \<tau>"
proof (induction rule: chan_step.induct)
  case (send_done \<sigma> i m ch' s')
  with send_pass_msgs[OF _ send_done(1,3)] show ?case by (simp add: sys_inv_def)
next
  case (send_refused \<sigma> i m e ch' s')
  with send_pass_msgs[OF _ send_refused(1,3)] show ?case by (simp add: sys_inv_def)
next
  case (send_wait \<sigma> i m w ch' s')
  with send_pass_msgs[OF _ send_wait(1,3)] show ?case by (simp add: sys_inv_def)
next
  case (recv_message \<sigma> i dl m ch' s')
  with recv_pass_msgs[OF _ recv_message(1,4)] show ?case by (simp add: sys_inv_def)
next
  case (recv_timeout \<sigma> i dl m ch' s')
  with recv_pass_msgs[OF _ recv_timeout(1,4)] show ?case by (simp add: sys_inv_def)
next
  case (recv_refused \<sigma> i dl e ch' s')
  with recv_pass_msgs[OF _ recv_refused(1,3)] show ?case by (simp add: sys_inv_def)
next
  case (recv_wait \<sigma> i dl w ch' s')
  with recv_pass_msgs[OF _ recv_wait(1,3)] show ?case
    by (cases w) (simp_all add: sys_inv_def)
next
  case (kernel_send m \<sigma> ch' s')
  with try_send_msgs[OF _ kernel_send(1)] show ?case by (simp add: sys_inv_def)
next
  case (kernel_send_lost m \<sigma> e ch' s')
  with try_send_msgs[OF _ kernel_send_lost(1)] show ?case by (simp add: sys_inv_def)
next
  case (kernel_recv \<sigma> m ch' s')
  with try_receive_msgs[OF _ kernel_recv(1)] show ?case by (simp add: sys_inv_def)
next
  case (kernel_recv_none \<sigma> e ch' s')
  with try_receive_msgs[OF _ kernel_recv_none(1)] show ?case by (simp add: sys_inv_def)
next
  case (closing \<sigma> ch' s')
  with close_msgs[OF _ closing(1)] show ?case by (simp add: sys_inv_def)
next
  case (elsewhere \<sigma> s')
  then show ?case by (simp add: sys_inv_def)
qed

lemma chan_reachable_inv: "chan_reachable S \<sigma> \<Longrightarrow> sys_inv \<sigma>"
proof (induction rule: chan_reachable.induct)
  case (init s)
  show ?case by (simp add: sys_inv_def chan_init_def chan_new_inv)
      (simp add: channel_inner_new_def queue_new_list)
next
  case (step \<sigma> \<tau>)
  then show ?case by (blast intro: chan_step_inv)
qed

end
