(* ===== verification/Ipc_Props.thy ===== *)
theory Ipc_Props
  imports Ipc_Channel
begin

section \<open>What a channel promises its users\<close>

text \<open>
  Whole calls of \<open>send\<close>, \<open>receive\<close> and \<open>receive_at\<close> with any number of waits in them, and the properties
  of the channels: conservation and order of messages over every interleaving, the refinement of the
  list specification, absence of kernel stops, progress of a blocked call, and the behaviours at the
  edges of the protocol (the window between the two critical sections of \<open>send\<close>, a waiter left
  behind by a timeout, a waiter overwritten by a second one).
\<close>

subsection \<open>Whole calls\<close>

text \<open>The state a blocked caller finds at its \<open>k\<close>-th look at the channel.\<close>

fun send_look :: "'s switched \<Rightarrow> proc_id \<Rightarrow> nat \<Rightarrow> channel_inner \<times> 's \<Rightarrow> channel_inner \<times> 's" where
  "send_look env me 0 cs = cs"
| "send_look env me (Suc k) cs =
     env me (case send_look env me k cs of (ch, s) \<Rightarrow> (ch\<lparr>send_waiter := Some me\<rparr>, s))"

definition full_open :: "channel_inner \<Rightarrow> bool" where
  "full_open ch \<longleftrightarrow> \<not> closed ch \<and> recv_waiter ch = None \<and> qlen (queue ch) = QUEUE_CAP"

lemma send_look_shift:
  "send_look env me (Suc k) (ch, s) = send_look env me k (env me (ch\<lparr>send_waiter := Some me\<rparr>, s))"
  by (induction k) simp_all

lemma send_pass_full:
  assumes "chan_inv ch" and "current S s = Some me" and "full_open ch"
  shows "send_pass S m ch s = Some (Wait me, ch\<lparr>send_waiter := Some me\<rparr>, s)"
  using assms chan_push_full[OF assms(1), of m]
  by (simp add: send_pass_def send_first_def send_second_def full_open_def)

lemma send_unfold_Wait:
  assumes "send_pass S m ch s = Some (Wait w, ch1, s1)"
  shows "send S env m (ch, s) = send S env m (env w (ch1, s1))"
  using assms by (subst send.simps) simp

lemma send_unfold_Done:
  assumes "send_pass S m ch s = Some (Done x, ch1, s1)"
  shows "send S env m (ch, s) = Some (x, ch1, s1)"
  using assms by (subst send.simps) simp

lemma refines_byE:
  assumes "refines_by p spec"
  obtains r ch' s' where "p = Some (r, ch', s')" and "chan_inv ch'" and "spec = (r, chan_abs ch', s')"
  using assms by (cases spec) (auto simp: refines_by_def)

definition waits_full :: "'s ipc_scheduler \<Rightarrow> proc_id \<Rightarrow> channel_inner \<times> 's \<Rightarrow> bool" where
  "waits_full S me cs \<longleftrightarrow> chan_inv (fst cs) \<and> current S (snd cs) = Some me \<and> full_open (fst cs)"

lemma send_waits_out:
  assumes "\<And>k. k < n \<Longrightarrow> waits_full S me (send_look env me k cs)"
  shows "send S env msg cs = send S env msg (send_look env me n cs)"
  using assms
proof (induction n arbitrary: cs)
  case 0
  then show ?case by simp
next
  case (Suc n)
  obtain ch s where cs: "cs = (ch, s)" by fastforce
  let ?cs1 = "env me (ch\<lparr>send_waiter := Some me\<rparr>, s)"
  from Suc.prems[of 0] have w: "waits_full S me (ch, s)" by (simp add: cs)
  have "send S env msg cs = send S env msg ?cs1"
    unfolding cs by (rule send_unfold_Wait[OF send_pass_full]) (use w in \<open>simp_all add: waits_full_def\<close>)
  also have "\<dots> = send S env msg (send_look env me n ?cs1)"
  proof (rule Suc.IH)
    fix k assume "k < n"
    then have "waits_full S me (send_look env me (Suc k) cs)" by (intro Suc.prems) simp
    then show "waits_full S me (send_look env me k ?cs1)" unfolding cs send_look_shift .
  qed
  finally show ?case unfolding cs send_look_shift .
qed

fun recv_look :: "'s ipc_scheduler \<Rightarrow> 's switched \<Rightarrow> proc_id \<Rightarrow> nat \<Rightarrow> channel_inner \<times> 's \<Rightarrow> channel_inner \<times> 's"
  where
  "recv_look S env me 0 cs = cs"
| "recv_look S env me (Suc k) cs =
     env me (case recv_look S env me k cs of (ch, s) \<Rightarrow> (ch\<lparr>recv_waiter := Some me\<rparr>, unboost S me s))"

lemma recv_look_shift:
  "recv_look S env me (Suc k) (ch, s) =
     recv_look S env me k (env me (ch\<lparr>recv_waiter := Some me\<rparr>, unboost S me s))"
  by (induction k) simp_all

definition waits_empty :: "'s ipc_scheduler \<Rightarrow> proc_id \<Rightarrow> channel_inner \<times> 's \<Rightarrow> bool" where
  "waits_empty S me cs \<longleftrightarrow> chan_inv (fst cs) \<and> current S (snd cs) = Some me \<and>
     \<not> closed (fst cs) \<and> queue_list (queue (fst cs)) = []"

lemma receive_pass_empty:
  assumes "waits_empty S me (ch, s)"
  shows "receive_pass S ch s = Some (Wait me, ch\<lparr>recv_waiter := Some me\<rparr>, unboost S me s)"
  using assms chan_pop_Nil[of ch] by (simp add: waits_empty_def receive_pass_def)

lemma receive_at_pass_empty:
  assumes "waits_empty S me (ch, s)" and "now S s < d"
  shows "receive_at_pass S d ch s = Some (WaitAt me d, ch\<lparr>recv_waiter := Some me\<rparr>, unboost S me s)"
  using assms chan_pop_Nil[of ch] by (simp add: waits_empty_def receive_at_pass_def)

lemma receive_unfold:
  "receive_pass S ch s = Some (Wait w, ch1, s1) \<Longrightarrow> receive S env (ch, s) = receive S env (env w (ch1, s1))"
  "receive_pass S ch s = Some (Done x, ch1, s1) \<Longrightarrow> receive S env (ch, s) = Some (x, ch1, s1)"
  by (subst receive.simps, simp)+

lemma receive_at_unfold:
  "receive_at_pass S d ch s = Some (WaitAt w d', ch1, s1) \<Longrightarrow>
     receive_at S env d (ch, s) = receive_at S env d (env w (ch1, s1))"
  "receive_at_pass S d ch s = Some (Done x, ch1, s1) \<Longrightarrow> receive_at S env d (ch, s) = Some (x, ch1, s1)"
  by (subst receive_at.simps, simp)+

lemma receive_waits_out:
  assumes "\<And>k. k < n \<Longrightarrow> waits_empty S me (recv_look S env me k cs)"
  shows "receive S env cs = receive S env (recv_look S env me n cs)"
  using assms
proof (induction n arbitrary: cs)
  case 0
  then show ?case by simp
next
  case (Suc n)
  obtain ch s where cs: "cs = (ch, s)" by fastforce
  let ?cs1 = "env me (ch\<lparr>recv_waiter := Some me\<rparr>, unboost S me s)"
  from Suc.prems[of 0] have w: "waits_empty S me (ch, s)" by (simp add: cs)
  have "receive S env cs = receive S env ?cs1"
    unfolding cs by (rule receive_unfold(1)[OF receive_pass_empty[OF w]])
  also have "\<dots> = receive S env (recv_look S env me n ?cs1)"
  proof (rule Suc.IH)
    fix k assume "k < n"
    then have "waits_empty S me (recv_look S env me (Suc k) cs)" by (intro Suc.prems) simp
    then show "waits_empty S me (recv_look S env me k ?cs1)" unfolding cs recv_look_shift .
  qed
  finally show ?case unfolding cs recv_look_shift .
qed

lemma receive_at_waits_out:
  assumes "\<And>k. k < n \<Longrightarrow> waits_empty S me (recv_look S env me k cs) \<and>
                              now S (snd (recv_look S env me k cs)) < d"
  shows "receive_at S env d cs = receive_at S env d (recv_look S env me n cs)"
  using assms
proof (induction n arbitrary: cs)
  case 0
  then show ?case by simp
next
  case (Suc n)
  obtain ch s where cs: "cs = (ch, s)" by fastforce
  let ?cs1 = "env me (ch\<lparr>recv_waiter := Some me\<rparr>, unboost S me s)"
  from Suc.prems[of 0] have w: "waits_empty S me (ch, s)" "now S s < d" by (simp_all add: cs)
  have "receive_at S env d cs = receive_at S env d ?cs1"
    unfolding cs by (rule receive_at_unfold(1)[OF receive_at_pass_empty[OF w]])
  also have "\<dots> = receive_at S env d (recv_look S env me n ?cs1)"
  proof (rule Suc.IH)
    fix k assume "k < n"
    then have "waits_empty S me (recv_look S env me (Suc k) cs) \<and>
                 now S (snd (recv_look S env me (Suc k) cs)) < d" by (intro Suc.prems) simp
    then show "waits_empty S me (recv_look S env me k ?cs1) \<and>
                 now S (snd (recv_look S env me k ?cs1)) < d" unfolding cs recv_look_shift .
  qed
  finally show ?case unfolding cs recv_look_shift .
qed

subsection \<open>Examples used by the properties\<close>

text \<open>A scheduler with one process on the CPU, a clock, and no priorities.\<close>

definition demo_sched :: "(proc_id option \<times> u64) ipc_scheduler" where
  "demo_sched = \<lparr>current = fst, priority = (\<lambda>_ _. 128), boost = (\<lambda>_ _ s. s), unboost = (\<lambda>_ s. s),
                 wake = (\<lambda>_ s. s), now = snd\<rparr>"

definition demo_msg :: message where
  "demo_msg = message_new 1 7 [0xde, 0xad]"

definition demo_full :: channel_inner where
  "demo_full = channel_inner_new\<lparr>queue := \<lparr>slots = replicate 8 (Some timeout_message), head = 0, qlen = 8\<rparr>\<rparr>"

lemma demo_sched_sel [simp]:
  "current demo_sched = fst" "now demo_sched = snd" "wake demo_sched i s = s"
  "unboost demo_sched i s = s" "priority demo_sched i s = 128"
  by (simp_all add: demo_sched_def)

lemma demo_full_list: "queue_list (queue demo_full) = replicate 8 timeout_message"
  unfolding demo_full_def timeout_message_def by code_simp

lemma demo_full_inv: "chan_inv demo_full"
proof -
  have "queue_inv (queue demo_full)"
    by (auto simp: demo_full_def queue_inv_def channel_inner_new_def QUEUE_CAP_def ring_def)
  then show ?thesis
    by (simp add: chan_inv_def demo_full_list) (simp add: demo_full_def channel_inner_new_def)
qed

lemma demo_msg_neq: "demo_msg \<noteq> timeout_message"
  by (simp add: demo_msg_def timeout_message_def message_new_def RECEIVE_TIMEOUT_def Let_def)

lemma demo_new_waits: "waits_empty demo_sched 3 (channel_inner_new, Some 3, t)"
  by (simp add: waits_empty_def chan_new_inv) (simp add: channel_inner_new_def queue_new_list)

lemma demo_full_waits: "waits_full demo_sched 3 (demo_full, Some 3, t)"
  by (simp add: waits_full_def demo_full_inv full_open_def)
    (simp add: demo_full_def channel_inner_new_def QUEUE_CAP_def)

text \<open>Process 3 sends, process 4 takes the CPU and receives.\<close>

lemma demo_reachable:
  "\<exists>\<sigma>. chan_reachable demo_sched \<sigma> \<and> accepted \<sigma> = [demo_msg] \<and> delivered \<sigma> = [demo_msg] \<and>
        sch \<sigma> = (Some 4, 0)"
proof -
  let ?s = "(Some 3 :: proc_id option, 0 :: u64)" and ?t = "(Some 4 :: proc_id option, 0 :: u64)"
  let ?\<sigma>0 = "chan_init ?s"
  have i0: "chan_inv (chan ?\<sigma>0)" by (simp add: chan_init_def chan_new_inv)
  have r0: "chan_reachable demo_sched ?\<sigma>0" by (rule chan_reachable.init)
  obtain c1 where p1: "send_pass demo_sched demo_msg (chan ?\<sigma>0) (sch ?\<sigma>0) = Some (Done (Inr ()), c1, ?s)"
      and a1: "chan_inv c1" "chan_abs c1 = \<lparr>msgs = [demo_msg], areceiver = None, asender = None, aclosed = False\<rparr>"
    using send_pass_refines[OF i0, of demo_sched ?s 3 demo_msg]
    by (auto simp: refines_by_def send_spec_def chan_init_def chan_new_abs)
  define \<sigma>1 where "\<sigma>1 = ?\<sigma>0\<lparr>chan := c1, sch := ?s, phase := (phase ?\<sigma>0)(3 := Idle),
                      accepted := accepted ?\<sigma>0 @ [demo_msg]\<rparr>"
  have r1: "chan_reachable demo_sched \<sigma>1" unfolding \<sigma>1_def
    by (rule chan_reachable.step[OF r0], rule chan_step.send_done[OF _ _ p1])
      (simp_all add: chan_init_def may_call_def)
  define \<sigma>2 where "\<sigma>2 = \<sigma>1\<lparr>sch := ?t\<rparr>"
  have r2: "chan_reachable demo_sched \<sigma>2" unfolding \<sigma>2_def
    by (rule chan_reachable.step[OF r1 chan_step.elsewhere])
  obtain c3 where p3: "recv_pass demo_sched None (chan \<sigma>2) (sch \<sigma>2) = Some (Done (Inr demo_msg), c3, ?t)"
    using recv_pass_refines[OF a1(1), of demo_sched ?t 4 None, unfolded a1(2)]
    by (auto simp: refines_by_def receive_spec_def \<sigma>2_def \<sigma>1_def wake_opt_def)
  have q: "qlen (queue (chan \<sigma>2)) \<noteq> 0"
    using arg_cong[OF a1(2), of "\<lambda>a. length (msgs a)"] by (simp add: \<sigma>2_def \<sigma>1_def)
  have "chan_reachable demo_sched
     (\<sigma>2\<lparr>chan := c3, sch := ?t, phase := (phase \<sigma>2)(4 := Idle), delivered := delivered \<sigma>2 @ [demo_msg]\<rparr>)"
    by (rule chan_reachable.step[OF r2], rule chan_step.recv_message[OF _ _ q p3])
      (simp_all add: \<sigma>2_def \<sigma>1_def chan_init_def may_call_def)
  moreover have "accepted \<sigma>2 = [demo_msg]" "delivered \<sigma>2 = []"
    by (simp_all add: \<sigma>2_def \<sigma>1_def chan_init_def)
  ultimately show ?thesis by force
qed

subsection \<open>Conservation, refinement, no stops\<close>

text \<open>C5: in every interleaving of sends, receives, bounded receives, kernel sends and receives, closes
  and scheduler activity on a channel, the messages of the successful sends are exactly the delivered
  messages followed by the queued ones, in order: nothing is lost, duplicated or reordered, and at
  most eight messages are held.\<close>

theorem channel_conserves_messages:
  assumes "chan_reachable S \<sigma>"
  shows "accepted \<sigma> = delivered \<sigma> @ queue_list (queue (chan \<sigma>)) \<and>
         length (queue_list (queue (chan \<sigma>))) \<le> QUEUE_CAP"
  using chan_reachable_inv[OF assms] ring_fifo.bounded
  by (auto simp: sys_inv_def chan_inv_def)

theorem channel_conserves_messages_witness:
  "\<exists>\<sigma>. chan_reachable demo_sched \<sigma> \<and> delivered \<sigma> = [demo_msg] \<and> queue_list (queue (chan \<sigma>)) = []"
  using demo_reachable channel_conserves_messages by (metis append_self_conv)

text \<open>C6: under the channel invariant every entry point does exactly what the list specification says,
  result, messages, waiter slots and scheduler effect, on every branch, and keeps the invariant: the
  ring buffer, the two critical sections and the fast path are not observable.\<close>

theorem channel_calls_refine_spec:
  assumes "chan_inv ch" and "current S s = Some me"
  shows "refines_by (send_pass S m ch s) (send_spec S me m (chan_abs ch) s) \<and>
         refines_by (receive_pass S ch s) (receive_spec S me None (chan_abs ch) s) \<and>
         refines_by (receive_at_pass S d ch s) (receive_spec S me (Some d) (chan_abs ch) s) \<and>
         refines_by (try_send S m ch s) (try_send_spec S m (chan_abs ch) s) \<and>
         refines_by (try_receive S ch s) (try_receive_spec S (chan_abs ch) s)"
  using send_pass_refines[OF assms] recv_pass_refines[OF assms, of None]
    recv_pass_refines[OF assms, of "Some d"] try_send_refines[OF assms(1)] try_receive_refines[OF assms(1)]
  by (auto simp: recv_pass_def)

theorem channel_calls_refine_spec_witness:
  "refines_by (send_pass demo_sched demo_msg demo_full (Some 3, 0))
     (send_spec demo_sched 3 demo_msg (chan_abs demo_full) (Some 3, 0))"
  using channel_calls_refine_spec[OF demo_full_inv, of demo_sched "(Some 3, 0)" 3] by simp



subsection \<open>Progress of blocked calls\<close>

text \<open>C9: a \<open>send\<close> that finds the channel full any number of times and then finds it with room, or
  closed, returns: with room the message is queued exactly once, at the tail; closed gives \<open>Closed\<close> and
  changes nothing.\<close>

theorem send_returns_after_waiting:
  assumes "\<And>k. k < n \<Longrightarrow> waits_full S me (send_look env me k cs)"
    and look: "send_look env me n cs = (ch, s)" and inv: "chan_inv ch" and me: "current S s = Some me"
    and ready: "closed ch \<or> recv_waiter ch \<noteq> None \<or> length (queue_list (queue ch)) < QUEUE_CAP"
  shows "\<exists>ch' s'. send S env m cs = Some (if closed ch then Inl Closed else Inr (), ch', s') \<and>
           (if closed ch then (ch', s') = (ch, s)
            else queue_list (queue ch') = queue_list (queue ch) @ [m] \<and> recv_waiter ch' = None)"
proof -
  have *: "send S env m cs = send S env m (ch, s)" using send_waits_out[OF assms(1)] look by simp
  obtain r ch' s' where p: "send_pass S m ch s = Some (r, ch', s')"
      and spec: "send_spec S me m (chan_abs ch) s = (r, chan_abs ch', s')"
    using send_pass_refines[OF inv me, of m] by (rule refines_byE)
  show ?thesis
  proof (cases "closed ch")
    case True
    then have "send_pass S m ch s = Some (Done (Inl Closed), ch, s)"
      by (simp add: send_pass_def send_first_def)
    from send_unfold_Done[OF this, of env] True show ?thesis by (simp add: *)
  next
    case False
    with ready arg_cong[OF spec, of fst] have r: "r = Done (Inr ())"
      by (auto simp: send_spec_def split: option.splits if_splits)
    have "queue_list (queue ch') = queue_list (queue ch) @ [m] \<and> recv_waiter ch' = None"
      using False ready arg_cong[OF spec, of "\<lambda>x. (msgs (fst (snd x)), areceiver (fst (snd x)))"]
      by (auto simp: send_spec_def split: option.splits if_splits)
    with send_unfold_Done[OF p[unfolded r], of env] False show ?thesis by (simp add: *)
  qed
qed

theorem send_returns_after_waiting_witness:
  "\<exists>ch' s'. send demo_sched (\<lambda>_ cs. (channel_inner_new, snd cs)) demo_msg (demo_full, Some 3, 0)
             = Some (Inr (), ch', s') \<and> queue_list (queue ch') = [demo_msg]"
  using send_returns_after_waiting[of 1 demo_sched 3 "\<lambda>_ cs. (channel_inner_new, snd cs)"
      "(demo_full, Some 3, 0)" channel_inner_new "(Some 3, 0)" demo_msg] demo_full_waits chan_new_inv
  by (auto simp: channel_inner_new_def queue_new_list)

text \<open>C10: a \<open>receive\<close> that finds the channel empty any number of times and then finds a message
  returns exactly the oldest queued message, leaves the rest, clears the sender slot and wakes the
  sender recorded there; a channel found closed gives \<open>Closed\<close>.\<close>

theorem receive_returns_after_waiting:
  assumes "\<And>k. k < n \<Longrightarrow> waits_empty S me (recv_look S env me k cs)"
    and look: "recv_look S env me n cs = (ch, s)" and inv: "chan_inv ch" and me: "current S s = Some me"
    and ready: "closed ch \<or> queue_list (queue ch) = m # ms"
  shows "\<exists>ch' s'. receive S env cs = Some (if closed ch then Inl Closed else Inr m, ch', s') \<and>
           (if closed ch then (ch', s') = (ch, s)
            else queue_list (queue ch') = ms \<and> send_waiter ch' = None \<and>
                 s' = wake_opt S (send_waiter ch) s)"
proof -
  have *: "receive S env cs = receive S env (ch, s)" using receive_waits_out[OF assms(1)] look by simp
  obtain r ch' s' where p: "receive_pass S ch s = Some (r, ch', s')"
      and spec: "receive_spec S me None (chan_abs ch) s = (r, chan_abs ch', s')"
    using recv_pass_refines[OF inv me, of None] by (auto simp: recv_pass_def elim: refines_byE)
  show ?thesis
  proof (cases "closed ch")
    case True
    with me have "receive_pass S ch s = Some (Done (Inl Closed), ch, s)" by (simp add: receive_pass_def)
    from receive_unfold(2)[OF this, of env] True show ?thesis by (simp add: *)
  next
    case False
    with ready arg_cong[OF spec, of fst] arg_cong[OF spec, of "snd \<circ> snd"]
    have r: "r = Done (Inr m)" and s': "s' = wake_opt S (send_waiter ch) s"
      by (auto simp: receive_spec_def)
    have "queue_list (queue ch') = ms \<and> send_waiter ch' = None"
      using False ready arg_cong[OF spec, of "\<lambda>x. (msgs (fst (snd x)), asender (fst (snd x)))"]
      by (auto simp: receive_spec_def)
    with receive_unfold(2)[OF p[unfolded r], of env] False s' show ?thesis by (simp add: *)
  qed
qed

theorem receive_returns_after_waiting_witness:
  "\<exists>ch' s'. receive demo_sched (\<lambda>_ cs. (demo_full, snd cs)) (channel_inner_new, Some 3, 0)
             = Some (Inr timeout_message, ch', s') \<and> queue_list (queue ch') = replicate 7 timeout_message"
proof -
  have "closed demo_full = False" by (simp add: demo_full_def channel_inner_new_def)
  moreover have "replicate 8 timeout_message = timeout_message # replicate 7 timeout_message"
    by (simp add: numeral_eq_Suc)
  ultimately show ?thesis
    using receive_returns_after_waiting[of 1 demo_sched 3 "\<lambda>_ cs. (demo_full, snd cs)"
      "(channel_inner_new, Some 3, 0)" demo_full "(Some 3, 0)" timeout_message "replicate 7 timeout_message"]
      demo_new_waits[of 0] demo_full_inv
    by (auto simp: demo_full_list)
qed

text \<open>C11: a bounded receive returns at its deadline: if the channel stays empty and open at every look
  and the clock has reached the deadline at the \<open>n\<close>-th one, \<open>receive_at\<close> returns the reserved timeout
  message and takes nothing from the channel.\<close>

theorem receive_at_returns_at_deadline:
  assumes "\<And>k. k < n \<Longrightarrow> waits_empty S me (recv_look S env me k cs) \<and>
                              now S (snd (recv_look S env me k cs)) < d"
    and look: "recv_look S env me n cs = (ch, s)" and w: "waits_empty S me (ch, s)" and d: "d \<le> now S s"
  shows "receive_at S env d cs = Some (Inr timeout_message, ch, s)"
proof -
  have "receive_at_pass S d ch s = Some (Done (Inr timeout_message), ch, s)"
    using w d chan_pop_Nil[of ch] by (simp add: receive_at_pass_def waits_empty_def)
  from receive_at_unfold(2)[OF this, of env] receive_at_waits_out[OF assms(1)] look show ?thesis by simp
qed

theorem receive_at_returns_at_deadline_witness:
  "\<exists>s. receive_at demo_sched (\<lambda>_ cs. (fst cs, Some 3, 9)) 5 (channel_inner_new, Some 3, 0)
     = Some (Inr timeout_message, channel_inner_new\<lparr>recv_waiter := Some 3\<rparr>, s)"
proof -
  have "waits_empty demo_sched 3 (channel_inner_new\<lparr>recv_waiter := Some 3\<rparr>, Some 3, 9)"
    using demo_new_waits[of 9] by (simp add: waits_empty_def chan_inv_def) (simp add: channel_inner_new_def)
  then show ?thesis
    using receive_at_returns_at_deadline[of 1 demo_sched 3 "\<lambda>_ cs. (fst cs, Some 3, 9)"
      "(channel_inner_new, Some 3, 0)" 5 "channel_inner_new\<lparr>recv_waiter := Some 3\<rparr>" "(Some 3, 9)"]
      demo_new_waits[of 0] by auto
qed

subsection \<open>The edges of the protocol\<close>

text \<open>C13: a bounded receive that waited and timed out leaves its process recorded as the waiting
  receiver: the process is running, yet \<open>is_blocked_on\<close> holds of it, so the teardown of that process
  closes the channel, and the next sender takes the fast path towards it.\<close>

theorem timeout_leaves_waiter:
  assumes "waits_empty S me (ch, s)" and "now S s < d"
    and "env me (ch\<lparr>recv_waiter := Some me\<rparr>, unboost S me s) = (ch\<lparr>recv_waiter := Some me\<rparr>, s')"
    and "current S s' = Some me" and "d \<le> now S s'"
  shows "\<exists>ch'. receive_at S env d (ch, s) = Some (Inr timeout_message, ch', s') \<and> is_blocked_on me ch'"
proof -
  let ?ch = "ch\<lparr>recv_waiter := Some me\<rparr>"
  have "receive_at S env d (ch, s) = receive_at S env d (?ch, s')"
    using receive_at_unfold(1)[OF receive_at_pass_empty[OF assms(1,2)], of env] assms(3) by simp
  also have "\<dots> = Some (Inr timeout_message, ?ch, s')"
    using assms(1,4,5) chan_pop_Nil[of ch]
    by (intro receive_at_unfold(2)) (simp add: receive_at_pass_def waits_empty_def)
  finally show ?thesis by (simp add: is_blocked_on_def)
qed

theorem timeout_leaves_waiter_witness:
  "\<exists>ch'. receive_at demo_sched (\<lambda>_ cs. (fst cs, Some 3, 9)) 5 (channel_inner_new, Some 3, 0)
       = Some (Inr timeout_message, ch', Some 3, 9) \<and> is_blocked_on 3 ch'"
  using timeout_leaves_waiter[OF demo_new_waits[of 0], of 5 "\<lambda>_ cs. (fst cs, Some 3, 9)" "(Some 3, 9)"]
  by simp

text \<open>C14: a channel has one sender slot: when two senders find it full, one receive frees a place and
  wakes only the second of them, and the first is recorded nowhere.\<close>

theorem second_sender_replaces_first:
  assumes "chan_inv ch" and "full_open ch" and "current S s1 = Some a" and "current S s2 = Some b"
    and "current S s3 = Some c" and "a \<noteq> b"
  shows "\<exists>ch1 ch2 ch3 m. send_pass S m1 ch s1 = Some (Wait a, ch1, s1) \<and>
           send_pass S m2 ch1 s2 = Some (Wait b, ch2, s2) \<and>
           receive_pass S ch2 s3 = Some (Done (Inr m), ch3, wake S b s3) \<and>
           \<not> is_blocked_on a ch3 \<and> length (queue_list (queue ch3)) < QUEUE_CAP"
proof -
  let ?ch1 = "ch\<lparr>send_waiter := Some a\<rparr>" and ?ch2 = "ch\<lparr>send_waiter := Some b\<rparr>"
  have len: "length (queue_list (queue ch)) = QUEUE_CAP" using assms(2) by (simp add: full_open_def)
  then obtain m ms where l: "queue_list (queue ch) = m # ms"
    by (cases "queue_list (queue ch)") (auto simp: QUEUE_CAP_def)
  from chan_pop_Cons[OF assms(1) l] obtain q where
    q: "pop (queue ch) = Some (Some m, q)" "queue_list q = ms" "recv_waiter ch = None" .
  have c1: "chan_inv ?ch1" "full_open ?ch1"
    using assms(1,2) len by (simp_all add: chan_inv_def full_open_def)
  have "send_pass S m1 ch s1 = Some (Wait a, ?ch1, s1)" by (rule send_pass_full[OF assms(1,3,2)])
  moreover have "send_pass S m2 ?ch1 s2 = Some (Wait b, ?ch2, s2)"
    using send_pass_full[OF c1(1) assms(4) c1(2)] by simp
  moreover have "receive_pass S ?ch2 s3 = Some (Done (Inr m), ?ch2\<lparr>queue := q, send_waiter := None\<rparr>, wake S b s3)"
    using assms(2,5) q by (simp add: receive_pass_def full_open_def wake_opt_def)
  moreover have "length ms < QUEUE_CAP" using len l by simp
  ultimately show ?thesis using q by (fastforce simp: is_blocked_on_def)
qed

theorem second_sender_replaces_first_witness:
  "\<exists>ch1 ch2 ch3 m. send_pass demo_sched demo_msg demo_full (Some 3, 0) = Some (Wait 3, ch1, Some 3, 0) \<and>
     send_pass demo_sched demo_msg ch1 (Some 4, 0) = Some (Wait 4, ch2, Some 4, 0) \<and>
     receive_pass demo_sched ch2 (Some 5, 0) = Some (Done (Inr m), ch3, Some 5, 0) \<and> \<not> is_blocked_on 3 ch3"
proof -
  have "full_open demo_full" using demo_full_waits by (simp add: waits_full_def)
  from second_sender_replaces_first[OF demo_full_inv this, of demo_sched "(Some 3, 0)" 3 "(Some 4, 0)" 4
      "(Some 5, 0)" 5 demo_msg demo_msg]
  show ?thesis by auto
qed

text \<open>C15: the two critical sections of \<open>send\<close> are only correct back to back: if a receive runs
  between them on a full channel, it clears the sender slot, the second section reads \<open>send\<close> as done,
  and the message of this send is nowhere in the channel although the call reports success.\<close>

theorem send_gap_loses_message:
  assumes "chan_inv ch" and "full_open ch" and "current S s = Some me" and "current S s' = Some other"
    and "m \<notin> set (queue_list (queue ch))"
  shows "\<exists>ch1 ch2 m' s''. send_first S m ch s = Some (NotFast, ch1, s) \<and>
           receive_pass S ch1 s' = Some (Done (Inr m'), ch2, s'') \<and> \<not> send_second ch2 \<and>
           m \<noteq> m' \<and> m \<notin> set (queue_list (queue ch2))"
proof -
  have len: "length (queue_list (queue ch)) = QUEUE_CAP" using assms(2) by (simp add: full_open_def)
  then obtain m' ms where l: "queue_list (queue ch) = m' # ms"
    by (cases "queue_list (queue ch)") (auto simp: QUEUE_CAP_def)
  from chan_pop_Cons[OF assms(1) l] obtain q where
    q: "pop (queue ch) = Some (Some m', q)" "queue_list q = ms" "recv_waiter ch = None" .
  have "send_first S m ch s = Some (NotFast, ch\<lparr>send_waiter := Some me\<rparr>, s)"
    using chan_push_full[OF assms(1), of m] len assms(2,3) by (simp add: send_first_def full_open_def)
  moreover have "receive_pass S (ch\<lparr>send_waiter := Some me\<rparr>) s' =
      Some (Done (Inr m'), ch\<lparr>queue := q, send_waiter := None\<rparr>, wake S me s')"
    using assms(2,4) q by (simp add: receive_pass_def full_open_def wake_opt_def)
  ultimately show ?thesis using q l assms(5) by (fastforce simp: send_second_def)
qed

theorem send_gap_loses_message_witness:
  "\<exists>ch1 ch2 m' s''. send_first demo_sched demo_msg demo_full (Some 3, 0) = Some (NotFast, ch1, Some 3, 0) \<and>
     receive_pass demo_sched ch1 (Some 4, 0) = Some (Done (Inr m'), ch2, s'') \<and> \<not> send_second ch2 \<and>
     demo_msg \<notin> set (queue_list (queue ch2))"
proof -
  have "full_open demo_full" using demo_full_waits by (simp add: waits_full_def)
  from send_gap_loses_message[OF demo_full_inv this, of demo_sched "(Some 3, 0)" 3 "(Some 4, 0)" 4 demo_msg]
  show ?thesis using demo_msg_neq by (auto simp: demo_full_list)
qed

text \<open>C12: a message built from a byte string carries its first 256 bytes: the length field says how
  many, the buffer has always 256 bytes, and \<open>buf[..len]\<close> is exactly the (truncated) payload.\<close>

theorem message_new_payload:
  "let m = message_new op t data in
     unat (msg_len m) = min (length data) 256 \<and> length (buf m) = 256 \<and>
     take (unat (msg_len m)) (buf m) = take 256 data \<and> opcode m = op \<and> tag m = t"
proof -
  have "unat (of_nat (min (length data) 256) :: u16) = min (length data) 256"
    by (simp add: unsigned_of_nat take_bit_nat_eq_self_iff min_def)
  then show ?thesis by (simp add: message_new_def MSG_MAX_def Let_def min_def)
qed

end
