(* ===== verification/Mem_Addr.thy ===== *)
theory Mem_Addr
  imports R9_Prelude
begin

section \<open>Addresses, ranges and power-of-two rounding (\<open>core/src/addr.rs\<close>, \<open>port/src/maths.rs\<close>)\<close>

text \<open>
  Physical addresses and the virtual addresses of the page tables are 64-bit words, because the code
  masks and shifts them.  The \<open>+\<close> and \<open>-\<close> of the source stop the kernel on overflow: they are
  \<open>uadd\<close> and \<open>usub\<close>.  \<open>step_by_rounded\<close> is the list of addresses its iterator yields.
\<close>

unbundle bit_operations_syntax

definition uadd :: "u64 \<Rightarrow> u64 \<Rightarrow> u64 option" where
  "uadd a b = (if unat a + unat b < 2 ^ 64 then Some (a + b) else None)"

definition usub :: "u64 \<Rightarrow> u64 \<Rightarrow> u64 option" where
  "usub a b = (if b \<le> a then Some (a - b) else None)"

definition PAGE_SIZE_4K :: nat where "PAGE_SIZE_4K = 4096"
definition PAGE_SIZE_2M :: nat where "PAGE_SIZE_2M = 2097152"
definition PAGE_SIZE_1G :: nat where "PAGE_SIZE_1G = 1073741824"

definition is_power_of_two :: "u64 \<Rightarrow> bool" where
  "is_power_of_two w \<longleftrightarrow> w \<noteq> 0 \<and> w AND (w - 1) = 0"

definition round_up2_u64 :: "u64 \<Rightarrow> u64 \<Rightarrow> u64 option" where
  "round_up2_u64 n step =
     do {
       assert_that (is_power_of_two step);
       a \<leftarrow> uadd n step;
       b \<leftarrow> usub a 1;
       Some (b AND NOT (step - 1))
     }"

definition round_down2_u64 :: "u64 \<Rightarrow> u64 \<Rightarrow> u64 option" where
  "round_down2_u64 n step =
     do {
       assert_that (is_power_of_two step);
       Some (n AND NOT (step - 1))
     }"

subsection \<open>Ranges\<close>

type_synonym phys_addr = u64

record virt_range =
  vstart :: u64
  vend :: u64

record phys_range =
  pstart :: phys_addr
  pend :: phys_addr

definition virt_with_len :: "u64 \<Rightarrow> u64 \<Rightarrow> virt_range option" where
  "virt_with_len s len = do { e \<leftarrow> uadd s len; Some \<lparr>vstart = s, vend = e\<rparr> }"

definition virt_from_physrange :: "phys_range \<Rightarrow> u64 \<Rightarrow> virt_range option" where
  "virt_from_physrange pr off =
     do { s \<leftarrow> uadd (pstart pr) off; e \<leftarrow> uadd (pend pr) off; Some \<lparr>vstart = s, vend = e\<rparr> }"

definition virt_contains :: "virt_range \<Rightarrow> u64 \<Rightarrow> bool" where
  "virt_contains r a \<longleftrightarrow> vstart r \<le> a \<and> a < vend r"

definition virt_offset_addr :: "virt_range \<Rightarrow> u64 \<Rightarrow> u64 option option" where
  "virt_offset_addr r off =
     do { a \<leftarrow> uadd (vstart r) off; Some (if virt_contains r a then Some a else None) }"

definition virt_size :: "virt_range \<Rightarrow> u64 option" where
  "virt_size r = usub (vend r) (vstart r)"

definition phys_with_pa_len :: "phys_addr \<Rightarrow> u64 \<Rightarrow> phys_range option" where
  "phys_with_pa_len s len = do { e \<leftarrow> uadd s len; Some \<lparr>pstart = s, pend = e\<rparr> }"

definition phys_contains :: "phys_range \<Rightarrow> phys_addr \<Rightarrow> bool" where
  "phys_contains r a \<longleftrightarrow> pstart r \<le> a \<and> a < pend r"

definition phys_offset_addr :: "phys_range \<Rightarrow> u64 \<Rightarrow> phys_addr option option" where
  "phys_offset_addr r off =
     do { a \<leftarrow> uadd (pstart r) off; Some (if phys_contains r a then Some a else None) }"

definition phys_size :: "phys_range \<Rightarrow> u64 option" where
  "phys_size r = usub (pend r) (pstart r)"

definition phys_add :: "phys_range \<Rightarrow> phys_range \<Rightarrow> phys_range" where
  "phys_add r t = \<lparr>pstart = min (pstart r) (pstart t), pend = max (pend r) (pend t)\<rparr>"

definition phys_round :: "phys_range \<Rightarrow> u64 \<Rightarrow> phys_range option" where
  "phys_round r step =
     do { s \<leftarrow> round_down2_u64 (pstart r) step; e \<leftarrow> round_up2_u64 (pend r) step;
          Some \<lparr>pstart = s, pend = e\<rparr> }"

definition is_multiple_of :: "phys_addr \<Rightarrow> u64 \<Rightarrow> bool" where
  "is_multiple_of a n \<longleftrightarrow> (if n = 0 then a = 0 else a mod n = 0)"

text \<open>The \<open>Step\<close> instance that makes \<open>PhysAddr\<close> ranges iterable.\<close>

definition steps_between :: "phys_addr \<Rightarrow> phys_addr \<Rightarrow> usize \<times> usize option" where
  "steps_between a b = (if a \<le> b then (unat (b - a), Some (unat (b - a))) else (0, None))"

definition forward_checked :: "phys_addr \<Rightarrow> usize \<Rightarrow> phys_addr option" where
  "forward_checked a n = uadd a (of_nat n)"

definition backward_checked :: "phys_addr \<Rightarrow> usize \<Rightarrow> phys_addr option" where
  "backward_checked a n = usub a (of_nat n)"

definition forward_overflowing :: "phys_addr \<Rightarrow> usize \<Rightarrow> phys_addr \<times> bool" where
  "forward_overflowing a n = (a + of_nat n, uadd a (of_nat n) = None)"

definition backward_overflowing :: "phys_addr \<Rightarrow> usize \<Rightarrow> phys_addr \<times> bool" where
  "backward_overflowing a n = (a - of_nat n, usub a (of_nat n) = None)"

text \<open>\<open>(startpa..endpa).step_by(step)\<close>: the addresses from the start in steps, below the end.\<close>

definition step_by :: "u64 \<Rightarrow> u64 \<Rightarrow> nat \<Rightarrow> u64 list" where
  "step_by s e step = map (\<lambda>k. of_nat (unat s + k * step)) [0..<div_ceil (unat e - unat s) step]"

definition step_by_rounded :: "phys_range \<Rightarrow> u64 \<Rightarrow> phys_addr list option" where
  "step_by_rounded r step =
     do {
       s \<leftarrow> round_down2_u64 (pstart r) step;
       e \<leftarrow> round_up2_u64 (pend r) step;
       Some (step_by s e (unat step))
     }"

subsection \<open>Words and their values\<close>

lemma uadd_eq_Some: "uadd a b = Some c \<longleftrightarrow> c = a + b \<and> unat c = unat a + unat b"
  using unat_add_lem[of a b] by (auto simp: uadd_def)

lemma uadd_None: "uadd a b = None \<longleftrightarrow> 2 ^ 64 \<le> unat a + unat b"
  by (auto simp: uadd_def)

lemma usub_eq_Some: "usub a b = Some c \<longleftrightarrow> c = a - b \<and> b \<le> a"
  by (auto simp: usub_def)

lemma unat_lt64: "unat (w :: u64) < 2 ^ 64"
  using unsigned_less[of w] by simp

lemma unat_of_nat64: "n < 2 ^ 64 \<Longrightarrow> unat (of_nat n :: u64) = n"
  by (simp add: unsigned_of_nat take_bit_nat_eq_self_iff)

lemma and_not_mask_eq: "w AND NOT (mask k) = w - take_bit k w" for w :: "'a::len word"
proof -
  have "(w AND NOT (mask k)) + (w AND mask k) = w"
    by (subst disjunctive_add) (auto simp: bit_simps intro!: bit_word_eqI)
  then show ?thesis by (metis add_diff_cancel_right' take_bit_eq_mask)
qed

lemma take_bit_word_le: "take_bit k w \<le> w" for w :: "'a::len word"
  by (simp add: word_le_nat_alt unsigned_take_bit_eq)

lemma unat_and_not_mask: "unat (w AND NOT (mask k)) = unat w - unat w mod 2 ^ k" for w :: "'a::len word"
  unfolding and_not_mask_eq unat_sub[OF take_bit_word_le] unsigned_take_bit_eq by (simp add: take_bit_eq_mod)

lemma unat_and_not_mask_div: "unat (w AND NOT (mask k)) = unat w div 2 ^ k * 2 ^ k" for w :: "'a::len word"
  by (simp add: unat_and_not_mask minus_mod_eq_div_mult)

lemma exp_minus_one_mask: "(2 ^ k :: u64) - 1 = mask k"
  by (simp add: mask_eq_exp_minus_1)

lemma unat_exp64: "k < 64 \<Longrightarrow> unat (2 ^ k :: u64) = 2 ^ k"
  using unat_of_nat64[of "2 ^ k"] power_strict_increasing[of k 64 "2 :: nat"] by simp

lemma is_power_of_two_exp: "k < 64 \<Longrightarrow> is_power_of_two (2 ^ k)"
proof -
  assume k: "k < 64"
  have "(2 ^ k :: u64) AND mask k = take_bit k (2 ^ k)" by (simp add: take_bit_eq_mask)
  also have "\<dots> = 0" by (rule bit_word_eqI) (auto simp: bit_simps)
  finally have "(2 ^ k :: u64) AND (2 ^ k - 1) = 0" by (simp add: exp_minus_one_mask)
  moreover have "(2 ^ k :: u64) \<noteq> 0" using unat_exp64[OF k] by (metis power_eq_0_iff unat_0 zero_neq_numeral)
  ultimately show ?thesis by (simp add: is_power_of_two_def)
qed

text \<open>What the rounding functions compute, in numbers.\<close>

lemma round_down2_exp:
  assumes "k < 64"
  shows "\<exists>r. round_down2_u64 n (2 ^ k) = Some r \<and> unat r = unat n div 2 ^ k * 2 ^ k"
  using is_power_of_two_exp[OF assms]
  by (simp add: round_down2_u64_def exp_minus_one_mask unat_and_not_mask_div)

lemma round_up2_exp:
  assumes k: "k < 64" and fits: "unat n + 2 ^ k < 2 ^ 64"
  shows "\<exists>r. round_up2_u64 n (2 ^ k) = Some r \<and> unat r = div_ceil (unat n) (2 ^ k) * 2 ^ k"
proof -
  have u: "unat (n + 2 ^ k) = unat n + 2 ^ k"
    using unat_add_lem[of n "2 ^ k"] fits unat_exp64[OF k] by simp
  have a: "uadd n (2 ^ k) = Some (n + 2 ^ k)" using fits by (simp add: uadd_def unat_exp64[OF k])
  have one: "1 \<le> n + 2 ^ k" by (simp add: word_le_nat_alt u Suc_le_eq)
  have b: "usub (n + 2 ^ k) 1 = Some (n + 2 ^ k - 1)" using one by (simp add: usub_def)
  have v: "unat (n + 2 ^ k - 1) = unat n + 2 ^ k - 1" using unat_sub[OF one] u by simp
  have "(unat n + 2 ^ k - 1) div 2 ^ k = div_ceil (unat n) (2 ^ k)"
  proof -
    have eq: "unat n = unat n div 2 ^ k * 2 ^ k + unat n mod 2 ^ k" by (rule div_mult_mod_eq[symmetric])
    define q r where "q = unat n div 2 ^ k" and "r = unat n mod 2 ^ k"
    have r: "r < 2 ^ k" by (simp add: r_def)
    have n: "unat n = q * 2 ^ k + r" using eq by (simp add: q_def r_def)
    show ?thesis
    proof (cases "r = 0")
      case True
      then have "unat n + 2 ^ k - 1 = (2 ^ k - 1) + q * 2 ^ k" using n by simp
      moreover have "((2 ^ k - 1) + q * 2 ^ k) div 2 ^ k = q + (2 ^ k - 1) div 2 ^ k" for q :: nat
        by (rule div_mult_self1) simp
      ultimately have "(unat n + 2 ^ k - 1) div 2 ^ k = q" by simp
      then show ?thesis using True by (simp add: div_ceil_def q_def r_def)
    next
      case False
      then have "unat n + 2 ^ k - 1 = (r - 1) + (q + 1) * 2 ^ k" using n by simp
      moreover have "(r - 1 + (q + 1) * 2 ^ k) div 2 ^ k = (q + 1) + (r - 1) div 2 ^ k"
        by (rule div_mult_self1) simp
      ultimately have "(unat n + 2 ^ k - 1) div 2 ^ k = q + 1" using r by simp
      then show ?thesis using False by (simp add: div_ceil_def q_def r_def)
    qed
  qed
  with a b v show ?thesis
    using is_power_of_two_exp[OF k]
    by (simp add: round_up2_u64_def exp_minus_one_mask unat_and_not_mask_div)
qed

lemma round_up2_stops:
  assumes "k < 64" and "2 ^ 64 \<le> unat n + 2 ^ k"
  shows "round_up2_u64 n (2 ^ k) = None"
  using assms by (simp add: round_up2_u64_def uadd_def unat_exp64 bind_eq_None_conv)

text \<open>\<open>step_by_rounded\<close> visits exactly the page-aligned addresses whose page meets the range.\<close>

lemma set_step_by:
  assumes "0 < step" and "unat e < 2 ^ 64" and "step dvd unat e - unat s"
  shows "unat ` set (step_by s e step) = {a. unat s \<le> a \<and> a < unat e \<and> step dvd a - unat s}"
proof -
  have dc: "div_ceil (unat e - unat s) step = (unat e - unat s) div step"
    using assms(3) by (auto simp: div_ceil_def elim: dvdE)
  have lt: "unat s + k * step < unat e" if "k < (unat e - unat s) div step" for k
  proof -
    have "k * step < (unat e - unat s) div step * step" using that assms(1) by simp
    also have "\<dots> \<le> unat e - unat s" by simp
    finally show ?thesis by linarith
  qed
  have "unat ` set (step_by s e step) = (\<lambda>k. unat s + k * step) ` {k. k < (unat e - unat s) div step}"
    unfolding step_by_def dc set_map image_image
    using unat_of_nat64[OF order.strict_trans[OF lt assms(2)]]
    by (intro image_cong) (auto simp del: of_nat_add of_nat_mult)
  also have "\<dots> = {a. unat s \<le> a \<and> a < unat e \<and> step dvd a - unat s}"
  proof (intro equalityI subsetI)
    fix a assume "a \<in> {a. unat s \<le> a \<and> a < unat e \<and> step dvd a - unat s}"
    then obtain k where a: "unat s \<le> a" "a < unat e" "a - unat s = step * k" by (auto elim: dvdE)
    then have "k * step < unat e - unat s" by (simp add: mult.commute)
    with assms(3) have "k < (unat e - unat s) div step"
      using assms(1) by (auto elim!: dvdE simp: mult.commute)
    moreover have "a = unat s + k * step" using a by (simp add: mult.commute)
    ultimately show "a \<in> (\<lambda>k. unat s + k * step) ` {k. k < (unat e - unat s) div step}" by blast
  qed (use lt in auto)
  finally show ?thesis .
qed

lemma length_step_by: "length (step_by s e step) = div_ceil (unat e - unat s) step"
  by (simp add: step_by_def)

lemma step_by_rounded_pages:
  assumes k: "k < 64" and fits: "unat (pend r) + 2 ^ k < 2 ^ 64" and le: "pstart r \<le> pend r"
  shows "\<exists>pas. step_by_rounded r (2 ^ k) = Some pas \<and>
           unat ` set pas = {a. 2 ^ k dvd a \<and> unat (pstart r) < a + 2 ^ k \<and> a < unat (pend r)}"
proof -
  obtain s where s: "round_down2_u64 (pstart r) (2 ^ k) = Some s"
      "unat s = unat (pstart r) div 2 ^ k * 2 ^ k" using round_down2_exp[OF k] by blast
  obtain e where e: "round_up2_u64 (pend r) (2 ^ k) = Some e"
      "unat e = div_ceil (unat (pend r)) (2 ^ k) * 2 ^ k" using round_up2_exp[OF k fits] by blast
  let ?p = "2 ^ k :: nat"
  have ge: "unat (pend r) \<le> unat e" and less: "unat e < unat (pend r) + ?p"
    using div_ceil_mult_ge[of ?p "unat (pend r)"] div_ceil_mult_less[of ?p "unat (pend r)"] e(2) by simp_all
  have sle: "unat s \<le> unat (pstart r)" and sgt: "unat (pstart r) < unat s + ?p"
    using s(2) dividend_less_div_times[of ?p "unat (pstart r)"] by simp_all
  have d: "?p dvd unat s" "?p dvd unat e" using s(2) e(2) by simp_all
  have "unat ` set (step_by s e ?p) = {a. unat s \<le> a \<and> a < unat e \<and> ?p dvd a - unat s}"
    by (rule set_step_by) (use less fits d in \<open>auto intro: dvd_diff_nat\<close>)
  also have "\<dots> = {a. ?p dvd a \<and> unat (pstart r) < a + ?p \<and> a < unat (pend r)}"
  proof (intro Collect_cong iffI; elim conjE)
    fix a assume a: "unat s \<le> a" "a < unat e" "?p dvd a - unat s"
    have pa: "?p dvd a" using dvd_add[OF a(3) d(1)] a(1) by simp
    from dvd_gap[OF this d(2) a(2)] less pa a(1) sgt
    show "?p dvd a \<and> unat (pstart r) < a + ?p \<and> a < unat (pend r)" by simp
  next
    fix a assume a: "?p dvd a" "unat (pstart r) < a + ?p" "a < unat (pend r)"
    from dvd_gap[OF a(1) d(1)] sle a(2) have "unat s \<le> a" by linarith
    with a ge d(1) show "unat s \<le> a \<and> a < unat e \<and> ?p dvd a - unat s"
      by (simp add: dvd_diff_nat)
  qed
  finally have "unat ` set (step_by s e ?p) = {a. ?p dvd a \<and> unat (pstart r) < a + ?p \<and> a < unat (pend r)}" .
  with s(1) e(1) unat_exp64[OF k] show ?thesis by (simp add: step_by_rounded_def)
qed

text \<open>The laws of \<open>Step\<close> that ranges rely on: \<open>steps_between\<close> counts the forward steps, and going
  backward undoes them.\<close>

lemma step_laws:
  assumes "n < 2 ^ 64"
  shows "steps_between a b = (n, Some n) \<longleftrightarrow> forward_checked a n = Some b"
    and "forward_checked a n = Some b \<longleftrightarrow> backward_checked b n = Some a"
proof -
  have un: "unat (of_nat n :: u64) = n" by (rule unat_of_nat64[OF assms])
  have fwd: "forward_checked a n = Some b \<longleftrightarrow> unat b = unat a + n"
  proof
    assume "unat b = unat a + n"
    then have "unat (a + of_nat n) = unat b" using unat_lt64[of b] unat_add_lem[of a "of_nat n"] un by simp
    then have "b = a + of_nat n" by (simp only: word_unat_eq_iff)
    with \<open>unat b = unat a + n\<close> show "forward_checked a n = Some b"
      unfolding forward_checked_def uadd_eq_Some un by blast
  next
    assume "forward_checked a n = Some b"
    then show "unat b = unat a + n" unfolding forward_checked_def uadd_eq_Some un by blast
  qed
  have "steps_between a b = (n, Some n) \<longleftrightarrow> a \<le> b \<and> unat (b - a) = n \<or> b < a \<and> False"
    by (auto simp: steps_between_def)
  also have "\<dots> \<longleftrightarrow> unat b = unat a + n"
    using unat_sub[of a b] by (auto simp: word_le_nat_alt)
  finally show "steps_between a b = (n, Some n) \<longleftrightarrow> forward_checked a n = Some b" using fwd by simp
  have "backward_checked b n = Some a \<longleftrightarrow> n \<le> unat b \<and> unat a = unat b - n"
    unfolding backward_checked_def usub_eq_Some word_le_nat_alt un
    using unat_sub[of "of_nat n" b] un by (auto simp: word_le_nat_alt word_unat_eq_iff)
  with fwd show "forward_checked a n = Some b \<longleftrightarrow> backward_checked b n = Some a" by auto
qed

text \<open>C29: rounding to a power of two is exact.  \<open>round_down2_u64\<close> always gives the greatest multiple of the
  step at or below the number; \<open>round_up2_u64\<close> gives the least multiple at or above it when number plus
  step fits in 64 bits, and stops the kernel otherwise, even for a number that is already a multiple.\<close>

theorem rounding_is_exact:
  assumes "k < 64"
  shows "(\<exists>r. round_down2_u64 n (2 ^ k) = Some r \<and> 2 ^ k dvd unat r \<and> unat r \<le> unat n \<and> unat n < unat r + 2 ^ k) \<and>
    (if unat n + 2 ^ k < 2 ^ 64
     then \<exists>r. round_up2_u64 n (2 ^ k) = Some r \<and> 2 ^ k dvd unat r \<and> unat n \<le> unat r \<and> unat r < unat n + 2 ^ k
     else round_up2_u64 n (2 ^ k) = None)"
proof (intro conjI)
  obtain r where r: "round_down2_u64 n (2 ^ k) = Some r" "unat r = unat n div 2 ^ k * 2 ^ k"
    using round_down2_exp[OF assms] by blast
  then show "\<exists>r. round_down2_u64 n (2 ^ k) = Some r \<and> 2 ^ k dvd unat r \<and> unat r \<le> unat n \<and> unat n < unat r + 2 ^ k"
    using dividend_less_div_times[of "2 ^ k" "unat n"] by auto
  show "if unat n + 2 ^ k < 2 ^ 64
     then \<exists>r. round_up2_u64 n (2 ^ k) = Some r \<and> 2 ^ k dvd unat r \<and> unat n \<le> unat r \<and> unat r < unat n + 2 ^ k
     else round_up2_u64 n (2 ^ k) = None"
  proof (cases "unat n + 2 ^ k < 2 ^ 64")
    case True
    with round_up2_exp[OF assms True] div_ceil_mult_ge[of "2 ^ k" "unat n"] div_ceil_mult_less[of "2 ^ k" "unat n"]
    show ?thesis by auto
  next
    case False
    with round_up2_stops[OF assms, of n] show ?thesis by simp
  qed
qed

theorem rounding_is_exact_witness:
  "(\<exists>r. round_up2_u64 0x1234 (2 ^ 12) = Some r \<and> unat r = 0x2000) \<and>
   round_up2_u64 0xfffffffffffff000 (2 ^ 12) = None"
proof -
  have r: "r = 8192" if "4096 dvd r" "4660 \<le> r" "r < 8756" for r :: nat
  proof -
    from that(1) obtain q where "r = 4096 * q" ..
    with that(2,3) show ?thesis by simp
  qed
  have n: "unat (0x1234 :: u64) = 4660" "(2 :: nat) ^ 12 = 4096" "unat (0xfffffffffffff000 :: u64) = 18446744073709547520"
    "(2 :: nat) ^ 64 = 18446744073709551616" by simp_all
  obtain x where "round_up2_u64 0x1234 (2 ^ 12) = Some x" "4096 dvd unat x" "4660 \<le> unat x" "unat x < 8756"
    using rounding_is_exact[of 12 "0x1234"] unfolding n by auto
  with r have "\<exists>r. round_up2_u64 0x1234 (2 ^ 12) = Some r \<and> unat r = 0x2000" by blast
  moreover have "round_up2_u64 0xfffffffffffff000 (2 ^ 12) = None"
    using rounding_is_exact[of 12 "0xfffffffffffff000"] unfolding n by simp
  ultimately show ?thesis ..
qed

end
