(* ===== verification/Elf_Reader.thy ===== *)
theory Elf_Reader
  imports Mem_Addr
begin

section \<open>The ELF64 reader (\<open>port/src/elf.rs\<close>)\<close>

text \<open>
  The image is a list of bytes; offsets are natural numbers and every addition the code makes on them
  is checked.  The outer option is a kernel stop, the sum inside it is the reader's \<open>Result\<close>; \<open>qbind\<close>
  is the \<open>?\<close> operator.  The front-packed array of sixteen segments with its count is the list of its
  valid prefix, which is what \<open>segments()\<close> returns.  The loops over the program and the section
  headers are recursions over the header numbers.
\<close>

record segment =
  seg_vaddr :: u64
  seg_offset :: u64
  seg_filesz :: u64
  seg_memsz :: u64
  seg_exec :: bool

record sym_table =
  sym_offset :: u64
  sym_nsyms :: usize
  sym_strtab_offset :: u64

record elf =
  elf_entry :: u64
  elf_segments :: "segment list"
  elf_symtab :: "sym_table option"

definition MAX_SEGMENTS :: nat where "MAX_SEGMENTS = 16"

datatype elf_error =
  NotElf | Not64 | WrongEndian | NotExec | NoLoadSegment | Truncated | BadSegment | TooManySegments

definition EI_CLASS64 :: u8 where "EI_CLASS64 = 2"
definition EI_DATA_LE :: u8 where "EI_DATA_LE = 1"
definition ET_EXEC :: u16 where "ET_EXEC = 2"
definition PT_LOAD :: u32 where "PT_LOAD = 1"
definition PF_X :: u32 where "PF_X = 1"
definition EHDR_SIZE :: nat where "EHDR_SIZE = 64"
definition PHDR_SIZE :: nat where "PHDR_SIZE = 56"
definition SHDR_SIZE :: nat where "SHDR_SIZE = 64"
definition SHT_SYMTAB :: u32 where "SHT_SYMTAB = 2"
definition SYMENT_SIZE :: nat where "SYMENT_SIZE = 24"

type_synonym 'a elf_result = "(elf_error + 'a) option"

definition qbind :: "('e + 'a) option \<Rightarrow> ('a \<Rightarrow> ('e + 'b) option) \<Rightarrow> ('e + 'b) option" where
  "qbind x f = (case x of None \<Rightarrow> None | Some (Inl e) \<Rightarrow> Some (Inl e) | Some (Inr v) \<Rightarrow> f v)"

text \<open>\<open>from_le_bytes\<close>.\<close>

definition from_le :: "u8 list \<Rightarrow> nat" where
  "from_le bs = foldr (\<lambda>b n. unat b + 256 * n) bs 0"

text \<open>\<open>elf.get(off..off + n)\<close>.\<close>

definition get_bytes :: "u8 list \<Rightarrow> usize \<Rightarrow> usize \<Rightarrow> u8 list elf_result" where
  "get_bytes elf off n =
     do { e \<leftarrow> checked_add off n;
          Some (if e \<le> length elf then Inr (take n (drop off elf)) else Inl Truncated) }"

definition read_u16 :: "u8 list \<Rightarrow> usize \<Rightarrow> u16 elf_result" where
  "read_u16 elf off = qbind (get_bytes elf off 2) (\<lambda>b. Some (Inr (of_nat (from_le b))))"

definition read_u32 :: "u8 list \<Rightarrow> usize \<Rightarrow> u32 elf_result" where
  "read_u32 elf off = qbind (get_bytes elf off 4) (\<lambda>b. Some (Inr (of_nat (from_le b))))"

definition read_u64 :: "u8 list \<Rightarrow> usize \<Rightarrow> u64 elf_result" where
  "read_u64 elf off = qbind (get_bytes elf off 8) (\<lambda>b. Some (Inr (of_nat (from_le b))))"

definition check_phdr_table :: "u8 list \<Rightarrow> u64 \<Rightarrow> u16 \<Rightarrow> u16 \<Rightarrow> unit elf_result" where
  "check_phdr_table elf phoff phentsize phnum =
     (if 0 < phnum then
        if unat phentsize \<noteq> PHDR_SIZE then Some (Inl Truncated)
        else (case checked_add (unat phoff) (unat phnum * PHDR_SIZE) of
                None \<Rightarrow> Some (Inl Truncated)
              | Some table_end \<Rightarrow> if length elf < table_end then Some (Inl Truncated) else Some (Inr ()))
      else Some (Inr ()))"

text \<open>One \<open>PT_LOAD\<close> header, and the loop over the program headers.\<close>

definition read_segment :: "u8 list \<Rightarrow> usize \<Rightarrow> segment elf_result" where
  "read_segment elf base =
     qbind (do { o4 \<leftarrow> checked_add base 4; read_u32 elf o4 }) (\<lambda>p_flags.
     qbind (do { o8 \<leftarrow> checked_add base 8; read_u64 elf o8 }) (\<lambda>off.
     qbind (do { o16 \<leftarrow> checked_add base 16; read_u64 elf o16 }) (\<lambda>vaddr.
     qbind (do { o32 \<leftarrow> checked_add base 32; read_u64 elf o32 }) (\<lambda>filesz.
     qbind (do { o40 \<leftarrow> checked_add base 40; read_u64 elf o40 }) (\<lambda>memsz.
       Some (Inr \<lparr>seg_vaddr = vaddr, seg_offset = off, seg_filesz = filesz, seg_memsz = memsz,
                  seg_exec = (p_flags AND PF_X \<noteq> 0)\<rparr>))))))"

definition segment_sane :: "u8 list \<Rightarrow> segment \<Rightarrow> bool" where
  "segment_sane elf s \<longleftrightarrow> seg_filesz s \<le> seg_memsz s \<and> unat (seg_offset s) + unat (seg_filesz s) < usize_bound \<and>
     unat (seg_offset s) + unat (seg_filesz s) \<le> length elf"

fun scan_phdrs :: "u8 list \<Rightarrow> u64 \<Rightarrow> nat list \<Rightarrow> segment list \<Rightarrow> segment list elf_result" where
  "scan_phdrs elf phoff [] segs = Some (Inr segs)"
| "scan_phdrs elf phoff (i # is) segs =
     do {
       base \<leftarrow> checked_add (unat phoff) (i * PHDR_SIZE);
       qbind (read_u32 elf base) (\<lambda>p_type.
         if p_type \<noteq> PT_LOAD then scan_phdrs elf phoff is segs
         else qbind (read_segment elf base) (\<lambda>s.
           if \<not> segment_sane elf s then Some (Inl BadSegment)
           else if length segs = MAX_SEGMENTS then Some (Inl TooManySegments)
           else scan_phdrs elf phoff is (segs @ [s])))
     }"

text \<open>The loop over the section headers ends at the first usable symbol table.\<close>

fun scan_shdrs :: "u8 list \<Rightarrow> u64 \<Rightarrow> u16 \<Rightarrow> nat list \<Rightarrow> sym_table option elf_result" where
  "scan_shdrs elf shoff shnum [] = Some (Inr None)"
| "scan_shdrs elf shoff shnum (i # is) =
     do {
       base \<leftarrow> checked_add (unat shoff) (i * SHDR_SIZE);
       qbind (do { o4 \<leftarrow> checked_add base 4; read_u32 elf o4 }) (\<lambda>sh_type.
         if sh_type \<noteq> SHT_SYMTAB then scan_shdrs elf shoff shnum is
         else
           qbind (do { o24 \<leftarrow> checked_add base 24; read_u64 elf o24 }) (\<lambda>sh_offset.
           qbind (do { o32 \<leftarrow> checked_add base 32; read_u64 elf o32 }) (\<lambda>sh_size.
           qbind (do { o40 \<leftarrow> checked_add base 40; read_u32 elf o40 }) (\<lambda>sh_link.
           qbind (do { o56 \<leftarrow> checked_add base 56; read_u64 elf o56 }) (\<lambda>sh_entsize.
             if unat sh_entsize \<noteq> SYMENT_SIZE \<or> unat shnum \<le> unat sh_link then scan_shdrs elf shoff shnum is
             else do {
               strtab_base \<leftarrow> checked_add (unat shoff) (unat sh_link * SHDR_SIZE);
               qbind (do { s24 \<leftarrow> checked_add strtab_base 24; read_u64 elf s24 }) (\<lambda>strtab_offset.
                 do {
                   sym_end \<leftarrow> uadd sh_offset sh_size;
                   Some (Inr (if unat sym_end \<le> length elf \<and> unat strtab_offset \<le> length elf
                              then Some \<lparr>sym_offset = sh_offset, sym_nsyms = unat sh_size div SYMENT_SIZE,
                                         sym_strtab_offset = strtab_offset\<rparr>
                              else None))
                 })
             })))))
     }"

definition find_symtab :: "u8 list \<Rightarrow> sym_table option elf_result" where
  "find_symtab elf =
     qbind (read_u64 elf 40) (\<lambda>shoff.
     qbind (read_u16 elf 58) (\<lambda>shentsize.
     qbind (read_u16 elf 60) (\<lambda>shnum.
       if 0 < shnum \<and> 0 < shoff \<and> unat shentsize = SHDR_SIZE then
         (case checked_add (unat shoff) (unat shnum * SHDR_SIZE) of
            None \<Rightarrow> Some (Inl Truncated)
          | Some table_end \<Rightarrow>
              if table_end \<le> length elf then scan_shdrs elf shoff shnum [0..<unat shnum] else Some (Inr None))
       else Some (Inr None))))"

definition parse :: "u8 list \<Rightarrow> elf elf_result" where
  "parse elf =
     (if length elf < 16 then Some (Inl Truncated)
      else if take 4 elf \<noteq> [0x7f, 0x45, 0x4c, 0x46] then Some (Inl NotElf)
      else if elf ! 4 \<noteq> EI_CLASS64 then Some (Inl Not64)
      else if elf ! 5 \<noteq> EI_DATA_LE then Some (Inl WrongEndian)
      else if length elf < EHDR_SIZE then Some (Inl Truncated)
      else
        qbind (read_u16 elf 16) (\<lambda>e_type.
          if e_type \<noteq> ET_EXEC then Some (Inl NotExec)
          else
            qbind (read_u64 elf 24) (\<lambda>entry.
            qbind (read_u64 elf 32) (\<lambda>phoff.
            qbind (read_u16 elf 54) (\<lambda>phentsize.
            qbind (read_u16 elf 56) (\<lambda>phnum.
            qbind (check_phdr_table elf phoff phentsize phnum) (\<lambda>_.
            qbind (scan_phdrs elf phoff [0..<unat phnum] []) (\<lambda>segs.
              if segs = [] then Some (Inl NoLoadSegment)
              else
                qbind (find_symtab elf) (\<lambda>symtab.
                  Some (Inr \<lparr>elf_entry = entry, elf_segments = segs, elf_symtab = symtab\<rparr>))))))))))"

subsection \<open>The fields of an image\<close>

definition le_at :: "u8 list \<Rightarrow> usize \<Rightarrow> usize \<Rightarrow> nat" where
  "le_at elf off n = from_le (take n (drop off elf))"

definition seg_at :: "u8 list \<Rightarrow> usize \<Rightarrow> segment" where
  "seg_at elf base =
     \<lparr>seg_vaddr = of_nat (le_at elf (base + 16) 8), seg_offset = of_nat (le_at elf (base + 8) 8),
      seg_filesz = of_nat (le_at elf (base + 32) 8), seg_memsz = of_nat (le_at elf (base + 40) 8),
      seg_exec = (of_nat (le_at elf (base + 4) 4) AND PF_X \<noteq> 0)\<rparr>"

definition is_load :: "u8 list \<Rightarrow> usize \<Rightarrow> bool" where
  "is_load elf base \<longleftrightarrow> (of_nat (le_at elf base 4) :: u32) = PT_LOAD"

lemma qbind_simps [simp]:
  "qbind None f = None" "qbind (Some (Inl e)) f = Some (Inl e)" "qbind (Some (Inr v)) f = f v"
  by (simp_all add: qbind_def)

lemma qbind_eq_Inr: "qbind x f = Some (Inr v) \<longleftrightarrow> (\<exists>a. x = Some (Inr a) \<and> f a = Some (Inr v))"
  by (auto simp: qbind_def split: option.splits sum.splits)

lemma get_bytes_eq:
  assumes "length elf < usize_bound"
  shows "off + n \<le> length elf \<Longrightarrow> get_bytes elf off n = Some (Inr (take n (drop off elf)))"
    and "get_bytes elf off n = Some (Inr b) \<Longrightarrow> off + n \<le> length elf"
  using assms by (auto simp: get_bytes_def checked_add_def split: if_splits)

lemma read_eq:
  assumes "length elf < usize_bound"
  shows "off + 2 \<le> length elf \<Longrightarrow> read_u16 elf off = Some (Inr (of_nat (le_at elf off 2)))"
    and "off + 4 \<le> length elf \<Longrightarrow> read_u32 elf off = Some (Inr (of_nat (le_at elf off 4)))"
    and "off + 8 \<le> length elf \<Longrightarrow> read_u64 elf off = Some (Inr (of_nat (le_at elf off 8)))"
  using get_bytes_eq(1)[OF assms] by (simp_all add: read_u16_def read_u32_def read_u64_def le_at_def)

lemma checked_add_lt: "a + b < usize_bound \<Longrightarrow> checked_add a b = Some (a + b)"
  by (simp add: checked_add_def)

lemma read_segment_eq:
  assumes "length elf < usize_bound" and "base + 56 \<le> length elf"
  shows "read_segment elf base = Some (Inr (seg_at elf base))"
  using assms by (simp add: read_segment_def seg_at_def checked_add_lt read_eq)

lemma scan_phdrs_step:
  assumes "length elf < usize_bound" and "unat phoff + i * 56 + 56 \<le> length elf"
  shows "scan_phdrs elf phoff (i # is) segs =
      (if \<not> is_load elf (unat phoff + i * 56) then scan_phdrs elf phoff is segs
       else if \<not> segment_sane elf (seg_at elf (unat phoff + i * 56)) then Some (Inl BadSegment)
       else if length segs = 16 then Some (Inl TooManySegments)
       else scan_phdrs elf phoff is (segs @ [seg_at elf (unat phoff + i * 56)]))"
  using assms by (simp add: checked_add_lt PHDR_SIZE_def read_eq read_segment_eq is_load_def MAX_SEGMENTS_def)

declare scan_phdrs.simps(2) [simp del]

text \<open>The loop over headers that all lie inside the image.\<close>

lemma scan_phdrs_eq:
  assumes "length elf < usize_bound" and "\<And>i. i \<in> set is \<Longrightarrow> unat phoff + i * 56 + 56 \<le> length elf"
    and "length segs \<le> 16"
  shows "scan_phdrs elf phoff is segs = Some (Inr r) \<longleftrightarrow>
    r = segs @ map (\<lambda>i. seg_at elf (unat phoff + i * 56)) (filter (\<lambda>i. is_load elf (unat phoff + i * 56)) is) \<and>
    length r \<le> 16 \<and> (\<forall>i \<in> set is. is_load elf (unat phoff + i * 56) \<longrightarrow> segment_sane elf (seg_at elf (unat phoff + i * 56)))"
  using assms(2,3)
proof (induction "is" arbitrary: segs)
  case (Cons i "is")
  let ?b = "unat phoff + i * 56"
  have b: "?b + 56 \<le> length elf" using Cons.prems(1) by simp
  note step = scan_phdrs_step[OF assms(1) b]
  have IH: "length ss \<le> 16 \<Longrightarrow> scan_phdrs elf phoff is ss = Some (Inr r) \<longleftrightarrow>
    r = ss @ map (\<lambda>i. seg_at elf (unat phoff + i * 56)) (filter (\<lambda>i. is_load elf (unat phoff + i * 56)) is) \<and>
    length r \<le> 16 \<and> (\<forall>i \<in> set is. is_load elf (unat phoff + i * 56) \<longrightarrow> segment_sane elf (seg_at elf (unat phoff + i * 56)))" for ss
    by (rule Cons.IH) (use Cons.prems(1) in auto)
  show ?case
  proof (cases "is_load elf ?b \<and> segment_sane elf (seg_at elf ?b) \<and> length segs \<noteq> 16")
    case True
    then show ?thesis using Cons.prems(2) by (simp add: step IH)
  next
    case False
    then show ?thesis using Cons.prems(2) by (auto simp: step IH)
  qed
qed auto

lemma scan_phdrs_total:
  assumes "length elf < usize_bound" and "\<And>i. i \<in> set is \<Longrightarrow> unat phoff + i * 56 + 56 \<le> length elf"
  shows "scan_phdrs elf phoff is segs \<noteq> None"
  using assms(2)
proof (induction "is" arbitrary: segs)
  case (Cons i "is")
  let ?b = "unat phoff + i * 56"
  have b: "?b + 56 \<le> length elf" using Cons.prems(1) by simp
  show ?case using Cons.IH Cons.prems by (simp add: scan_phdrs_step[OF assms(1) b])
qed simp

lemma from_le_lt: "from_le bs < 256 ^ length bs"
proof (induction bs)
  case (Cons b bs)
  have "unat b < 256" using unsigned_less[of b] by simp
  with Cons.IH show ?case by (simp add: from_le_def)
qed (simp add: from_le_def)

lemma le_at_lt: "le_at elf off n < 256 ^ n"
proof -
  have "le_at elf off n < 256 ^ length (take n (drop off elf))" unfolding le_at_def by (rule from_le_lt)
  also have "\<dots> \<le> 256 ^ n" by (rule power_increasing) simp_all
  finally show ?thesis .
qed

lemma unat_le_at [simp]:
  "unat (of_nat (le_at elf off 2) :: u16) = le_at elf off 2"
  "unat (of_nat (le_at elf off 8) :: u64) = le_at elf off 8"
  using le_at_lt[of elf off 2] le_at_lt[of elf off 8]
  by (simp_all add: unsigned_of_nat take_bit_nat_eq_self_iff)

text \<open>What the reader accepts, stated on the bytes: the identification, the executable type, a program
  header table inside the image, and the segments its \<open>PT_LOAD\<close> headers describe.\<close>

definition elf_header_ok :: "u8 list \<Rightarrow> bool" where
  "elf_header_ok elf \<longleftrightarrow> 64 \<le> length elf \<and> take 4 elf = [0x7f, 0x45, 0x4c, 0x46] \<and> elf ! 4 = EI_CLASS64 \<and>
     elf ! 5 = EI_DATA_LE \<and> le_at elf 16 2 = 2 \<and>
     (0 < le_at elf 56 2 \<longrightarrow> le_at elf 54 2 = 56 \<and> le_at elf 32 8 + le_at elf 56 2 * 56 \<le> length elf)"

definition load_bases :: "u8 list \<Rightarrow> usize list" where
  "load_bases elf = filter (is_load elf) (map (\<lambda>i. le_at elf 32 8 + i * 56) [0..<le_at elf 56 2])"

lemma u16_eq_iff: "(of_nat (le_at elf off 2) :: u16) = w \<longleftrightarrow> le_at elf off 2 = unat w"
  using unat_le_at(1)[of elf off] by (metis unat_eq_nat_uint word_unat_eq_iff)

lemma check_phdr_table_eq:
  assumes "length elf < usize_bound"
  shows "check_phdr_table elf (of_nat (le_at elf 32 8)) (of_nat (le_at elf 54 2)) (of_nat (le_at elf 56 2)) =
    (if 0 < le_at elf 56 2 \<longrightarrow> le_at elf 54 2 = 56 \<and> le_at elf 32 8 + le_at elf 56 2 * 56 \<le> length elf
     then Some (Inr ()) else Some (Inl Truncated))"
proof -
  have "(0 < (of_nat (le_at elf 56 2) :: u16)) \<longleftrightarrow> 0 < le_at elf 56 2"
    using unat_le_at(1)[of elf 56] by (metis word_less_nat_alt unat_0)
  then show ?thesis using assms
    by (auto simp: check_phdr_table_def PHDR_SIZE_def checked_add_def split: if_splits)
qed

lemma parse_eq:
  assumes len: "length elf < usize_bound" and ok: "elf_header_ok elf"
  shows "parse elf = qbind (scan_phdrs elf (of_nat (le_at elf 32 8)) [0..<le_at elf 56 2] []) (\<lambda>segs.
              if segs = [] then Some (Inl NoLoadSegment)
              else qbind (find_symtab elf) (\<lambda>symtab.
                  Some (Inr \<lparr>elf_entry = of_nat (le_at elf 24 8), elf_segments = segs, elf_symtab = symtab\<rparr>)))"
proof -
  have l: "64 \<le> length elf" using ok by (simp add: elf_header_ok_def)
  have "(of_nat (le_at elf 16 2) :: u16) = ET_EXEC" using ok by (simp add: u16_eq_iff elf_header_ok_def ET_EXEC_def)
  then show ?thesis
    using ok l len unfolding parse_def
    by (simp add: read_eq EHDR_SIZE_def check_phdr_table_eq elf_header_ok_def)
qed

lemma parse_bad_header:
  assumes len: "length elf < usize_bound" and bad: "\<not> elf_header_ok elf"
  shows "\<exists>err. parse elf = Some (Inl err)"
proof (cases "length elf < 64")
  case True
  then show ?thesis by (simp add: parse_def EHDR_SIZE_def)
next
  case False
  then have l: "64 \<le> length elf" by simp
  have "(of_nat (le_at elf 16 2) :: u16) = ET_EXEC \<longleftrightarrow> le_at elf 16 2 = 2" by (simp add: u16_eq_iff ET_EXEC_def)
  then show ?thesis
    using bad l len unfolding parse_def
    by (auto simp: read_eq EHDR_SIZE_def check_phdr_table_eq elf_header_ok_def)
qed

subsection \<open>Writing an image\<close>

text \<open>The inverse of the reader: the header, the program headers and the file bytes of an image without
  section headers.\<close>

definition to_le :: "nat \<Rightarrow> nat \<Rightarrow> u8 list" where
  "to_le n v = map (\<lambda>i. of_nat (v div 256 ^ i)) [0..<n]"

definition image_header :: "u64 \<Rightarrow> nat \<Rightarrow> u8 list" where
  "image_header entry phnum =
     [0x7f, 0x45, 0x4c, 0x46, 2, 1, 1, 0, 0, 0, 0, 0, 0, 0, 0, 0] @ to_le 2 2 @ to_le 2 183 @ to_le 4 1 @
     to_le 8 (unat entry) @ to_le 8 64 @ to_le 8 0 @ to_le 4 0 @ to_le 2 64 @ to_le 2 56 @ to_le 2 phnum @
     to_le 2 0 @ to_le 2 0 @ to_le 2 0"

definition image_phdr :: "segment \<Rightarrow> u8 list" where
  "image_phdr s =
     to_le 4 1 @ to_le 4 (if seg_exec s then 5 else 6) @ to_le 8 (unat (seg_offset s)) @ to_le 8 (unat (seg_vaddr s)) @
     to_le 8 (unat (seg_vaddr s)) @ to_le 8 (unat (seg_filesz s)) @ to_le 8 (unat (seg_memsz s)) @ to_le 8 4096"

definition elf_image :: "u64 \<Rightarrow> segment list \<Rightarrow> u8 list \<Rightarrow> u8 list" where
  "elf_image entry segs body = image_header entry (length segs) @ concat (map image_phdr segs) @ body"

lemma length_to_le [simp]: "length (to_le n v) = n"
  by (simp add: to_le_def)

lemma to_le_Suc: "to_le (Suc n) v = of_nat v # to_le n (v div 256)"
  by (simp add: to_le_def map_upt_Suc div_mult2_eq flip: map_Suc_upt del: upt_Suc)

lemma from_to_le: "v < 256 ^ n \<Longrightarrow> from_le (to_le n v) = v"
proof (induction n arbitrary: v)
  case (Suc n)
  then have "v div 256 < 256 ^ n" by (simp add: less_mult_imp_div_less mult.commute)
  moreover have "unat (of_nat v :: u8) = v mod 256" by (simp add: unsigned_of_nat take_bit_eq_mod)
  ultimately show ?case using Suc.IH[of "v div 256"] by (simp add: to_le_Suc from_le_def)
qed (simp add: to_le_def from_le_def)

lemma le_at_append:
  "length xs \<le> off \<Longrightarrow> le_at (xs @ ys) off n = le_at ys (off - length xs) n"
  "le_at (to_le n v @ ys) 0 n = from_le (to_le n v)"
  by (simp_all add: le_at_def)

lemma image_header_length: "length (image_header entry n) = 64"
  by (simp add: image_header_def)

lemma image_phdr_length: "length (image_phdr s) = 56"
  by (simp add: image_phdr_def)

lemma drop_phdrs:
  "i \<le> length segs \<Longrightarrow> drop (i * 56) (concat (map image_phdr segs)) = concat (map image_phdr (drop i segs))"
proof (induction segs arbitrary: i)
  case (Cons s segs)
  then show ?case by (cases i) (simp_all add: image_phdr_length)
qed simp

lemma le_at_drop: "le_at elf (base + k) n = le_at (drop base elf) k n"
  by (simp add: le_at_def add.commute)

lemma unat_u64_lt: "unat (w :: u64) < 256 ^ 8"
  using unat_lt64[of w] by simp

lemma phdr_fields:
  "is_load (image_phdr s @ rest) 0" "seg_at (image_phdr s @ rest) 0 = s"
proof -
  let ?e = "image_phdr s @ rest"
  have f: "le_at ?e 0 4 = 1" "le_at ?e 4 4 = (if seg_exec s then 5 else 6)" "le_at ?e 8 8 = unat (seg_offset s)"
    "le_at ?e 16 8 = unat (seg_vaddr s)" "le_at ?e 32 8 = unat (seg_filesz s)" "le_at ?e 40 8 = unat (seg_memsz s)"
    by (simp_all add: le_at_def image_phdr_def from_to_le unat_u64_lt[simplified])
  show "is_load ?e 0" by (simp add: is_load_def f PT_LOAD_def)
  have "of_nat (le_at ?e 4 4) AND PF_X \<noteq> 0 \<longleftrightarrow> seg_exec s" unfolding f(2) by (simp add: PF_X_def)
  then show "seg_at ?e 0 = s" unfolding seg_at_def add_0 f by simp
qed

lemma image_drop:
  assumes "i < length segs"
  obtains rest where "drop (64 + i * 56) (elf_image entry segs body) = image_phdr (segs ! i) @ rest"
proof
  have "drop i segs = segs ! i # drop (Suc i) segs" by (rule Cons_nth_drop_Suc[OF assms, symmetric])
  moreover have "i * 56 \<le> length (concat (map image_phdr segs))"
    using assms by (simp add: length_concat comp_def image_phdr_length sum_list_triv)
  then have "drop (i * 56) (concat (map image_phdr segs) @ body) = concat (map image_phdr (drop i segs)) @ body"
    using assms by (simp add: drop_phdrs)
  moreover have "drop (64 + i * 56) (elf_image entry segs body) = drop (i * 56) (concat (map image_phdr segs) @ body)"
    by (simp add: elf_image_def image_header_length)
  ultimately show "drop (64 + i * 56) (elf_image entry segs body) =
      image_phdr (segs ! i) @ concat (map image_phdr (drop (Suc i) segs)) @ body"
    by simp
qed

lemma image_segment:
  assumes "i < length segs"
  shows "is_load (elf_image entry segs body) (64 + i * 56)" "seg_at (elf_image entry segs body) (64 + i * 56) = segs ! i"
proof -
  obtain rest where r: "drop (64 + i * 56) (elf_image entry segs body) = image_phdr (segs ! i) @ rest"
    by (rule image_drop[OF assms])
  have at: "le_at (elf_image entry segs body) (64 + i * 56 + k) n = le_at (image_phdr (segs ! i) @ rest) k n" for k n
    unfolding le_at_drop r ..
  show "is_load (elf_image entry segs body) (64 + i * 56)"
    using phdr_fields(1)[of "segs ! i" rest] at[of 0 4] by (simp add: is_load_def)
  show "seg_at (elf_image entry segs body) (64 + i * 56) = segs ! i"
    using phdr_fields(2)[of "segs ! i" rest] unfolding seg_at_def at add_0 .
qed

lemma image_fields:
  assumes "length segs < 65536"
  shows "le_at (elf_image entry segs body) 16 2 = 2" "le_at (elf_image entry segs body) 24 8 = unat entry"
    "le_at (elf_image entry segs body) 32 8 = 64" "le_at (elf_image entry segs body) 54 2 = 56"
    "le_at (elf_image entry segs body) 56 2 = length segs" "le_at (elf_image entry segs body) 40 8 = 0"
    "le_at (elf_image entry segs body) 60 2 = 0"
  using assms by (simp_all add: le_at_def elf_image_def image_header_def from_to_le unat_u64_lt[simplified])

lemma image_length: "length (elf_image entry segs body) = 64 + length segs * 56 + length body"
  by (simp add: elf_image_def image_header_length length_concat comp_def image_phdr_length sum_list_triv)

subsection \<open>Stops\<close>

lemma scan_shdrs_None:
  assumes len: "length elf < usize_bound" and tab: "unat shoff + unat shnum * 64 \<le> length elf"
    and "\<And>i. i \<in> set is \<Longrightarrow> i < unat shnum" and "scan_shdrs elf shoff shnum is = None"
  shows "\<exists>i \<in> set is. 2 ^ 64 \<le> le_at elf (unat shoff + i * 64 + 24) 8 + le_at elf (unat shoff + i * 64 + 32) 8"
  using assms(3,4)
proof (induction "is")
  case (Cons i "is")
  have in_table: "unat shoff + j * 64 + 64 \<le> length elf" if "j < unat shnum" for j
  proof -
    have "(j + 1) * 64 \<le> unat shnum * 64" using that by (intro mult_le_mono1) simp
    then show ?thesis using tab by simp
  qed
  let ?b = "unat shoff + i * 64"
  let ?link = "unat (of_nat (le_at elf (?b + 40) 4) :: u32)"
  have b: "?b + 64 \<le> length elf" by (rule in_table) (use Cons.prems(1) in simp)
  have r: "read_u32 elf (?b + 4) = Some (Inr (of_nat (le_at elf (?b + 4) 4)))"
    "read_u64 elf (?b + 24) = Some (Inr (of_nat (le_at elf (?b + 24) 8)))"
    "read_u64 elf (?b + 32) = Some (Inr (of_nat (le_at elf (?b + 32) 8)))"
    "read_u32 elf (?b + 40) = Some (Inr (of_nat (le_at elf (?b + 40) 4)))"
    "read_u64 elf (?b + 56) = Some (Inr (of_nat (le_at elf (?b + 56) 8)))"
    using b by (simp_all add: read_eq[OF len])
  have c0: "checked_add (unat shoff) (i * 64) = Some ?b" using b len by (simp add: checked_add_lt)
  have c: "checked_add ?b k = Some (?b + k)" if "k < 64" for k using b len that by (simp add: checked_add_lt)
  have link: "checked_add (unat shoff) (?link * 64) = Some (unat shoff + ?link * 64)"
      "checked_add (unat shoff + ?link * 64) 24 = Some (unat shoff + ?link * 64 + 24)"
      "read_u64 elf (unat shoff + ?link * 64 + 24) = Some (Inr (of_nat (le_at elf (unat shoff + ?link * 64 + 24) 8)))"
    if "?link < unat shnum"
    using in_table[OF that] len by (simp_all add: checked_add_lt read_eq[OF len])
  show ?case
  proof (cases "scan_shdrs elf shoff shnum is = None")
    case True
    with Cons.IH Cons.prems(1) show ?thesis by auto
  next
    case False
    then have "uadd (of_nat (le_at elf (?b + 24) 8)) (of_nat (le_at elf (?b + 32) 8)) = None"
      using Cons.prems(2) link
      by (simp add: SHDR_SIZE_def c0 c r bind_eq_None_conv split: if_splits)
    then show ?thesis by (auto simp: uadd_None)
  qed
qed simp

lemma find_symtab_None:
  assumes len: "length elf < usize_bound" and l: "64 \<le> length elf" and "find_symtab elf = None"
  shows "\<exists>i < le_at elf 60 2.
    2 ^ 64 \<le> le_at elf (le_at elf 40 8 + i * 64 + 24) 8 + le_at elf (le_at elf 40 8 + i * 64 + 32) 8"
proof -
  let ?so = "of_nat (le_at elf 40 8) :: u64" and ?n = "of_nat (le_at elf 60 2) :: u16"
  from assms(3) have t: "unat ?so + unat ?n * 64 \<le> length elf" and n: "scan_shdrs elf ?so ?n [0..<unat ?n] = None"
    using l len by (auto simp: find_symtab_def read_eq[OF len] SHDR_SIZE_def checked_add_def split: if_splits)
  from scan_shdrs_None[OF len t _ n] show ?thesis by auto
qed

subsection \<open>Reading back a written image\<close>

lemma parse_image:
  assumes n: "1 \<le> length segs" "length segs \<le> 16" and len: "length (elf_image entry segs body) < usize_bound"
    and sane: "\<And>s. s \<in> set segs \<Longrightarrow> segment_sane (elf_image entry segs body) s"
  shows "parse (elf_image entry segs body) = Some (Inr \<lparr>elf_entry = entry, elf_segments = segs, elf_symtab = None\<rparr>)"
proof -
  let ?e = "elf_image entry segs body"
  have n': "length segs < 65536" using n by simp
  note f = image_fields[OF n', of entry body]
  have l: "64 \<le> length ?e" by (simp add: image_length)
  have ok: "elf_header_ok ?e"
    unfolding elf_header_ok_def f
    by (simp add: image_length) (simp add: elf_image_def image_header_def EI_CLASS64_def EI_DATA_LE_def)
  have ids: "map (\<lambda>i. seg_at ?e (64 + i * 56)) [0..<length segs] = segs"
    using image_segment(2)[of _ segs entry body] by (auto intro: nth_equalityI)
  have fl: "filter (\<lambda>i. is_load ?e (64 + i * 56)) [0..<length segs] = [0..<length segs]"
    using image_segment(1) by (intro filter_True) auto
  have "scan_phdrs ?e 64 [0..<length segs] [] = Some (Inr segs)"
    unfolding scan_phdrs_eq[OF len, of "[0..<length segs]" 64 "[]" segs, simplified image_length, simplified]
    using n sane image_segment(2)[of _ segs entry body] by (simp add: fl ids)
  then have sc: "scan_phdrs ?e (of_nat (le_at ?e 32 8)) [0..<le_at ?e 56 2] [] = Some (Inr segs)"
    unfolding f by simp
  have "find_symtab ?e = Some (Inr None)"
    using l by (simp add: find_symtab_def read_eq[OF len] f)
  then show ?thesis using sc n(1) unfolding parse_eq[OF len ok] by (auto simp: f)
qed

definition demo_segment :: segment where
  "demo_segment = \<lparr>seg_vaddr = 0x200000, seg_offset = 120, seg_filesz = 4, seg_memsz = 16, seg_exec = True\<rparr>"

lemma demo_sane: "segment_sane (elf_image 0x200000 [demo_segment] [1, 2, 3, 4]) demo_segment"
  "length (elf_image 0x200000 [demo_segment] [1, 2, 3, 4]) < usize_bound"
  by (simp_all add: segment_sane_def image_length demo_segment_def usize_bound_def)

subsection \<open>Properties\<close>

lemma parse_ok_iff:
  assumes "length elf < usize_bound"
  shows "parse elf = Some (Inr e) \<longleftrightarrow>
    elf_header_ok elf \<and> elf_entry e = of_nat (le_at elf 24 8) \<and> elf_segments e = map (seg_at elf) (load_bases elf) \<and>
    1 \<le> length (load_bases elf) \<and> length (load_bases elf) \<le> 16 \<and> (\<forall>s \<in> set (elf_segments e). segment_sane elf s) \<and>
    find_symtab elf = Some (Inr (elf_symtab e))"
proof (cases "elf_header_ok elf")
  case False
  with parse_bad_header[OF assms] show ?thesis by auto
next
  case True
  let ?po = "of_nat (le_at elf 32 8) :: u64" and ?is = "[0..<le_at elf 56 2]"
  have tab: "unat ?po + i * 56 + 56 \<le> length elf" if "i \<in> set ?is" for i
  proof -
    have "(i + 1) * 56 \<le> le_at elf 56 2 * 56" using that by (intro mult_le_mono1) simp
    then show ?thesis using True that by (simp add: elf_header_ok_def)
  qed
  have lb: "map (seg_at elf) (load_bases elf) =
      map (\<lambda>i. seg_at elf (unat ?po + i * 56)) (filter (\<lambda>i. is_load elf (unat ?po + i * 56)) ?is)"
    by (simp add: load_bases_def filter_map comp_def)
  have scan: "scan_phdrs elf ?po ?is [] = Some (Inr r) \<longleftrightarrow>
      r = map (seg_at elf) (load_bases elf) \<and> length r \<le> 16 \<and> (\<forall>s \<in> set r. segment_sane elf s)" for r
    using scan_phdrs_eq[OF assms tab, of ?is "[]" r] unfolding lb by auto
  show ?thesis
    using True unfolding parse_eq[OF assms True] qbind_eq_Inr scan
    by (cases e) (auto simp: qbind_eq_Inr Suc_le_eq split: if_splits)
qed

text \<open>C26: the reader accepts exactly the images whose header is that of a little-endian 64-bit executable
  with a program header table inside the image, with one to sixteen \<open>PT_LOAD\<close> headers, each describing
  file bytes inside the image and no more of them than memory; it returns the entry point and exactly
  those segments, in header order.\<close>

theorem parse_accepts_exactly:
  assumes "length elf < usize_bound"
  shows "parse elf = Some (Inr e) \<longleftrightarrow>
    elf_header_ok elf \<and> elf_entry e = of_nat (le_at elf 24 8) \<and> elf_segments e = map (seg_at elf) (load_bases elf) \<and>
    1 \<le> length (load_bases elf) \<and> length (load_bases elf) \<le> 16 \<and> (\<forall>s \<in> set (elf_segments e). segment_sane elf s) \<and>
    find_symtab elf = Some (Inr (elf_symtab e))"
  by (rule parse_ok_iff[OF assms])

theorem parse_accepts_exactly_witness:
  "elf_header_ok (elf_image 0x200000 [demo_segment] [1, 2, 3, 4]) \<and>
   map (seg_at (elf_image 0x200000 [demo_segment] [1, 2, 3, 4])) (load_bases (elf_image 0x200000 [demo_segment] [1, 2, 3, 4]))
     = [demo_segment]"
  using parse_accepts_exactly[OF demo_sane(2), THEN iffD1, OF parse_image] demo_sane by simp

text \<open>C27: an image written from an entry point and one to sixteen segments whose file bytes lie inside it is
  read back as exactly that entry point and those segments.\<close>

theorem elf_image_round_trip:
  assumes "1 \<le> length segs" and "length segs \<le> 16" and "length (elf_image entry segs body) < usize_bound"
    and "\<And>s. s \<in> set segs \<Longrightarrow> segment_sane (elf_image entry segs body) s"
  shows "parse (elf_image entry segs body) = Some (Inr \<lparr>elf_entry = entry, elf_segments = segs, elf_symtab = None\<rparr>)"
  by (rule parse_image[OF assms])

theorem elf_image_round_trip_witness:
  "parse (elf_image 0x200000 [demo_segment] [1, 2, 3, 4]) =
     Some (Inr \<lparr>elf_entry = 0x200000, elf_segments = [demo_segment], elf_symtab = None\<rparr>)"
  using demo_sane by (intro elf_image_round_trip) simp_all



end
