(* ===== verification/Page_Bitmap.thy ===== *)
theory Page_Bitmap
  imports Mem_Addr
begin

section \<open>The bitmap page allocator (\<open>port/src/bitmapalloc.rs\<close>)\<close>

text \<open>
  One bit per physical page, in \<open>NUM_BITMAPS\<close> bitmaps of \<open>BITMAP_SIZE_BYTES\<close> bytes.  The two const
  parameters of the Rust type are the fields \<open>num_bitmaps\<close> and \<open>bitmap_size\<close>.  The byte iterator
  \<open>indices_from\<close> is a state with a step function; the searches over it are loops that could run
  forever, so \<open>None\<close> stands for a kernel stop or a search that does not end, and the theorems below
  show that neither happens for a well-formed allocator.  The list view is \<open>page_bit\<close>: the bit of
  page number \<open>p\<close>, whose physical address is \<open>p\<close> times the page size.
\<close>

datatype page_alloc_error = OutOfBounds | MisalignedAddr | OutOfSpace | NotAllocated | UnableToMap

type_synonym bitmap = "u8 list"

definition bitmap_new :: "u8 \<Rightarrow> nat \<Rightarrow> bitmap" where
  "bitmap_new init n = replicate n init"

definition is_set :: "bitmap \<Rightarrow> usize \<Rightarrow> bool option" where
  "is_set bm i =
     do { byte \<leftarrow> index_at bm (i div 8); Some (byte AND push_bit (i mod 8) 1 > 0) }"

definition set_bit_to :: "bitmap \<Rightarrow> usize \<Rightarrow> bool \<Rightarrow> bitmap option" where
  "set_bit_to bm i b =
     do {
       byte \<leftarrow> index_at bm (i div 8);
       Some (bm[i div 8 := (if b then byte OR push_bit (i mod 8) 1
                            else byte AND NOT (push_bit (i mod 8) 1))])
     }"

record page_alloc =
  num_bitmaps :: nat
  bitmap_size :: nat
  bitmaps :: "bitmap list"
  alloc_page_size :: usize
  pa_end :: phys_addr
  next_pa_to_scan :: phys_addr

definition bytes_per_bitmap_byte :: "page_alloc \<Rightarrow> usize" where
  "bytes_per_bitmap_byte a = 8 * alloc_page_size a"

definition bytes_per_bitmap :: "page_alloc \<Rightarrow> usize" where
  "bytes_per_bitmap a = bitmap_size a * bytes_per_bitmap_byte a"

definition max_bytes :: "page_alloc \<Rightarrow> usize" where
  "max_bytes a = num_bitmaps a * bytes_per_bitmap a"

definition new_all_allocated :: "nat \<Rightarrow> nat \<Rightarrow> usize \<Rightarrow> page_alloc" where
  "new_all_allocated nb bs ps =
     \<lparr>num_bitmaps = nb, bitmap_size = bs, bitmaps = replicate nb (bitmap_new 0xff bs),
      alloc_page_size = ps, pa_end = of_nat (nb * bs * 8 * ps), next_pa_to_scan = 0\<rparr>"

definition physaddr_as_indices :: "page_alloc \<Rightarrow> phys_addr \<Rightarrow> (usize \<times> usize \<times> usize) option" where
  "physaddr_as_indices a pa =
     do {
       assert_that (alloc_page_size a \<noteq> 0 \<and> unat pa mod alloc_page_size a = 0);
       assert_that (bytes_per_bitmap a \<noteq> 0);
       let bitmap_idx = unat pa div bytes_per_bitmap a;
           off = unat pa mod bytes_per_bitmap a;
           byte_idx = off div bytes_per_bitmap_byte a;
           bit_idx = (off - byte_idx * bytes_per_bitmap_byte a) div alloc_page_size a
       in Some (bitmap_idx, byte_idx, bit_idx)
     }"

definition indices_as_physaddr :: "page_alloc \<Rightarrow> usize \<Rightarrow> usize \<Rightarrow> usize \<Rightarrow> phys_addr option" where
  "indices_as_physaddr a bitmap_idx byte_idx bit_idx =
     (let n = bitmap_idx * bytes_per_bitmap a + byte_idx * bytes_per_bitmap_byte a
              + bit_idx * alloc_page_size a
      in do { assert_that (n < usize_bound); Some (of_nat n) })"

definition byte_at_indices :: "page_alloc \<Rightarrow> usize \<times> usize \<Rightarrow> u8 option" where
  "byte_at_indices a idx = do { bm \<leftarrow> index_at (bitmaps a) (fst idx); index_at bm (snd idx) }"

subsection \<open>The byte iterator\<close>

record byte_iter =
  it_bitmap :: usize
  it_byte :: usize
  passed_first :: bool
  currpa :: phys_addr

definition iter_reset :: "page_alloc \<Rightarrow> byte_iter \<Rightarrow> byte_iter" where
  "iter_reset a it =
     (if length (bitmaps a) \<le> it_bitmap it \<or> pa_end a \<le> currpa it
      then it\<lparr>it_bitmap := 0, it_byte := 0, currpa := 0\<rparr> else it)"

definition iter_advance :: "page_alloc \<Rightarrow> byte_iter \<Rightarrow> byte_iter option" where
  "iter_advance a it =
     (if bitmap_size a \<le> it_byte it + 1
      then do { c \<leftarrow> uadd (currpa it) (of_nat (alloc_page_size a));
                Some (it\<lparr>passed_first := True, it_byte := 0, it_bitmap := it_bitmap it + 1, currpa := c\<rparr>) }
      else Some (it\<lparr>passed_first := True, it_byte := it_byte it + 1\<rparr>))"

definition iter_next ::
  "page_alloc \<Rightarrow> usize \<times> usize \<Rightarrow> byte_iter \<Rightarrow> ((usize \<times> usize) option \<times> byte_iter) option" where
  "iter_next a start it =
     (let it1 = iter_reset a it
      in if passed_first it1 \<and> (it_bitmap it1, it_byte it1) = start then Some (None, it1)
         else do { it2 \<leftarrow> iter_advance a it1; Some (Some (it_bitmap it1, it_byte it1), it2) })"

definition indices_from :: "page_alloc \<Rightarrow> usize \<times> usize \<Rightarrow> byte_iter option" where
  "indices_from a start =
     do { c \<leftarrow> indices_as_physaddr a (fst start) (snd start) 0;
          Some \<lparr>it_bitmap = fst start, it_byte = snd start, passed_first = False, currpa = c\<rparr> }"

text \<open>\<open>find\<close> of the iterator with the test on the byte, and the fold of \<open>usage_bytes\<close>.\<close>

partial_function (option) find_byte ::
  "page_alloc \<Rightarrow> usize \<times> usize \<Rightarrow> (u8 \<Rightarrow> bool) \<Rightarrow> byte_iter \<Rightarrow> (usize \<times> usize) option option" where
  "find_byte a start P it =
     do {
       (r, it') \<leftarrow> iter_next a start it;
       (case r of
          None \<Rightarrow> Some None
        | Some idx \<Rightarrow> do { b \<leftarrow> byte_at_indices a idx;
                           if P b then Some (Some idx) else find_byte a start P it' })
     }"

partial_function (option) sum_bytes ::
  "page_alloc \<Rightarrow> usize \<times> usize \<Rightarrow> (u8 \<Rightarrow> nat) \<Rightarrow> byte_iter \<Rightarrow> nat \<Rightarrow> nat option" where
  "sum_bytes a start f it acc =
     do {
       (r, it') \<leftarrow> iter_next a start it;
       (case r of
          None \<Rightarrow> Some acc
        | Some idx \<Rightarrow> do { b \<leftarrow> byte_at_indices a idx; sum_bytes a start f it' (acc + f b) })
     }"

subsection \<open>The operations\<close>

definition trailing_ones :: "u8 \<Rightarrow> nat" where
  "trailing_ones w = length (takeWhile (bit w) [0..<8])"

definition count_zeros :: "u8 \<Rightarrow> nat" where
  "count_zeros w = length (filter (\<lambda>i. \<not> bit w i) [0..<8])"

fun mark_pages :: "bool \<Rightarrow> phys_addr list \<Rightarrow> page_alloc \<Rightarrow> ((page_alloc_error + unit) \<times> page_alloc) option" where
  "mark_pages v [] a = Some (Inr (), a)"
| "mark_pages v (pa # pas) a =
     do {
       (bitmap_idx, byte_idx, bit_idx) \<leftarrow> physaddr_as_indices a pa;
       (if length (bitmaps a) \<le> bitmap_idx then Some (Inl OutOfBounds, a)
        else do {
          bm \<leftarrow> index_at (bitmaps a) bitmap_idx;
          bm' \<leftarrow> set_bit_to bm (8 * byte_idx + bit_idx) v;
          mark_pages v pas (a\<lparr>bitmaps := (bitmaps a)[bitmap_idx := bm']\<rparr>)
        })
     }"

definition mark_range ::
  "phys_range \<Rightarrow> bool \<Rightarrow> bool \<Rightarrow> page_alloc \<Rightarrow> ((page_alloc_error + unit) \<times> page_alloc) option" where
  "mark_range r v check_end a =
     (if check_end \<and> pa_end a < pend r then Some (Inl OutOfBounds, a)
      else do { pas \<leftarrow> step_by_rounded r (of_nat (alloc_page_size a)); mark_pages v pas a })"

definition mark_allocated :: "phys_range \<Rightarrow> page_alloc \<Rightarrow> ((page_alloc_error + unit) \<times> page_alloc) option" where
  "mark_allocated r a = mark_range r True True a"

definition mark_free :: "phys_range \<Rightarrow> page_alloc \<Rightarrow> ((page_alloc_error + unit) \<times> page_alloc) option" where
  "mark_free r a = mark_range r False True a"

text \<open>The loop over the used ranges threads the start of the next gap; an error leaves at once.\<close>

fun free_gaps ::
  "phys_range list \<Rightarrow> phys_addr \<Rightarrow> page_alloc \<Rightarrow> ((page_alloc_error + phys_addr) \<times> page_alloc) option" where
  "free_gaps [] next_start a = Some (Inr next_start, a)"
| "free_gaps (r # rs) next_start a =
     do {
       (res, a') \<leftarrow> (if next_start < pstart r then mark_free \<lparr>pstart = next_start, pend = pstart r\<rparr> a
                     else Some (Inr (), a));
       (case res of
          Inl e \<Rightarrow> Some (Inl e, a')
        | Inr _ \<Rightarrow> free_gaps rs (if next_start < pend r then pend r else next_start) a')
     }"

definition free_unused_ranges ::
  "phys_range \<Rightarrow> phys_range list \<Rightarrow> page_alloc \<Rightarrow> ((page_alloc_error + unit) \<times> page_alloc) option" where
  "free_unused_ranges available used a =
     do {
       (res, a1) \<leftarrow> free_gaps used (pstart available) a;
       (case res of
          Inl e \<Rightarrow> Some (Inl e, a1)
        | Inr next_start \<Rightarrow>
            do {
              (res2, a2) \<leftarrow> (if next_start < pend available
                              then mark_free \<lparr>pstart = next_start, pend = pend available\<rparr> a1
                              else Some (Inr (), a1));
              (case res2 of
                 Inl e \<Rightarrow> Some (Inl e, a2)
               | Inr _ \<Rightarrow>
                   do {
                     let a3 = a2\<lparr>pa_end := pend available\<rparr>;
                     (res4, a4) \<leftarrow> mark_range \<lparr>pstart = pa_end a3, pend = of_nat (max_bytes a3)\<rparr> True False a3;
                     (case res4 of
                        Inl e \<Rightarrow> Some (Inl e, a4)
                      | Inr _ \<Rightarrow> Some (Inr (), a4\<lparr>next_pa_to_scan := 0\<rparr>))
                   })
            })
     }"

definition allocate :: "page_alloc \<Rightarrow> ((page_alloc_error + phys_addr) \<times> page_alloc) option" where
  "allocate a =
     do {
       (first_bitmap, first_byte, _) \<leftarrow> physaddr_as_indices a (next_pa_to_scan a);
       it \<leftarrow> indices_from a (first_bitmap, first_byte);
       found \<leftarrow> find_byte a (first_bitmap, first_byte) (\<lambda>b. b \<noteq> 0xff) it;
       (case found of
          Some (bitmap, byte) \<Rightarrow>
            do {
              bm \<leftarrow> index_at (bitmaps a) bitmap;
              b \<leftarrow> index_at bm byte;
              let n = trailing_ones b;
              assert_that (n < 8);
              pa \<leftarrow> indices_as_physaddr a bitmap byte n;
              Some (Inr pa, a\<lparr>bitmaps := (bitmaps a)[bitmap := bm[byte := b OR push_bit n 1]],
                              next_pa_to_scan := pa\<rparr>)
            }
        | None \<Rightarrow> Some (Inl OutOfSpace, a))
     }"

definition deallocate :: "phys_addr \<Rightarrow> page_alloc \<Rightarrow> ((page_alloc_error + unit) \<times> page_alloc) option" where
  "deallocate pa a =
     (if pa_end a < pa then Some (Inl OutOfBounds, a)
      else do {
        (bitmap_idx, byte_idx, bit_idx) \<leftarrow> physaddr_as_indices a pa;
        bm \<leftarrow> index_at (bitmaps a) bitmap_idx;
        set \<leftarrow> is_set bm (8 * byte_idx + bit_idx);
        (if \<not> set then Some (Inl NotAllocated, a)
         else do {
           bm' \<leftarrow> set_bit_to bm bit_idx False;
           Some (Inr (), a\<lparr>bitmaps := (bitmaps a)[bitmap_idx := bm'], next_pa_to_scan := pa\<rparr>)
         })
      })"

definition usage_bytes :: "page_alloc \<Rightarrow> (usize \<times> usize) option" where
  "usage_bytes a =
     do {
       it \<leftarrow> indices_from a (0, 0);
       free_bytes \<leftarrow> sum_bytes a (0, 0) (\<lambda>b. count_zeros b * alloc_page_size a) it 0;
       used \<leftarrow> checked_sub (unat (pa_end a)) free_bytes;
       Some (used, unat (pa_end a))
     }"

subsection \<open>The list view and well-formedness\<close>

definition num_bytes :: "page_alloc \<Rightarrow> nat" where
  "num_bytes a = num_bitmaps a * bitmap_size a"

definition byte_lin :: "page_alloc \<Rightarrow> nat \<Rightarrow> u8" where
  "byte_lin a q = bitmaps a ! (q div bitmap_size a) ! (q mod bitmap_size a)"

definition page_bit :: "page_alloc \<Rightarrow> nat \<Rightarrow> bool" where
  "page_bit a p = bit (byte_lin a (p div 8)) (p mod 8)"

definition num_pages :: "page_alloc \<Rightarrow> nat" where
  "num_pages a = 8 * num_bytes a"

definition alloc_wf :: "page_alloc \<Rightarrow> bool" where
  "alloc_wf a \<longleftrightarrow> 0 < num_bitmaps a \<and> 0 < bitmap_size a \<and> 0 < alloc_page_size a \<and>
     length (bitmaps a) = num_bitmaps a \<and> (\<forall>bm \<in> set (bitmaps a). length bm = bitmap_size a) \<and>
     2 * max_bytes a < 2 ^ 64 \<and> unat (pa_end a) \<le> max_bytes a \<and>
     alloc_page_size a dvd unat (next_pa_to_scan a) \<and>
     unat (next_pa_to_scan a) < unat (pa_end a)"

lemma alloc_wfD:
  assumes "alloc_wf a"
  shows "0 < num_bitmaps a" "0 < bitmap_size a" "0 < alloc_page_size a" "length (bitmaps a) = num_bitmaps a"
    "b < num_bitmaps a \<Longrightarrow> length (bitmaps a ! b) = bitmap_size a"
    "2 * max_bytes a < 2 ^ 64" "unat (pa_end a) \<le> max_bytes a"
    "alloc_page_size a dvd unat (next_pa_to_scan a)"
    "unat (next_pa_to_scan a) < unat (pa_end a)"
  using assms by (auto simp: alloc_wf_def)

lemma max_bytes_eq: "max_bytes a = num_bytes a * 8 * alloc_page_size a"
  by (simp add: max_bytes_def bytes_per_bitmap_def bytes_per_bitmap_byte_def num_bytes_def)

lemma lin_bounds:
  assumes "alloc_wf a" and "q < num_bytes a"
  shows "q div bitmap_size a < num_bitmaps a" "q mod bitmap_size a < bitmap_size a"
  using assms alloc_wfD(2)[OF assms(1)] by (simp_all add: num_bytes_def less_mult_imp_div_less)

lemma byte_at_lin:
  assumes "alloc_wf a" and "q < num_bytes a"
  shows "byte_at_indices a (q div bitmap_size a, q mod bitmap_size a) = Some (byte_lin a q)"
  using lin_bounds[OF assms] alloc_wfD(4,5)[OF assms(1)] by (simp add: byte_at_indices_def byte_lin_def)

lemma indices_as_physaddr_lin:
  assumes "alloc_wf a" and "q < num_bytes a" and "j < 8"
  shows "indices_as_physaddr a (q div bitmap_size a) (q mod bitmap_size a) j =
           Some (of_nat ((8 * q + j) * alloc_page_size a))" and "(8 * q + j) * alloc_page_size a < max_bytes a"
proof -
  let ?bs = "bitmap_size a" and ?ps = "alloc_page_size a"
  define d m where "d = q div ?bs" and "m = q mod ?bs"
  have q: "q = d * ?bs + m" by (simp add: d_def m_def)
  have "d * bytes_per_bitmap a + m * bytes_per_bitmap_byte a + j * ?ps = (8 * q + j) * ?ps"
    by (simp add: q bytes_per_bitmap_def bytes_per_bitmap_byte_def algebra_simps)
  then have eq: "q div ?bs * bytes_per_bitmap a + q mod ?bs * bytes_per_bitmap_byte a + j * ?ps
                   = (8 * q + j) * ?ps" by (simp only: d_def m_def)
  have "8 * q + j < num_bytes a * 8" using assms(2,3) by linarith
  then show lt: "(8 * q + j) * ?ps < max_bytes a"
    using alloc_wfD(3)[OF assms(1)] by (simp add: max_bytes_eq)
  then have "(8 * q + j) * ?ps < usize_bound"
    using alloc_wfD(6)[OF assms(1)] by (simp add: usize_bound_def)
  then show "indices_as_physaddr a (q div ?bs) (q mod ?bs) j = Some (of_nat ((8 * q + j) * ?ps))"
    unfolding indices_as_physaddr_def eq Let_def by simp
qed

lemma physaddr_as_indices_page:
  assumes wf: "alloc_wf a" and pa: "unat pa = p * alloc_page_size a"
  shows "physaddr_as_indices a pa =
           Some (p div 8 div bitmap_size a, p div 8 mod bitmap_size a, p mod 8)"
proof -
  let ?bs = "bitmap_size a" and ?ps = "alloc_page_size a"
  have pos: "0 < ?ps" "0 < ?bs" using alloc_wfD[OF wf] by simp_all
  have d: "unat pa div bytes_per_bitmap a = p div 8 div ?bs"
  proof -
    have "bytes_per_bitmap a = ?ps * (8 * ?bs)"
      by (simp add: bytes_per_bitmap_def bytes_per_bitmap_byte_def)
    then have "unat pa div bytes_per_bitmap a = p div (8 * ?bs)"
      using pa pos div_mult2_eq[of "unat pa" ?ps "8 * ?bs"] by simp
    then show ?thesis by (simp only: div_mult2_eq)
  qed
  have m: "unat pa mod bytes_per_bitmap a = (p mod (8 * ?bs)) * ?ps"
    using mult_mod_right[of ?ps p "8 * ?bs"]
    by (simp add: pa bytes_per_bitmap_def bytes_per_bitmap_byte_def ac_simps)
  have y: "(p mod (8 * ?bs)) * ?ps div bytes_per_bitmap_byte a = p div 8 mod ?bs"
  proof -
    have "(p mod (8 * ?bs)) * ?ps div (8 * ?ps) = p mod (8 * ?bs) div 8" using pos by simp
    also have "\<dots> = p div 8 mod ?bs" by (simp add: mod_mult2_eq)
    finally show ?thesis by (simp add: bytes_per_bitmap_byte_def)
  qed
  have b: "((p mod (8 * ?bs)) * ?ps - p div 8 mod ?bs * bytes_per_bitmap_byte a) div ?ps = p mod 8"
  proof -
    have "p mod (8 * ?bs) = 8 * (p div 8 mod ?bs) + p mod 8" by (rule mod_mult2_eq)
    then have "(p mod (8 * ?bs)) * ?ps - p div 8 mod ?bs * bytes_per_bitmap_byte a = (p mod 8) * ?ps"
      by (simp add: bytes_per_bitmap_byte_def algebra_simps)
    then show ?thesis using pos by simp
  qed
  have "bytes_per_bitmap a \<noteq> 0" using pos by (simp add: bytes_per_bitmap_def bytes_per_bitmap_byte_def)
  moreover have "unat pa mod ?ps = 0" by (simp add: pa)
  ultimately show ?thesis using pos
    by (simp add: physaddr_as_indices_def Let_def d m y b)
qed

subsection \<open>The iterator visits every byte below the end\<close>

definition it_of :: "page_alloc \<Rightarrow> nat \<Rightarrow> nat \<Rightarrow> byte_iter" where
  "it_of a off q = \<lparr>it_bitmap = q div bitmap_size a, it_byte = q mod bitmap_size a, passed_first = True,
                   currpa = of_nat (off + q div bitmap_size a * alloc_page_size a)\<rparr>"

lemma iter_advance_lin:
  assumes wf: "alloc_wf a" and q: "q < num_bytes a"
    and off: "off + num_bitmaps a * alloc_page_size a < 2 ^ 64"
  shows "iter_advance a ((it_of a off q)\<lparr>passed_first := b\<rparr>) = Some (it_of a off (Suc q))"
proof -
  let ?bs = "bitmap_size a" and ?ps = "alloc_page_size a"
  have "Suc (q div ?bs) * ?ps \<le> num_bitmaps a * ?ps"
    using lin_bounds(1)[OF wf q] by (intro mult_right_mono) auto
  then have lt: "off + q div ?bs * ?ps + ?ps < 2 ^ 64" using off by simp
  then have "uadd (of_nat (off + q div ?bs * ?ps)) (of_nat ?ps) = Some (of_nat (off + Suc (q div ?bs) * ?ps))"
    unfolding uadd_def by (subst (1) unat_of_nat64, simp, subst unat_of_nat64) (simp_all add: add_ac)
  moreover have "q mod ?bs < ?bs" using lin_bounds(2)[OF wf q] .
  ultimately show ?thesis
    by (auto simp: iter_advance_def it_of_def mod_Suc div_Suc simp del: of_nat_add of_nat_mult)
qed

lemma currpa_lin:
  assumes "off + q div bitmap_size a * alloc_page_size a < 2 ^ 64"
  shows "unat (currpa (it_of a off q)) = off + q div bitmap_size a * alloc_page_size a"
  unfolding it_of_def byte_iter.simps by (rule unat_of_nat64[OF assms])

definition lin_idx :: "page_alloc \<Rightarrow> nat \<Rightarrow> usize \<times> usize" where
  "lin_idx a q = (q div bitmap_size a, q mod bitmap_size a)"

lemma lin_idx_inj: "lin_idx a q = lin_idx a r \<Longrightarrow> q = r"
  unfolding lin_idx_def by (metis div_mult_mod_eq prod.inject)

lemma iter_next_lin:
  assumes wf: "alloc_wf a" and q: "q < num_bytes a"
    and off: "off + num_bitmaps a * alloc_page_size a < 2 ^ 64"
    and stay: "off + q div bitmap_size a * alloc_page_size a < unat (pa_end a)"
  shows "iter_next a (lin_idx a S) ((it_of a off q)\<lparr>passed_first := b\<rparr>) =
           (if b \<and> q = S then Some (None, (it_of a off q)\<lparr>passed_first := b\<rparr>)
            else Some (Some (lin_idx a q), it_of a off (Suc q)))"
proof -
  let ?it = "(it_of a off q)\<lparr>passed_first := b\<rparr>"
  have "unat (pa_end a) < 2 ^ 64" using unsigned_less[of "pa_end a"] by simp
  with stay have "unat (currpa (it_of a off q)) < unat (pa_end a)" by (subst currpa_lin) auto
  then have "\<not> pa_end a \<le> currpa ?it" by (simp add: word_le_nat_alt)
  then have r: "iter_reset a ?it = ?it"
    using lin_bounds(1)[OF wf q] alloc_wfD(4)[OF wf] by (simp add: iter_reset_def it_of_def)
  have idx: "(it_bitmap ?it, it_byte ?it) = lin_idx a q" by (simp add: it_of_def lin_idx_def)
  show ?thesis unfolding iter_next_def Let_def r idx
    using lin_idx_inj[of a q S] iter_advance_lin[OF wf q off, of b] by (auto simp: it_of_def)
qed

lemma iter_next_reset:
  assumes "num_bitmaps a \<le> it_bitmap it \<or> pa_end a \<le> currpa it" and "alloc_wf a" and "passed_first it"
    and "0 < unat (pa_end a)"
  shows "iter_next a start it = iter_next a start (it_of a 0 0)"
proof -
  have "iter_reset a it = it_of a 0 0"
    using assms alloc_wfD(4)[OF assms(2)] by (cases it) (auto simp: iter_reset_def it_of_def)
  moreover have "iter_reset a (it_of a 0 0) = it_of a 0 0"
    using assms(4) by (auto simp: iter_reset_def it_of_def)
  ultimately show ?thesis unfolding iter_next_def by simp
qed

definition found_ok :: "page_alloc \<Rightarrow> (u8 \<Rightarrow> bool) \<Rightarrow> (nat \<Rightarrow> bool) \<Rightarrow> (usize \<times> usize) option \<Rightarrow> bool" where
  "found_ok a P rng r \<longleftrightarrow>
     (case r of Some idx \<Rightarrow> \<exists>i < num_bytes a. idx = lin_idx a i \<and> P (byte_lin a i)
      | None \<Rightarrow> \<forall>i < num_bytes a. rng i \<longrightarrow> \<not> P (byte_lin a i))"

lemma found_ok_mono:
  "found_ok a P rng r \<Longrightarrow> (\<And>i. i < num_bytes a \<Longrightarrow> rng' i \<Longrightarrow> rng i) \<Longrightarrow> found_ok a P rng' r"
  by (auto simp: found_ok_def split: option.splits)

lemma find_step:
  assumes wf: "alloc_wf a" and q: "q < num_bytes a"
    and nxt: "iter_next a start it = Some (Some (lin_idx a q), it')"
    and IH: "\<exists>r. find_byte a start P it' = Some r \<and> found_ok a P rng r"
    and rng: "\<And>i. rng' i \<Longrightarrow> rng i \<or> i = q"
  shows "\<exists>r. find_byte a start P it = Some r \<and> found_ok a P rng' r"
proof -
  have b: "byte_at_indices a (lin_idx a q) = Some (byte_lin a q)"
    using byte_at_lin[OF wf q] by (simp add: lin_idx_def)
  show ?thesis
  proof (cases "P (byte_lin a q)")
    case True
    then have "find_byte a start P it = Some (Some (lin_idx a q))"
      by (subst find_byte.simps) (simp add: nxt b)
    with True q show ?thesis by (auto simp: found_ok_def)
  next
    case False
    then have "find_byte a start P it = find_byte a start P it'"
      by (subst find_byte.simps) (simp add: nxt b)
    with IH False rng show ?thesis by (fastforce simp: found_ok_def split: option.splits)
  qed
qed

lemma find_byte_cong:
  "iter_next a start it = iter_next a start it' \<Longrightarrow> find_byte a start P it = find_byte a start P it'"
  by (subst (1 2) find_byte.simps) simp

lemma small_off: "alloc_wf a \<Longrightarrow> num_bitmaps a * alloc_page_size a \<le> max_bytes a"
proof -
  assume wf: "alloc_wf a"
  have "alloc_page_size a * 1 \<le> alloc_page_size a * (8 * bitmap_size a)"
    using alloc_wfD(2)[OF wf] by (intro mult_left_mono) auto
  then have "num_bitmaps a * alloc_page_size a \<le> num_bitmaps a * (alloc_page_size a * (8 * bitmap_size a))"
    by (intro mult_left_mono) auto
  then show ?thesis by (simp add: max_bytes_eq num_bytes_def ac_simps)
qed

lemma find_wrapped:
  assumes wf: "alloc_wf a" and S: "S < num_bytes a"
    and e: "S div bitmap_size a * alloc_page_size a < unat (pa_end a)" and "q \<le> S"
  shows "\<exists>r. find_byte a (lin_idx a S) P (it_of a 0 q) = Some r \<and> found_ok a P (\<lambda>i. q \<le> i \<and> i < S) r"
  using \<open>q \<le> S\<close>
proof (induction "S - q" arbitrary: q)
  have off: "0 + num_bitmaps a * alloc_page_size a < 2 ^ 64"
    using small_off[OF wf] alloc_wfD(6)[OF wf] by simp
  have nxt: "iter_next a (lin_idx a S) (it_of a 0 q) =
           (if q = S then Some (None, it_of a 0 q) else Some (Some (lin_idx a q), it_of a 0 (Suc q)))"
    if "q \<le> S" for q
  proof -
    have "q div bitmap_size a * alloc_page_size a \<le> S div bitmap_size a * alloc_page_size a"
      using that by (intro mult_right_mono div_le_mono) auto
    with e have "0 + q div bitmap_size a * alloc_page_size a < unat (pa_end a)" by linarith
    from iter_next_lin[OF wf _ off this, of S True] that S show ?thesis by (simp add: it_of_def)
  qed
  {
    case 0
    then have "q = S" by simp
    then show ?case using nxt[of S] by (subst find_byte.simps) (auto simp: found_ok_def)
  next
    case (Suc n)
    then have "q \<noteq> S" "Suc q \<le> S" by simp_all
    have n: "iter_next a (lin_idx a S) (it_of a 0 q) = Some (Some (lin_idx a q), it_of a 0 (Suc q))"
      using nxt[of q] Suc.prems \<open>q \<noteq> S\<close> by simp
    show ?case
      by (rule find_step[OF wf _ n Suc.hyps(1)]) (use Suc.hyps(2) \<open>Suc q \<le> S\<close> S in auto)
  }
qed

lemma past_end:
  assumes wf: "alloc_wf a" and S: "S * 8 * alloc_page_size a < unat (pa_end a)" and "S \<le> q"
    and e: "unat (pa_end a) \<le> S * 8 * alloc_page_size a + (q div bitmap_size a - S div bitmap_size a) * alloc_page_size a"
    and i: "q \<le> i"
  shows "unat (pa_end a) \<le> i * 8 * alloc_page_size a"
proof -
  let ?bs = "bitmap_size a" and ?ps = "alloc_page_size a"
  have bs: "0 < ?bs" using alloc_wfD(2)[OF wf] .
  define sb where "sb = S div ?bs"
  have "q div ?bs - sb \<noteq> 0" using S e by (cases "q div ?bs - sb = 0") (auto simp: sb_def)
  then obtain k where k: "q div ?bs = sb + Suc k"
    by (metis add_diff_inverse_nat diff_is_0_eq' not0_implies_Suc not_less_iff_gr_or_eq nat_less_le)
  have "S < sb * ?bs + ?bs" using dividend_less_div_times[OF bs, of S] by (simp add: sb_def)
  moreover have "sb * ?bs + ?bs + k * ?bs \<le> i"
    using div_times_less_eq_dividend[of q ?bs] i by (simp add: k distrib_right)
  moreover have "k \<le> k * ?bs" using bs by simp
  ultimately have "S * 8 + Suc k \<le> i * 8" by linarith
  then have "(S * 8 + Suc k) * ?ps \<le> i * 8 * ?ps" by (rule mult_right_mono) simp
  moreover have "q div ?bs - S div ?bs = Suc k" using k by (simp add: sb_def)
  ultimately show ?thesis using e by (simp add: algebra_simps)
qed

lemma find_first:
  assumes wf: "alloc_wf a" and S: "S < num_bytes a" "S * 8 * alloc_page_size a < unat (pa_end a)"
    and "S < q" and "q \<le> num_bytes a"
    and off: "off = S * 8 * alloc_page_size a - S div bitmap_size a * alloc_page_size a"
  shows "\<exists>r. find_byte a (lin_idx a S) P (it_of a off q) = Some r \<and>
             found_ok a P (\<lambda>i. (q \<le> i \<and> i * 8 * alloc_page_size a < unat (pa_end a)) \<or> i < S) r"
  using \<open>S < q\<close> \<open>q \<le> num_bytes a\<close>
proof (induction "num_bytes a - q" arbitrary: q)
  let ?bs = "bitmap_size a" and ?ps = "alloc_page_size a"
  have pos: "0 < unat (pa_end a)" using S(2) by simp
  have sb: "S div ?bs * ?ps \<le> S * 8 * ?ps"
    by (intro mult_right_mono) (auto intro: order.trans[OF div_le_dividend])
  have offle: "off + num_bitmaps a * ?ps < 2 ^ 64"
  proof -
    have "S * 8 * ?ps \<le> max_bytes a" using S(1) by (simp add: max_bytes_eq)
    with small_off[OF wf] alloc_wfD(6)[OF wf] off show ?thesis by linarith
  qed
  have cur: "off + q div ?bs * ?ps = S * 8 * ?ps + (q div ?bs - S div ?bs) * ?ps" if "S < q" for q
  proof -
    have "S div ?bs \<le> q div ?bs" using that by (intro div_le_mono) auto
    then show ?thesis using sb off by (simp add: diff_mult_distrib)
  qed
  have wrap: "\<exists>r. find_byte a (lin_idx a S) P it = Some r \<and> found_ok a P (\<lambda>i. i < S) r"
    if "num_bitmaps a \<le> it_bitmap it \<or> pa_end a \<le> currpa it" "passed_first it" for it
    using find_wrapped[OF wf S(1), of 0 P] find_byte_cong[OF iter_next_reset[OF that(1) wf that(2) pos]]
      order.strict_trans1[OF sb S(2)] by simp
  {
    case 0
    then have q: "q = num_bytes a" by simp
    have "num_bitmaps a \<le> it_bitmap (it_of a off q)"
      using alloc_wfD(2)[OF wf] by (simp add: it_of_def q num_bytes_def)
    then obtain r where
      r: "find_byte a (lin_idx a S) P (it_of a off q) = Some r" "found_ok a P (\<lambda>i. i < S) r"
      using wrap[OF disjI1, of "it_of a off q"] by (auto simp: it_of_def)
    show ?case
      by (rule exI[of _ r], rule conjI, rule r(1), rule found_ok_mono[OF r(2)]) (use q in auto)
  next
    case (Suc n)
    then have q: "q < num_bytes a" "S < Suc q" "Suc q \<le> num_bytes a" by simp_all
    have lt64: "off + q div ?bs * ?ps < 2 ^ 64"
      using offle lin_bounds(1)[OF wf q(1)] mult_right_mono[of "q div ?bs" "num_bitmaps a" ?ps] by linarith
    show ?case
    proof (cases "off + q div ?bs * ?ps < unat (pa_end a)")
      case True
      have "iter_next a (lin_idx a S) (it_of a off q) = Some (Some (lin_idx a q), it_of a off (Suc q))"
        using iter_next_lin[OF wf q(1) offle True, of S True] Suc.prems(1) by (simp add: it_of_def)
      then show ?thesis
        by (rule find_step[OF wf q(1) _ Suc.hyps(1)]) (use Suc.hyps(2) q in auto)
    next
      case False
      then have "pa_end a \<le> currpa (it_of a off q)"
        by (simp add: word_le_nat_alt currpa_lin[OF lt64])
      from wrap[OF disjI2[OF this]] obtain r where
        r: "find_byte a (lin_idx a S) P (it_of a off q) = Some r" "found_ok a P (\<lambda>i. i < S) r"
        by (auto simp: it_of_def simp del: of_nat_add of_nat_mult)
      have "unat (pa_end a) \<le> i * 8 * ?ps" if "q \<le> i" for i
        using past_end[OF wf S(2) less_imp_le[OF Suc.prems(1)] _ that] False cur[OF Suc.prems(1)] by simp
      then have "\<not> i * 8 * ?ps < unat (pa_end a)" if "q \<le> i" for i using that by (simp add: not_less)
      then show ?thesis
        by (intro exI[of _ r] conjI r(1) found_ok_mono[OF r(2)]) auto
    qed
  }
qed

lemma find_all:
  assumes wf: "alloc_wf a" and S: "S < num_bytes a" "S * 8 * alloc_page_size a < unat (pa_end a)"
  shows "\<exists>it r. indices_from a (lin_idx a S) = Some it \<and> find_byte a (lin_idx a S) P it = Some r \<and>
           found_ok a P (\<lambda>i. i * 8 * alloc_page_size a < unat (pa_end a)) r"
proof -
  let ?ps = "alloc_page_size a" and ?bs = "bitmap_size a"
  define off where "off = S * 8 * ?ps - S div ?bs * ?ps"
  have sb: "S div ?bs * ?ps \<le> S * 8 * ?ps"
    by (intro mult_right_mono) (auto intro: order.trans[OF div_le_dividend])
  have lt: "off + num_bitmaps a * ?ps < 2 ^ 64"
  proof -
    have "S * 8 * ?ps \<le> max_bytes a" using S(1) by (simp add: max_bytes_eq)
    with small_off[OF wf] alloc_wfD(6)[OF wf] off_def show ?thesis by linarith
  qed
  have o: "off + S div ?bs * ?ps = S * 8 * ?ps" using sb by (simp add: off_def)
  let ?it = "(it_of a off S)\<lparr>passed_first := False\<rparr>"
  have "indices_from a (lin_idx a S) = Some ?it"
    using indices_as_physaddr_lin(1)[OF wf S(1), of 0]
    by (simp add: indices_from_def lin_idx_def it_of_def o mult.commute[of 8] del: of_nat_add of_nat_mult)
  moreover have "iter_next a (lin_idx a S) ?it = Some (Some (lin_idx a S), it_of a off (Suc S))"
    using iter_next_lin[OF wf S(1) lt, of S False] S(2) by (simp add: o)
  then have "\<exists>r. find_byte a (lin_idx a S) P ?it = Some r \<and>
      found_ok a P (\<lambda>i. i * 8 * ?ps < unat (pa_end a)) r"
    by (rule find_step[OF wf S(1) _ find_first[OF wf S _ _ off_def]]) (use S(1) in auto)
  ultimately show ?thesis by blast
qed

subsection \<open>Allocation\<close>

lemma trailing_ones_spec:
  assumes "b \<noteq> 0xff"
  shows "trailing_ones b < 8" and "\<not> bit b (trailing_ones b)"
proof -
  have "\<exists>i<8. \<not> bit b i"
  proof (rule ccontr)
    assume "\<not> (\<exists>i<8. \<not> bit b i)"
    then have "b = mask 8" by (intro bit_word_eqI) (auto simp: bit_mask_iff)
    with assms show False by (simp add: mask_eq_exp_minus_1)
  qed
  then have ne: "takeWhile (bit b) [0..<8] \<noteq> [0..<8]"
    by (metis atLeastLessThan_iff le0 set_upt set_takeWhileD)
  have le: "trailing_ones b \<le> 8"
    using length_takeWhile_le[of "bit b" "[0..<8]"] by (simp add: trailing_ones_def)
  show lt: "trailing_ones b < 8"
  proof (rule ccontr)
    assume "\<not> trailing_ones b < 8"
    then have "length (takeWhile (bit b) [0..<8]) = length [0..<8::nat]" using le by (simp add: trailing_ones_def)
    with ne show False by (metis takeWhile_eq_take take_all order_refl)
  qed
  show "\<not> bit b (trailing_ones b)"
    using nth_length_takeWhile[of "bit b" "[0..<8]"] lt by (simp add: trailing_ones_def)
qed

text \<open>Setting the bits of one byte, in the list view.\<close>

lemma byte_lin_update:
  assumes wf: "alloc_wf a" and q: "q < num_bytes a"
    and a': "a' = a\<lparr>bitmaps := (bitmaps a)[q div bitmap_size a := (bitmaps a ! (q div bitmap_size a))[q mod bitmap_size a := v]],
               next_pa_to_scan := n\<rparr>"
  shows "i < num_bytes a \<Longrightarrow> byte_lin a' i = (if i = q then v else byte_lin a i)"
    and "num_bytes a' = num_bytes a"
proof -
  let ?bs = "bitmap_size a"
  have qb: "q div ?bs < length (bitmaps a)" "q mod ?bs < length (bitmaps a ! (q div ?bs))"
    using lin_bounds[OF wf q] alloc_wfD(4,5)[OF wf] by simp_all
  show "byte_lin a' i = (if i = q then v else byte_lin a i)" if "i < num_bytes a"
  proof (cases "i div ?bs = q div ?bs")
    case True
    then have "i mod ?bs = q mod ?bs \<longleftrightarrow> i = q" by (metis div_mult_mod_eq)
    with True qb show ?thesis by (auto simp: byte_lin_def a' nth_list_update)
  next
    case False
    then show ?thesis using qb by (auto simp: byte_lin_def a' nth_list_update)
  qed
  show "num_bytes a' = num_bytes a" by (simp add: num_bytes_def a')
qed

lemma alloc_wf_update:
  assumes wf: "alloc_wf a" and q: "q < num_bytes a"
    and a': "a' = a\<lparr>bitmaps := (bitmaps a)[q div bitmap_size a := (bitmaps a ! (q div bitmap_size a))[q mod bitmap_size a := v]],
               next_pa_to_scan := n\<rparr>"
    and n: "alloc_page_size a dvd unat n" "unat n < unat (pa_end a)"
  shows "alloc_wf a'"
proof -
  have "\<forall>bm \<in> set (bitmaps a'). length bm = bitmap_size a"
    using wf lin_bounds[OF wf q] unfolding a' alloc_wf_def
    by (auto dest!: set_update_subset_insert[THEN subsetD])
  then show ?thesis using wf n by (simp add: alloc_wf_def a' max_bytes_def bytes_per_bitmap_def
      bytes_per_bitmap_byte_def)
qed

text \<open>Every page at or past the end of memory is marked allocated.\<close>

definition end_marked :: "page_alloc \<Rightarrow> bool" where
  "end_marked a \<longleftrightarrow> (\<forall>p < num_pages a. unat (pa_end a) \<le> p * alloc_page_size a \<longrightarrow> page_bit a p)"

lemma start_byte:
  assumes wf: "alloc_wf a"
  obtains S j where "physaddr_as_indices a (next_pa_to_scan a) = Some (fst (lin_idx a S), snd (lin_idx a S), j)"
    and "S < num_bytes a" and "S * 8 * alloc_page_size a < unat (pa_end a)"
proof -
  let ?ps = "alloc_page_size a"
  from alloc_wfD(8)[OF wf] obtain p where p: "unat (next_pa_to_scan a) = p * ?ps"
    by (metis dvdE mult.commute)
  have "p div 8 * 8 * ?ps \<le> p * ?ps" by (intro mult_right_mono) auto
  with p alloc_wfD(9)[OF wf] have lt: "p div 8 * 8 * ?ps < unat (pa_end a)" by linarith
  with alloc_wfD(7)[OF wf] have "p div 8 * 8 * ?ps < num_bytes a * 8 * ?ps"
    unfolding max_bytes_eq by linarith
  then have "p div 8 < num_bytes a" by simp
  with lt physaddr_as_indices_page[OF wf p] that[of "p div 8" "p mod 8"] show thesis
    by (simp add: lin_idx_def)
qed

lemma page_bit_byte: "page_bit a (8 * q + j) = bit (byte_lin a q) j" if "j < 8"
  using that by (simp add: page_bit_def)

lemma allocate_cases:
  assumes wf: "alloc_wf a" and em: "end_marked a"
  shows "(\<exists>p a'. allocate a = Some (Inr (of_nat (p * alloc_page_size a)), a') \<and> alloc_wf a' \<and> end_marked a' \<and>
            pa_end a' = pa_end a \<and> alloc_page_size a' = alloc_page_size a \<and> num_pages a' = num_pages a \<and>
            p < num_pages a \<and> p * alloc_page_size a < unat (pa_end a) \<and>
            \<not> page_bit a p \<and> (\<forall>q < num_pages a. page_bit a' q \<longleftrightarrow> q = p \<or> page_bit a q)) \<or>
         (allocate a = Some (Inl OutOfSpace, a) \<and> (\<forall>p < num_pages a. page_bit a p))"
proof -
  let ?ps = "alloc_page_size a" and ?bs = "bitmap_size a"
  from start_byte[OF wf] obtain S j where
    s: "physaddr_as_indices a (next_pa_to_scan a) = Some (fst (lin_idx a S), snd (lin_idx a S), j)"
       "S < num_bytes a" "S * 8 * ?ps < unat (pa_end a)" .
  from find_all[OF wf s(2,3), of "\<lambda>b. b \<noteq> 0xff"] obtain it r where
    f: "indices_from a (lin_idx a S) = Some it" "find_byte a (lin_idx a S) (\<lambda>b. b \<noteq> 0xff) it = Some r"
       "found_ok a (\<lambda>b. b \<noteq> 0xff) (\<lambda>i. i * 8 * ?ps < unat (pa_end a)) r" by blast
  show ?thesis
  proof (cases r)
    case None
    have "page_bit a p" if p: "p < num_pages a" for p
    proof (cases "p div 8 * 8 * ?ps < unat (pa_end a)")
      case True
      have "p div 8 < num_bytes a" using p by (simp add: num_pages_def)
      with f(3) None True have "byte_lin a (p div 8) = 0xff" by (auto simp: found_ok_def)
      moreover have "(0xff :: u8) = mask 8" by (simp add: mask_eq_exp_minus_1)
      ultimately have "byte_lin a (p div 8) = mask 8" by metis
      then show ?thesis by (simp add: page_bit_def bit_mask_iff)
    next
      case False
      moreover have "p div 8 * 8 * ?ps \<le> p * ?ps" by (intro mult_right_mono) auto
      ultimately have "unat (pa_end a) \<le> p * ?ps" by linarith
      then show ?thesis using em p by (simp add: end_marked_def)
    qed
    moreover have "allocate a = Some (Inl OutOfSpace, a)"
      using s(1) f(1,2) None by (simp add: allocate_def)
    ultimately show ?thesis by blast
  next
    case (Some idx)
    with f(3) obtain q where q: "q < num_bytes a" "idx = lin_idx a q" "byte_lin a q \<noteq> 0xff"
      by (auto simp: found_ok_def)
    let ?b = "byte_lin a q" and ?n = "trailing_ones (byte_lin a q)"
    define p where "p = 8 * q + ?n"
    note n = trailing_ones_spec[OF q(3)]
    define a' where "a' = a\<lparr>bitmaps := (bitmaps a)[q div ?bs := (bitmaps a ! (q div ?bs))[q mod ?bs := ?b OR push_bit ?n 1]],
               next_pa_to_scan := of_nat (p * ?ps)\<rparr>"
    have free: "\<not> page_bit a p" using n page_bit_byte[OF n(1), of a q] by (simp add: p_def)
    have pn: "p < num_pages a" using q(1) n(1) by (simp add: p_def num_pages_def)
    with em free have pe: "p * ?ps < unat (pa_end a)" by (force simp: end_marked_def not_le)
    have lt: "p * ?ps < 2 ^ 64" using pe unat_lt64[of "pa_end a"] by linarith
    have un: "unat (of_nat (p * ?ps) :: u64) = p * ?ps" by (rule unat_of_nat64[OF lt])
    have "index_at (bitmaps a) (q div ?bs) = Some (bitmaps a ! (q div ?bs))"
      "index_at (bitmaps a ! (q div ?bs)) (q mod ?bs) = Some ?b"
      using lin_bounds[OF wf q(1)] alloc_wfD(4,5)[OF wf] by (simp_all add: byte_lin_def)
    then have al: "allocate a = Some (Inr (of_nat (p * ?ps)), a')"
      using s(1) f(1,2) Some q(2) n(1) indices_as_physaddr_lin(1)[OF wf q(1) n(1)]
      by (simp add: allocate_def lin_idx_def a'_def p_def Let_def del: of_nat_add of_nat_mult)
    have wf': "alloc_wf a'" by (rule alloc_wf_update[OF wf q(1) a'_def]) (simp_all only: un pe dvd_triv_right)
    note bl = byte_lin_update[OF wf q(1) a'_def]
    have np: "num_pages a' = num_pages a" by (simp add: num_pages_def bl(2))
    have bits: "page_bit a' x \<longleftrightarrow> x = p \<or> page_bit a x" if "x < num_pages a" for x
    proof (cases "x div 8 = q")
      case True
      have "x = p \<longleftrightarrow> x mod 8 = ?n"
        using mult_div_mod_eq[of 8 x] unfolding p_def True by (intro iffI; linarith)
      with True n(1) show ?thesis using bl(1)[OF q(1)]
        by (auto simp: page_bit_def bit_or_iff bit_exp_iff)
    next
      case False
      then have "x \<noteq> p" using n(1) by (auto simp: p_def)
      moreover have "x div 8 < num_bytes a" using that by (simp add: num_pages_def)
      ultimately show ?thesis using False bl(1) by (simp add: page_bit_def)
    qed
    have "end_marked a'" using em bits by (simp add: end_marked_def np) (simp add: a'_def)
    with al wf' pn pe free bits np show ?thesis by (auto simp: a'_def simp del: of_nat_mult)
  qed
qed

subsection \<open>Marking and freeing ranges\<close>

text \<open>Two allocators of the same shape; an operation changes only bits and the scan position.\<close>

definition same_shape :: "page_alloc \<Rightarrow> page_alloc \<Rightarrow> bool" where
  "same_shape a b \<longleftrightarrow> num_bitmaps b = num_bitmaps a \<and> bitmap_size b = bitmap_size a \<and>
     alloc_page_size b = alloc_page_size a \<and> pa_end b = pa_end a \<and> next_pa_to_scan b = next_pa_to_scan a"

lemma same_shape_refl [simp]: "same_shape a a"
  by (simp add: same_shape_def)

lemma same_shape_trans: "same_shape a b \<Longrightarrow> same_shape b c \<Longrightarrow> same_shape a c"
  by (simp add: same_shape_def)

lemma same_shape_eqs:
  "same_shape a b \<Longrightarrow> num_pages b = num_pages a" "same_shape a b \<Longrightarrow> max_bytes b = max_bytes a"
  by (simp_all add: same_shape_def num_pages_def num_bytes_def max_bytes_def bytes_per_bitmap_def
      bytes_per_bitmap_byte_def)

lemma mark_one:
  assumes wf: "alloc_wf a" and p: "p < num_pages a" and pa: "unat pa = p * alloc_page_size a"
  shows "\<exists>a'. (\<forall>pas. mark_pages v (pa # pas) a = mark_pages v pas a') \<and> alloc_wf a' \<and> same_shape a a' \<and>
           (\<forall>q < num_pages a. page_bit a' q = (if q = p then v else page_bit a q))"
proof -
  let ?bs = "bitmap_size a" and ?q = "p div 8" and ?j = "p mod 8"
  have q: "?q < num_bytes a" using p by (simp add: num_pages_def)
  note lb = lin_bounds[OF wf q]
  let ?bm = "bitmaps a ! (?q div ?bs)"
  let ?v = "if v then byte_lin a ?q OR push_bit ?j 1 else byte_lin a ?q AND NOT (push_bit ?j 1)"
  define a' where "a' = a\<lparr>bitmaps := (bitmaps a)[?q div ?bs := ?bm[?q mod ?bs := ?v]],
                         next_pa_to_scan := next_pa_to_scan a\<rparr>"
  have sb: "set_bit_to ?bm (8 * (?q mod ?bs) + ?j) v = Some (?bm[?q mod ?bs := ?v])"
    using lb alloc_wfD(5)[OF wf] by (simp add: set_bit_to_def byte_lin_def)
  have step: "mark_pages v (pa # pas) a = mark_pages v pas a'" for pas
    using physaddr_as_indices_page[OF wf pa] lb(1) alloc_wfD(4)[OF wf] sb
    by (simp add: a'_def)
  note bl = byte_lin_update[OF wf q a'_def]
  have "page_bit a' x = (if x = p then v else page_bit a x)" if "x < num_pages a" for x
  proof (cases "x div 8 = ?q")
    case True
    have "x = p \<longleftrightarrow> x mod 8 = ?j" using True by (metis mult_div_mod_eq)
    with True show ?thesis using bl(1)[OF q]
      by (auto simp: page_bit_def bit_or_iff bit_and_iff bit_not_iff bit_exp_iff)
  next
    case False
    moreover from this have "x \<noteq> p" by auto
    moreover have "x div 8 < num_bytes a" using that by (simp add: num_pages_def)
    ultimately show ?thesis using bl(1) by (simp add: page_bit_def)
  qed
  moreover have "alloc_wf a'"
    by (rule alloc_wf_update[OF wf q a'_def]) (use alloc_wfD(8,9)[OF wf] in simp_all)
  moreover have "same_shape a a'" by (simp add: same_shape_def a'_def)
  ultimately show ?thesis using step by blast
qed

lemma mark_pages_spec:
  assumes "alloc_wf a" and "\<And>pa. pa \<in> set pas \<Longrightarrow> \<exists>p < num_pages a. unat pa = p * alloc_page_size a"
  shows "\<exists>a'. mark_pages v pas a = Some (Inr (), a') \<and> alloc_wf a' \<and> same_shape a a' \<and>
           (\<forall>q < num_pages a. page_bit a' q = (if q * alloc_page_size a \<in> unat ` set pas then v else page_bit a q))"
  using assms
proof (induction pas arbitrary: a)
  case Nil
  then show ?case by simp
next
  case (Cons pa pas)
  from Cons.prems(2)[of pa] obtain p where p: "p < num_pages a" "unat pa = p * alloc_page_size a" by auto
  from mark_one[OF Cons.prems(1) p, of v] obtain a1 where
    a1: "mark_pages v (pa # pas) a = mark_pages v pas a1" "alloc_wf a1" "same_shape a a1"
        "\<forall>q < num_pages a. page_bit a1 q = (if q = p then v else page_bit a q)" by blast
  note eqs = same_shape_eqs[OF a1(3)] a1(3)[unfolded same_shape_def]
  from Cons.IH[OF a1(2)] Cons.prems(2) eqs obtain a2 where
    a2: "mark_pages v pas a1 = Some (Inr (), a2)" "alloc_wf a2" "same_shape a1 a2"
        "\<forall>q < num_pages a. page_bit a2 q = (if q * alloc_page_size a \<in> unat ` set pas then v else page_bit a1 q)"
    by auto
  have "q = p \<longleftrightarrow> q * alloc_page_size a = unat pa" for q
    using p(2) alloc_wfD(3)[OF Cons.prems(1)] by simp
  then show ?case using a1 a2 same_shape_trans[OF a1(3) a2(3)] by auto
qed

lemma mark_range_spec:
  assumes wf: "alloc_wf a" and k: "alloc_page_size a = 2 ^ k" "k < 64"
    and le: "pstart r \<le> pend r" and fits: "unat (pend r) \<le> max_bytes a"
    and ce: "check_end \<longrightarrow> pend r \<le> pa_end a"
  shows "\<exists>a'. mark_range r v check_end a = Some (Inr (), a') \<and> alloc_wf a' \<and> same_shape a a' \<and>
           (\<forall>q < num_pages a. page_bit a' q =
              (if unat (pstart r) < (q + 1) * alloc_page_size a \<and> q * alloc_page_size a < unat (pend r)
               then v else page_bit a q))"
proof -
  let ?ps = "alloc_page_size a"
  have ps: "of_nat ?ps = (2 ^ k :: u64)" by (simp add: k(1))
  have "?ps \<le> max_bytes a"
    using alloc_wfD(1,2)[OF wf] by (simp add: max_bytes_eq num_bytes_def Suc_le_eq)
  then have "unat (pend r) + 2 ^ k < 2 ^ 64" using fits alloc_wfD(6)[OF wf] k(1) by linarith
  from step_by_rounded_pages[OF k(2) this le] obtain pas where
    pas: "step_by_rounded r (2 ^ k) = Some pas"
         "unat ` set pas = {x. ?ps dvd x \<and> unat (pstart r) < x + ?ps \<and> x < unat (pend r)}"
    by (auto simp: k(1))
  have "\<exists>p < num_pages a. unat pa = p * ?ps" if "pa \<in> set pas" for pa
  proof -
    have "unat pa \<in> unat ` set pas" using that by blast
    then have d: "?ps dvd unat pa" "unat pa < unat (pend r)" unfolding pas(2) by auto
    then obtain p where p: "unat pa = p * ?ps" by (metis dvdE mult.commute)
    with d(2) fits have "p * ?ps < num_bytes a * 8 * ?ps" unfolding max_bytes_eq by linarith
    then show ?thesis using p by (auto simp: num_pages_def)
  qed
  from mark_pages_spec[OF wf this, of pas v] obtain a' where
    a': "mark_pages v pas a = Some (Inr (), a')" "alloc_wf a'" "same_shape a a'"
        "\<forall>q < num_pages a. page_bit a' q = (if q * ?ps \<in> unat ` set pas then v else page_bit a q)" by blast
  have "mark_range r v check_end a = Some (Inr (), a')"
    using ce pas(1) a'(1) by (auto simp: mark_range_def ps not_less)
  with a' show ?thesis unfolding pas(2) by (auto simp: algebra_simps)
qed

text \<open>Page-aligned ranges, and whether a page lies in one.\<close>

definition aligned :: "page_alloc \<Rightarrow> phys_range \<Rightarrow> bool" where
  "aligned a r \<longleftrightarrow> alloc_page_size a dvd unat (pstart r) \<and> alloc_page_size a dvd unat (pend r) \<and> pstart r \<le> pend r"

definition in_range :: "page_alloc \<Rightarrow> phys_range \<Rightarrow> nat \<Rightarrow> bool" where
  "in_range a r p \<longleftrightarrow> unat (pstart r) \<le> p * alloc_page_size a \<and> p * alloc_page_size a < unat (pend r)"

lemma aligned_page_less:
  assumes "alloc_wf a" and "alloc_page_size a dvd n"
  shows "n < (p + 1) * alloc_page_size a \<longleftrightarrow> n \<le> p * alloc_page_size a"
proof
  assume "n < (p + 1) * alloc_page_size a"
  then show "n \<le> p * alloc_page_size a"
    using dvd_gap[of "alloc_page_size a" "p * alloc_page_size a" n] assms(2) by fastforce
qed (use alloc_wfD(3)[OF assms(1)] in simp)

lemma mark_aligned:
  assumes "alloc_wf a" and k: "alloc_page_size a = 2 ^ k" "k < 64" and r: "aligned a r"
    and "unat (pend r) \<le> max_bytes a" and "check_end \<longrightarrow> pend r \<le> pa_end a"
  shows "\<exists>a'. mark_range r v check_end a = Some (Inr (), a') \<and> alloc_wf a' \<and> same_shape a a' \<and>
           (\<forall>q < num_pages a. page_bit a' q = (if in_range a r q then v else page_bit a q))"
proof -
  have "unat (pstart r) < (q + 1) * alloc_page_size a \<longleftrightarrow> unat (pstart r) \<le> q * alloc_page_size a" for q
    using aligned_page_less[OF assms(1)] r by (simp add: aligned_def)
  with mark_range_spec[OF assms(1) k _ assms(5,6), of v] r show ?thesis
    by (simp add: aligned_def in_range_def)
qed

lemma mark_gap:
  assumes wf: "alloc_wf a" and k: "alloc_page_size a = 2 ^ k" "k < 64"
    and d: "alloc_page_size a dvd unat n" "alloc_page_size a dvd unat m" and m: "m \<le> pa_end a"
  shows "\<exists>a'. (if n < m then mark_free \<lparr>pstart = n, pend = m\<rparr> a else Some (Inr (), a)) = Some (Inr (), a') \<and>
           alloc_wf a' \<and> same_shape a a' \<and>
           (\<forall>q < num_pages a. page_bit a' q \<longleftrightarrow>
              \<not> (unat n \<le> q * alloc_page_size a \<and> q * alloc_page_size a < unat m) \<and> page_bit a q)"
proof (cases "n < m")
  case True
  have "unat m \<le> max_bytes a" using m alloc_wfD(7)[OF wf] by (simp add: word_le_nat_alt)
  with mark_aligned[OF wf k, of "\<lparr>pstart = n, pend = m\<rparr>" True False] True d m obtain a' where
    "mark_range \<lparr>pstart = n, pend = m\<rparr> False True a = Some (Inr (), a')" "alloc_wf a'" "same_shape a a'"
    "\<forall>q < num_pages a. page_bit a' q = (if in_range a \<lparr>pstart = n, pend = m\<rparr> q then False else page_bit a q)"
    using less_imp_le[OF True] by (auto simp: aligned_def)
  with True show ?thesis by (auto simp: in_range_def mark_free_def intro!: exI[of _ a'])
next
  case False
  then have "unat m \<le> unat n" by (simp add: word_less_nat_alt)
  with False wf show ?thesis by auto
qed

definition used_ok :: "page_alloc \<Rightarrow> phys_range list \<Rightarrow> bool" where
  "used_ok a used \<longleftrightarrow> sorted (map (unat \<circ> pstart) used) \<and>
     (\<forall>r \<in> set used. aligned a r \<and> pstart r \<le> pa_end a)"

lemma free_gaps_spec:
  assumes "alloc_wf a" and "alloc_page_size a = 2 ^ k" and "k < 64" and "alloc_page_size a dvd unat n"
    and "used_ok a rs"
  shows "\<exists>m a'. free_gaps rs n a = Some (Inr m, a') \<and> alloc_wf a' \<and> same_shape a a' \<and>
           alloc_page_size a dvd unat m \<and> unat n \<le> unat m \<and> (\<forall>r \<in> set rs. unat (pend r) \<le> unat m) \<and>
           (\<forall>x. unat n \<le> x \<and> x < unat m \<longrightarrow> (\<exists>r \<in> set rs. x < unat (pend r))) \<and>
           (\<forall>q < num_pages a. page_bit a' q \<longleftrightarrow>
              \<not> (unat n \<le> q * alloc_page_size a \<and> (\<forall>r \<in> set rs. \<not> in_range a r q) \<and>
                 (\<exists>r \<in> set rs. q * alloc_page_size a < unat (pstart r))) \<and> page_bit a q)"
  using assms
proof (induction rs arbitrary: n a)
  case Nil
  then show ?case by simp
next
  case (Cons r rs)
  let ?ps = "alloc_page_size a"
  have r: "aligned a r" "pstart r \<le> pa_end a" and later: "\<forall>t \<in> set rs. unat (pstart r) \<le> unat (pstart t)"
    and rs: "used_ok a rs"
    using Cons.prems(5) by (auto simp: used_ok_def)
  have d: "?ps dvd unat (pstart r)" "?ps dvd unat (pend r)" and le: "unat (pstart r) \<le> unat (pend r)"
    using r(1) by (simp_all add: aligned_def word_le_nat_alt)
  from mark_gap[OF Cons.prems(1-4) d(1) r(2)] obtain a1 where
    a1: "(if n < pstart r then mark_free \<lparr>pstart = n, pend = pstart r\<rparr> a else Some (Inr (), a)) = Some (Inr (), a1)"
        "alloc_wf a1" "same_shape a a1"
        "\<forall>q < num_pages a. page_bit a1 q \<longleftrightarrow> \<not> (unat n \<le> q * ?ps \<and> q * ?ps < unat (pstart r)) \<and> page_bit a q"
    by blast
  let ?n = "if n < pend r then pend r else n"
  note sh = a1(3)[unfolded same_shape_def] same_shape_eqs[OF a1(3)]
  have n: "unat ?n = max (unat n) (unat (pend r))" by (simp add: word_less_nat_alt max_def)
  have ir: "in_range a1 = in_range a" using sh by (simp add: fun_eq_iff in_range_def)
  have "used_ok a1 rs" using rs sh by (simp add: used_ok_def aligned_def)
  moreover have "?ps dvd unat ?n" using d Cons.prems(4) by simp
  ultimately obtain m a' where
    IH: "free_gaps rs ?n a1 = Some (Inr m, a')" "alloc_wf a'" "same_shape a1 a'" "?ps dvd unat m"
        "unat ?n \<le> unat m" "\<forall>t \<in> set rs. unat (pend t) \<le> unat m"
        "\<forall>x. unat ?n \<le> x \<and> x < unat m \<longrightarrow> (\<exists>t \<in> set rs. x < unat (pend t))"
        "\<forall>q < num_pages a. page_bit a' q \<longleftrightarrow>
              \<not> (unat ?n \<le> q * ?ps \<and> (\<forall>t \<in> set rs. \<not> in_range a t q) \<and>
                 (\<exists>t \<in> set rs. q * ?ps < unat (pstart t))) \<and> page_bit a1 q"
    using Cons.IH[OF a1(2), of ?n] Cons.prems(2,3) sh ir by auto
  have bits: "page_bit a' q \<longleftrightarrow>
              \<not> (unat n \<le> q * ?ps \<and> (\<forall>t \<in> set (r # rs). \<not> in_range a t q) \<and>
                 (\<exists>t \<in> set (r # rs). q * ?ps < unat (pstart t))) \<and> page_bit a q" if q: "q < num_pages a" for q
  proof (cases "unat n \<le> q * ?ps \<and> q * ?ps < unat (pstart r)")
    case True
    then have "\<forall>t \<in> set (r # rs). \<not> in_range a t q" using later by (auto simp: in_range_def)
    with True q a1(4) IH(8) show ?thesis by simp
  next
    case False
    then show ?thesis using q a1(4) IH(8) le n later by (auto simp: in_range_def)
  qed
  have "free_gaps (r # rs) n a = Some (Inr m, a')" using a1(1) IH(1) by simp
  moreover have "\<forall>x. unat n \<le> x \<and> x < unat m \<longrightarrow> (\<exists>t \<in> set (r # rs). x < unat (pend t))"
    using IH(7) n by (auto simp: max_def split: if_splits) (metis not_le)
  ultimately show ?case
    using IH(2,4,5,6) same_shape_trans[OF a1(3) IH(3)] bits n by auto
qed

text \<open>Boot: only pages of the available memory outside every used range become free, and all of them do.\<close>

lemma free_unused_ranges_spec:
  assumes wf: "alloc_wf a" and k: "alloc_page_size a = 2 ^ k" "k < 64"
    and all: "\<forall>p < num_pages a. page_bit a p" and mx: "unat (pa_end a) = max_bytes a"
    and nx: "next_pa_to_scan a = 0"
    and av: "aligned a av" "pend av \<le> pa_end a" "0 < unat (pend av)" and used: "used_ok a used"
  shows "\<exists>a'. free_unused_ranges av used a = Some (Inr (), a') \<and> alloc_wf a' \<and> end_marked a' \<and>
           num_pages a' = num_pages a \<and> alloc_page_size a' = alloc_page_size a \<and> pa_end a' = pend av \<and>
           (\<forall>p < num_pages a. \<not> page_bit a' p \<longleftrightarrow> in_range a av p \<and> (\<forall>r \<in> set used. \<not> in_range a r p))"
proof -
  let ?ps = "alloc_page_size a"
  have avd: "?ps dvd unat (pstart av)" "?ps dvd unat (pend av)" using av(1) by (simp_all add: aligned_def)
  from free_gaps_spec[OF wf k avd(1) used] obtain m a1 where
    a1: "free_gaps used (pstart av) a = Some (Inr m, a1)" "alloc_wf a1" "same_shape a a1" "?ps dvd unat m"
        "unat (pstart av) \<le> unat m" "\<forall>r \<in> set used. unat (pend r) \<le> unat m"
        "\<forall>x. unat (pstart av) \<le> x \<and> x < unat m \<longrightarrow> (\<exists>r \<in> set used. x < unat (pend r))"
        "\<forall>q < num_pages a. page_bit a1 q \<longleftrightarrow>
              \<not> (unat (pstart av) \<le> q * ?ps \<and> (\<forall>r \<in> set used. \<not> in_range a r q) \<and>
                 (\<exists>r \<in> set used. q * ?ps < unat (pstart r)))"
    using all by blast
  note sh1 = a1(3)[unfolded same_shape_def] same_shape_eqs[OF a1(3)]
  have "\<exists>a2. (if m < pend av then mark_free \<lparr>pstart = m, pend = pend av\<rparr> a1 else Some (Inr (), a1)) = Some (Inr (), a2) \<and>
           alloc_wf a2 \<and> same_shape a1 a2 \<and>
           (\<forall>q < num_pages a1. page_bit a2 q \<longleftrightarrow>
              \<not> (unat m \<le> q * alloc_page_size a1 \<and> q * alloc_page_size a1 < unat (pend av)) \<and> page_bit a1 q)"
    by (rule mark_gap[OF a1(2), of k]) (use k sh1 a1(4) avd av(2) in simp_all)
  then obtain a2 where
    a2: "(if m < pend av then mark_free \<lparr>pstart = m, pend = pend av\<rparr> a1 else Some (Inr (), a1)) = Some (Inr (), a2)"
        "alloc_wf a2" "same_shape a a2"
        "\<forall>q < num_pages a. page_bit a2 q \<longleftrightarrow> \<not> (unat m \<le> q * ?ps \<and> q * ?ps < unat (pend av)) \<and> page_bit a1 q"
    using sh1 same_shape_trans[OF a1(3)] by auto
  note sh2 = a2(3)[unfolded same_shape_def] same_shape_eqs[OF a2(3)]
  define a3 where "a3 = a2\<lparr>pa_end := pend av\<rparr>"
  have mb3: "max_bytes a3 = max_bytes a" "num_pages a3 = num_pages a" "alloc_page_size a3 = ?ps"
    and pb3: "page_bit a3 = page_bit a2"
    using sh2 by (simp_all add: a3_def max_bytes_def bytes_per_bitmap_def bytes_per_bitmap_byte_def
        num_pages_def num_bytes_def page_bit_def byte_lin_def fun_eq_iff)
  have wf3: "alloc_wf a3"
    using a2(2) av(2,3) mx nx sh2 unfolding a3_def alloc_wf_def
    by (simp add: max_bytes_def bytes_per_bitmap_def bytes_per_bitmap_byte_def word_le_nat_alt)
  have mb: "unat (of_nat (max_bytes a) :: u64) = max_bytes a"
    by (rule unat_of_nat64) (use alloc_wfD(6)[OF wf] in simp)
  let ?er = "\<lparr>pstart = pend av, pend = of_nat (max_bytes a) :: u64\<rparr>"
  have "aligned a3 ?er"
    using avd av(2) mx mb by (auto simp: aligned_def mb3 max_bytes_eq word_le_nat_alt)
  from mark_aligned[OF wf3 _ k(2) this, of False True] obtain a4 where
    a4: "mark_range ?er True False a3 = Some (Inr (), a4)" "alloc_wf a4" "same_shape a3 a4"
        "\<forall>q < num_pages a. page_bit a4 q = (if in_range a3 ?er q then True else page_bit a2 q)"
    using k mb by (auto simp: mb3 pb3)
  note sh4 = a4(3)[unfolded same_shape_def] same_shape_eqs[OF a4(3)]
  define a5 where "a5 = a4\<lparr>next_pa_to_scan := 0\<rparr>"
  have pb5: "page_bit a5 = page_bit a4" by (simp add: a5_def page_bit_def byte_lin_def fun_eq_iff)
  have np5: "num_pages a5 = num_pages a" "alloc_page_size a5 = ?ps" "pa_end a5 = pend av"
    using sh4 mb3 by (simp_all add: a5_def num_pages_def num_bytes_def a3_def)
  have wf5: "alloc_wf a5"
    using a4(2) av(3) sh4 unfolding a5_def alloc_wf_def a3_def
    by (simp add: max_bytes_def bytes_per_bitmap_def bytes_per_bitmap_byte_def)
  have run: "free_unused_ranges av used a = Some (Inr (), a5)"
    using a1(1) a2(1) a4(1) mb3(1) by (simp add: free_unused_ranges_def a3_def a5_def Let_def)
  have page: "q * ?ps < max_bytes a" if "q < num_pages a" for q
    using that alloc_wfD(3)[OF wf] by (simp add: num_pages_def max_bytes_eq)
  have past: "page_bit a5 q" if "q < num_pages a" "unat (pend av) \<le> q * ?ps" for q
    using that a4(4) page[of q] by (simp add: pb5 in_range_def mb3 mb)
  then have "end_marked a5" using np5 by (simp add: end_marked_def)
  moreover have "\<not> page_bit a5 q \<longleftrightarrow> in_range a av q \<and> (\<forall>r \<in> set used. \<not> in_range a r q)"
    if q: "q < num_pages a" for q
  proof (cases "q * ?ps < unat (pend av)")
    case True
    then have "page_bit a5 q = page_bit a2 q"
      using q a4(4) by (simp add: pb5 in_range_def mb3)
    with True q a1(5,6,7,8) a2(4) show ?thesis by (auto simp: in_range_def) (meson not_le)+
  next
    case False
    with past q show ?thesis by (auto simp: in_range_def)
  qed
  ultimately show ?thesis using run wf5 np5 by blast
qed

subsection \<open>Deallocation\<close>

text \<open>The page whose bit \<open>deallocate\<close> clears: the bit index within the first byte of the bitmap.\<close>

definition cleared_page :: "page_alloc \<Rightarrow> nat \<Rightarrow> nat" where
  "cleared_page a p = 8 * (p div 8 div bitmap_size a * bitmap_size a) + p mod 8"

lemma cleared_page_eq: "cleared_page a p = p \<longleftrightarrow> p div 8 mod bitmap_size a = 0"
proof -
  have "p div 8 = p div 8 div bitmap_size a * bitmap_size a + p div 8 mod bitmap_size a"
    by (rule div_mult_mod_eq[symmetric])
  moreover have "p = 8 * (p div 8) + p mod 8" by (rule mult_div_mod_eq[symmetric])
  ultimately show ?thesis unfolding cleared_page_def by linarith
qed

lemma deallocate_spec:
  assumes wf: "alloc_wf a" and p: "p < num_pages a" and b: "page_bit a p" and e: "p * alloc_page_size a < unat (pa_end a)"
  shows "\<exists>a'. deallocate (of_nat (p * alloc_page_size a)) a = Some (Inr (), a') \<and> alloc_wf a' \<and>
           num_pages a' = num_pages a \<and>
           (\<forall>q < num_pages a. page_bit a' q \<longleftrightarrow> q \<noteq> cleared_page a p \<and> page_bit a q)"
proof -
  let ?ps = "alloc_page_size a" and ?bs = "bitmap_size a"
  let ?pa = "of_nat (p * ?ps) :: u64" and ?bi = "p div 8 div ?bs" and ?j = "p mod 8"
  have un: "unat ?pa = p * ?ps" by (rule unat_of_nat64) (use e unat_lt64[of "pa_end a"] in linarith)
  have q: "p div 8 < num_bytes a" using p by (simp add: num_pages_def)
  note lb = lin_bounds[OF wf q]
  define z where "z = ?bi * ?bs"
  have z: "z div ?bs = ?bi" "z mod ?bs = 0" using alloc_wfD(2)[OF wf] by (simp_all add: z_def)
  have zn: "z < num_bytes a" using lb(1) alloc_wfD(2)[OF wf] by (simp add: z_def num_bytes_def)
  let ?v = "byte_lin a z AND NOT (push_bit ?j 1)"
  define a' where "a' = a\<lparr>bitmaps := (bitmaps a)[z div ?bs := (bitmaps a ! (z div ?bs))[z mod ?bs := ?v]],
                         next_pa_to_scan := ?pa\<rparr>"
  have iset: "is_set (bitmaps a ! ?bi) (8 * (p div 8 mod ?bs) + ?j) = Some True"
    using lb alloc_wfD(5)[OF wf] b
    by (auto simp: is_set_def page_bit_def byte_lin_def and_exp_eq_0_iff_not_bit word_neq_0_conv[symmetric])
  have sb: "set_bit_to (bitmaps a ! ?bi) ?j False = Some ((bitmaps a ! ?bi)[0 := ?v])"
    using lb(1) alloc_wfD(2,5)[OF wf] z by (simp add: set_bit_to_def byte_lin_def)
  have "\<not> pa_end a < ?pa" using un e by (simp add: word_less_nat_alt)
  then have run: "deallocate ?pa a = Some (Inr (), a')"
    using physaddr_as_indices_page[OF wf un] lb(1) alloc_wfD(4)[OF wf] iset sb
    by (simp add: deallocate_def a'_def z del: of_nat_mult)
  have wf': "alloc_wf a'" by (rule alloc_wf_update[OF wf zn a'_def]) (simp_all only: un e dvd_triv_right)
  note bl = byte_lin_update[OF wf zn a'_def]
  have "page_bit a' x \<longleftrightarrow> x \<noteq> cleared_page a p \<and> page_bit a x" if "x < num_pages a" for x
  proof (cases "x div 8 = z")
    case True
    have "x = cleared_page a p \<longleftrightarrow> x mod 8 = ?j"
      using mult_div_mod_eq[of 8 x] unfolding cleared_page_def True z_def by (intro iffI; linarith)
    with True show ?thesis using bl(1)[OF zn]
      by (auto simp: page_bit_def bit_and_iff bit_not_iff bit_exp_iff)
  next
    case False
    then have "x \<noteq> cleared_page a p" by (auto simp: cleared_page_def z_def)
    moreover have "x div 8 < num_bytes a" using that by (simp add: num_pages_def)
    ultimately show ?thesis using False bl(1) by (simp add: page_bit_def)
  qed
  with run wf' show ?thesis using bl(2) by (simp add: num_pages_def)
qed

subsection \<open>Runs of allocations\<close>

fun allocs :: "nat \<Rightarrow> page_alloc \<Rightarrow> (phys_addr list \<times> page_alloc) option" where
  "allocs 0 a = Some ([], a)"
| "allocs (Suc n) a =
     do { (r, a1) \<leftarrow> allocate a;
          (case r of
             Inl e \<Rightarrow> Some ([], a1)
           | Inr pa \<Rightarrow> do { (pas, a2) \<leftarrow> allocs n a1; Some (pa # pas, a2) }) }"

definition free_pages :: "page_alloc \<Rightarrow> nat set" where
  "free_pages a = {p. p < num_pages a \<and> \<not> page_bit a p}"

lemma allocs_spec:
  assumes "alloc_wf a" and "end_marked a"
  shows "\<exists>pas a'. allocs n a = Some (pas, a') \<and> distinct pas \<and> length pas = min n (card (free_pages a)) \<and>
           (\<forall>pa \<in> set pas. unat pa < unat (pa_end a) \<and> unat pa \<in> (\<lambda>p. p * alloc_page_size a) ` free_pages a)"
  using assms
proof (induction n arbitrary: a)
  case 0
  then show ?case by simp
next
  case (Suc n)
  let ?ps = "alloc_page_size a"
  have fin: "finite (free_pages a)" by (simp add: free_pages_def)
  from allocate_cases[OF Suc.prems] show ?case
  proof (elim disjE exE conjE)
    fix p a1
    assume al: "allocate a = Some (Inr (of_nat (p * ?ps)), a1)" and wf1: "alloc_wf a1" and em1: "end_marked a1"
      and sh: "pa_end a1 = pa_end a" "alloc_page_size a1 = ?ps" "num_pages a1 = num_pages a"
      and p: "p < num_pages a" "p * ?ps < unat (pa_end a)" "\<not> page_bit a p"
      and bits: "\<forall>q < num_pages a. page_bit a1 q \<longleftrightarrow> q = p \<or> page_bit a q"
    have fp: "free_pages a = insert p (free_pages a1)" "p \<notin> free_pages a1"
      using p bits sh(3) by (auto simp: free_pages_def)
    then have card: "card (free_pages a) = Suc (card (free_pages a1))" using fin by simp
    from Suc.IH[OF wf1 em1] obtain pas a2 where
      IH: "allocs n a1 = Some (pas, a2)" "distinct pas" "length pas = min n (card (free_pages a1))"
          "\<forall>pa \<in> set pas. unat pa < unat (pa_end a) \<and> unat pa \<in> (\<lambda>p. p * ?ps) ` free_pages a1"
      by (auto simp: sh)
    have un: "unat (of_nat (p * ?ps) :: u64) = p * ?ps"
      by (rule unat_of_nat64) (use p(2) unat_lt64[of "pa_end a"] in linarith)
    have "of_nat (p * ?ps) \<notin> set pas"
    proof
      assume "of_nat (p * ?ps) \<in> set pas"
      with IH(4) un obtain q where "q \<in> free_pages a1" "q * ?ps = p * ?ps" by fastforce
      with alloc_wfD(3)[OF Suc.prems(1)] fp(2) show False by simp
    qed
    moreover have "allocs (Suc n) a = Some (of_nat (p * ?ps) # pas, a2)" using al IH(1) by simp
    ultimately show ?thesis using IH card un p(2) fp(1) by (simp del: of_nat_mult allocs.simps)
  next
    assume al: "allocate a = Some (Inl OutOfSpace, a)" and "\<forall>p < num_pages a. page_bit a p"
    then have "free_pages a = {}" by (auto simp: free_pages_def)
    with al show ?thesis by simp
  qed
qed

subsection \<open>Properties\<close>

text \<open>An allocator of 16 pages, all allocated, and one of them with pages 1 and 9 free.\<close>

definition demo_boot :: page_alloc where
  "demo_boot = new_all_allocated 1 2 4096"

definition demo_alloc :: page_alloc where
  "demo_alloc = demo_boot\<lparr>bitmaps := [[0xfd, 0xfd]]\<rparr>"

lemma demo_boot_wf: "alloc_wf demo_boot" "alloc_wf demo_alloc"
  by (simp_all add: demo_alloc_def demo_boot_def new_all_allocated_def alloc_wf_def max_bytes_eq num_bytes_def
      bitmap_new_def)

lemma demo_alloc_bits:
  "num_pages demo_alloc = 16" "page_bit demo_alloc p \<longleftrightarrow> bit (0xfd :: u8) (p mod 8)" if "p < 16"
proof -
  show "num_pages demo_alloc = 16"
    by (simp add: demo_alloc_def demo_boot_def new_all_allocated_def num_pages_def num_bytes_def)
  have "p div 8 = 0 \<or> p div 8 = 1" using that by auto
  then show "page_bit demo_alloc p \<longleftrightarrow> bit (0xfd :: u8) (p mod 8)"
    by (auto simp: page_bit_def byte_lin_def demo_alloc_def demo_boot_def new_all_allocated_def)
qed

lemma demo_alloc_end: "end_marked demo_alloc"
  by (simp add: end_marked_def demo_alloc_def demo_boot_def new_all_allocated_def num_pages_def num_bytes_def)

lemma demo_alloc_free: "free_pages demo_alloc = {1, 9}"
proof -
  have "\<forall>i \<in> set [0..<8]. bit (0xfd :: u8) i \<longleftrightarrow> i \<noteq> 1" by code_simp
  then have "bit (0xfd :: u8) i \<longleftrightarrow> i \<noteq> 1" if "i < 8" for i using that by simp
  moreover have "p mod 8 = 1 \<longleftrightarrow> p = 1 \<or> p = 9" if "p < 16" for p :: nat using that by presburger
  ultimately show ?thesis
    by (auto simp: free_pages_def demo_alloc_bits(1)[of 0] demo_alloc_bits(2))
qed

text \<open>C16: a run of allocations from a well-formed allocator always ends, hands out as many pages as are
  asked for or are free, never the same page twice, and only pages that were free and lie below the
  end of memory; it reports \<open>OutOfSpace\<close> only when nothing is free.\<close>

theorem allocations_are_distinct_free_pages:
  assumes "alloc_wf a" and "end_marked a"
  shows "\<exists>pas a'. allocs n a = Some (pas, a') \<and> distinct pas \<and> length pas = min n (card (free_pages a)) \<and>
           (\<forall>pa \<in> set pas. unat pa < unat (pa_end a) \<and> unat pa \<in> (\<lambda>p. p * alloc_page_size a) ` free_pages a)"
  by (rule allocs_spec[OF assms])

theorem allocations_are_distinct_free_pages_witness:
  "\<exists>pas a'. allocs 5 demo_alloc = Some (pas, a') \<and> distinct pas \<and> length pas = 2"
  using allocations_are_distinct_free_pages[OF demo_boot_wf(2) demo_alloc_end, of 5] demo_alloc_free by auto

text \<open>C17: after boot a page is free exactly when it lies in the available memory and in none of the
  ranges in use, for page-aligned ranges sorted by their start: no page of the kernel image or of the
  device tree is ever handed out, and no available page is lost; everything past the end of memory
  counts as allocated.\<close>

theorem boot_frees_exactly_unused_pages:
  assumes "alloc_wf a" and "alloc_page_size a = 2 ^ k" and "k < 64" and "\<forall>p < num_pages a. page_bit a p"
    and "unat (pa_end a) = max_bytes a" and "next_pa_to_scan a = 0"
    and "aligned a av" and "pend av \<le> pa_end a" and "0 < unat (pend av)" and "used_ok a used"
  shows "\<exists>a'. free_unused_ranges av used a = Some (Inr (), a') \<and> alloc_wf a' \<and> end_marked a' \<and>
           free_pages a' = {p. p < num_pages a \<and> in_range a av p \<and> (\<forall>r \<in> set used. \<not> in_range a r p)}"
  using free_unused_ranges_spec[OF assms] by (auto simp: free_pages_def)

theorem boot_frees_exactly_unused_pages_witness:
  "\<exists>a'. free_unused_ranges \<lparr>pstart = 0, pend = 0x8000\<rparr> [\<lparr>pstart = 0x1000, pend = 0x4000\<rparr>] demo_boot = Some (Inr (), a') \<and>
        free_pages a' = {0, 4, 5, 6, 7}"
proof -
  have sh: "alloc_page_size demo_boot = 2 ^ 12" "num_pages demo_boot = 16" "unat (pa_end demo_boot) = 65536"
    "next_pa_to_scan demo_boot = 0" "pa_end demo_boot = 65536" "alloc_page_size demo_boot = 4096"
    by (simp_all add: demo_boot_def new_all_allocated_def num_pages_def num_bytes_def)
  have bits: "page_bit demo_boot p" if "p < 16" for p
  proof -
    have "p div 8 = 0 \<or> p div 8 = 1" using that by auto
    moreover have "\<forall>i \<in> set [0..<8]. bit (0xff :: u8) i" by code_simp
    then have "bit (0xff :: u8) (p mod 8)" by simp
    ultimately show ?thesis
      by (auto simp: page_bit_def byte_lin_def demo_boot_def new_all_allocated_def bitmap_new_def)
  qed
  have mb: "max_bytes demo_boot = 65536" by (simp add: max_bytes_eq demo_boot_def new_all_allocated_def num_bytes_def)
  have "{p. p < 16 \<and> in_range demo_boot \<lparr>pstart = 0, pend = 0x8000\<rparr> p \<and> \<not> in_range demo_boot \<lparr>pstart = 0x1000, pend = 0x4000\<rparr> p}
      = {0, 4, 5, 6, 7}"
    by (auto simp: in_range_def sh)
  then show ?thesis
    using boot_frees_exactly_unused_pages[OF demo_boot_wf(1) sh(1), of "\<lparr>pstart = 0, pend = 0x8000\<rparr>"
        "[\<lparr>pstart = 0x1000, pend = 0x4000\<rparr>]"] bits
    by (auto simp: sh mb aligned_def used_ok_def)
qed

text \<open>C18: \<open>deallocate\<close> of an allocated page reports success and clears exactly one bit, but that bit is
  the page's bit index within the first byte of the bitmap: the page that becomes free is the page
  that was passed only when the page's own byte is that first byte.  Every other page stays allocated
  after its release, and another page, possibly in use, becomes free.\<close>

theorem deallocate_clears_first_byte:
  assumes "alloc_wf a" and "p < num_pages a" and "page_bit a p" and "p * alloc_page_size a < unat (pa_end a)"
  shows "\<exists>a'. deallocate (of_nat (p * alloc_page_size a)) a = Some (Inr (), a') \<and>
           free_pages a' = insert (cleared_page a p) (free_pages a) \<and>
           (cleared_page a p = p \<longleftrightarrow> p div 8 mod bitmap_size a = 0)"
proof -
  from deallocate_spec[OF assms] obtain a' where
    a': "deallocate (of_nat (p * alloc_page_size a)) a = Some (Inr (), a')" "num_pages a' = num_pages a"
        "\<forall>q < num_pages a. page_bit a' q \<longleftrightarrow> q \<noteq> cleared_page a p \<and> page_bit a q" by blast
  have "cleared_page a p \<le> p" unfolding cleared_page_def
    using mult_div_mod_eq[of 8 p] div_times_less_eq_dividend[of "p div 8" "bitmap_size a"] by linarith
  then have "free_pages a' = insert (cleared_page a p) (free_pages a)"
    using a'(2,3) assms(2) by (auto simp: free_pages_def)
  with a'(1) cleared_page_eq[of a p] show ?thesis by (intro exI[of _ a'] conjI)
qed

theorem deallocate_clears_first_byte_witness:
  "\<exists>a'. deallocate 0xa000 demo_alloc = Some (Inr (), a') \<and> free_pages a' = {1, 2, 9}"
proof -
  have "page_bit demo_alloc 10" by (simp add: demo_alloc_bits(2) bit_iff_odd)
  moreover have "alloc_page_size demo_alloc = 4096" "unat (pa_end demo_alloc) = 65536" "bitmap_size demo_alloc = 2"
    by (simp_all add: demo_alloc_def demo_boot_def new_all_allocated_def)
  ultimately show ?thesis
    using deallocate_clears_first_byte[OF demo_boot_wf(2), of 10] demo_alloc_free demo_alloc_bits(1)[of 0]
    by (auto simp: cleared_page_def)
qed

end
