(* ===== verification/Vm_Tables.thy ===== *)
theory Vm_Tables
  imports Page_Bitmap
begin

section \<open>Page tables (\<open>aarch64/src/vm.rs\<close>, \<open>aarch64/src/kmem.rs\<close>)\<close>

text \<open>
  A page-table entry is a record of the fields the \<open>bitstruct!\<close> declaration names; only the width of
  the address field (36 bits) matters to the code.  Physical memory is seen in two ways: a frame read
  as a page table (\<open>pt\<close>) and memory read as bytes (\<open>ram\<close>); the frames used as tables and the frames
  used as data are kept apart by the page allocator, whose state is part of the memory.  The kernel
  reaches a table of a walk through its recursive virtual address: \<open>hw_frame\<close> is the hardware walk of
  such an address from the live root, and \<open>None\<close> is the translation fault that would stop the kernel.
  A pointer to a table reachable at its KZERO offset is the table's physical address.
\<close>

definition KZERO :: u64 where
  "KZERO = 0xffff800000000000"

datatype page_size = Page4K | Page2M | Page1G

fun size_of :: "page_size \<Rightarrow> nat" where
  "size_of Page4K = PAGE_SIZE_4K"
| "size_of Page2M = PAGE_SIZE_2M"
| "size_of Page1G = PAGE_SIZE_1G"

datatype mair = Normal | Device

datatype access_permission = PrivRw | AllRw | PrivRo | AllRo

datatype shareable = Non | Unpredictable | Outer | Inner

record entry =
  valid :: bool
  page_or_table :: bool
  mair_index :: mair
  non_secure :: bool
  access_permission :: access_permission
  shareable :: shareable
  accessed :: bool
  addr :: "36 word"
  pxn :: bool
  uxn :: bool

definition entry_empty :: entry where
  "entry_empty = \<lparr>valid = False, page_or_table = False, mair_index = Normal, non_secure = False,
     access_permission = PrivRw, shareable = Non, accessed = False, addr = 0, pxn = False, uxn = False\<rparr>"

definition rw_kernel_data :: entry where
  "rw_kernel_data = entry_empty\<lparr>access_permission := PrivRw, shareable := Inner, accessed := True,
     uxn := True, pxn := True, mair_index := Normal, valid := True\<rparr>"

definition ro_kernel_data :: entry where
  "ro_kernel_data = entry_empty\<lparr>access_permission := PrivRo, shareable := Inner, accessed := True,
     uxn := True, pxn := True, mair_index := Normal, valid := True\<rparr>"

definition ro_kernel_text :: entry where
  "ro_kernel_text = entry_empty\<lparr>access_permission := PrivRo, shareable := Inner, accessed := True,
     uxn := True, pxn := False, mair_index := Normal, valid := True\<rparr>"

definition rw_device :: entry where
  "rw_device = entry_empty\<lparr>access_permission := PrivRw, shareable := Inner, accessed := True,
     uxn := True, pxn := True, mair_index := Device, valid := True\<rparr>"

definition rw_user_mmio :: entry where
  "rw_user_mmio = entry_empty\<lparr>access_permission := AllRw, shareable := Inner, accessed := True,
     uxn := True, pxn := True, mair_index := Device, valid := True\<rparr>"

definition ro_user_text :: entry where
  "ro_user_text = entry_empty\<lparr>access_permission := AllRo, shareable := Inner, accessed := True,
     uxn := False, pxn := True, mair_index := Normal, valid := True\<rparr>"

definition rw_user_data :: entry where
  "rw_user_data = entry_empty\<lparr>access_permission := AllRw, shareable := Inner, accessed := True,
     uxn := True, pxn := True, mair_index := Normal, valid := True\<rparr>"

definition with_phys_addr :: "entry \<Rightarrow> phys_addr \<Rightarrow> entry" where
  "with_phys_addr e pa = e\<lparr>addr := ucast (drop_bit 12 pa)\<rparr>"

definition phys_addr_of :: "entry \<Rightarrow> phys_addr" where
  "phys_addr_of e = push_bit 12 (ucast (addr e))"

datatype level = Level0 | Level1 | Level2 | Level3

definition is_table :: "entry \<Rightarrow> level \<Rightarrow> bool" where
  "is_table e l \<longleftrightarrow> page_or_table e \<and> l \<noteq> Level3"

fun next_level :: "level \<Rightarrow> level option" where
  "next_level Level0 = Some Level1"
| "next_level Level1 = Some Level2"
| "next_level Level2 = Some Level3"
| "next_level Level3 = None"

fun depth :: "level \<Rightarrow> usize" where
  "depth Level0 = 0"
| "depth Level1 = 1"
| "depth Level2 = 2"
| "depth Level3 = 3"

definition RECURSIVE_SLOT :: usize where
  "RECURSIVE_SLOT = 511"

fun va_index :: "u64 \<Rightarrow> level \<Rightarrow> usize" where
  "va_index va Level0 = unat (drop_bit 39 va AND 0x1ff)"
| "va_index va Level1 = unat (drop_bit 30 va AND 0x1ff)"
| "va_index va Level2 = unat (drop_bit 21 va AND 0x1ff)"
| "va_index va Level3 = unat (drop_bit 12 va AND 0x1ff)"

datatype root_type = User | Kernel

definition recursive_table_addr :: "root_type \<Rightarrow> u64 \<Rightarrow> level \<Rightarrow> u64" where
  "recursive_table_addr pgtype va lvl =
     (let indices_mask = 0x0000fffffffff000;
          indices = va AND indices_mask;
          slot = of_nat RECURSIVE_SLOT :: u64;
          shift = (case lvl of Level0 \<Rightarrow> 36 | Level1 \<Rightarrow> 27 | Level2 \<Rightarrow> 18 | Level3 \<Rightarrow> 9);
          recursive_indices =
            (case lvl of
               Level0 \<Rightarrow> push_bit 39 slot OR push_bit 30 slot OR push_bit 21 slot OR push_bit 12 slot
             | Level1 \<Rightarrow> push_bit 39 slot OR push_bit 30 slot OR push_bit 21 slot
             | Level2 \<Rightarrow> push_bit 39 slot OR push_bit 30 slot
             | Level3 \<Rightarrow> push_bit 39 slot);
          msbits = (case pgtype of Kernel \<Rightarrow> 0xffff000000000000 | User \<Rightarrow> 0)
      in msbits OR recursive_indices OR (drop_bit shift indices AND indices_mask))"

datatype page_table_error =
  AllocationFailed page_alloc_error | EntryIsNotTable | PhysRangeIsZero
  | PhysRangeIsNotOnPageBoundary | MappingRecursiveIndex

subsection \<open>Memory and the hardware walk\<close>

record memory =
  pt :: "phys_addr \<Rightarrow> usize \<Rightarrow> entry"
  ram :: "phys_addr \<Rightarrow> u8"
  pages :: page_alloc
  ttbr0 :: phys_addr
  ttbr1 :: phys_addr

definition root_page_table :: "memory \<Rightarrow> root_type \<Rightarrow> phys_addr" where
  "root_page_table m pgtype = (case pgtype of User \<Rightarrow> ttbr0 m | Kernel \<Rightarrow> ttbr1 m)"

definition hw_step :: "memory \<Rightarrow> phys_addr \<Rightarrow> usize \<Rightarrow> phys_addr option" where
  "hw_step m t i =
     (let e = pt m t i in if valid e \<and> page_or_table e then Some (phys_addr_of e) else None)"

definition hw_frame :: "memory \<Rightarrow> phys_addr \<Rightarrow> u64 \<Rightarrow> phys_addr option" where
  "hw_frame m root va =
     do { t1 \<leftarrow> hw_step m root (va_index va Level0);
          t2 \<leftarrow> hw_step m t1 (va_index va Level1);
          t3 \<leftarrow> hw_step m t2 (va_index va Level2);
          hw_step m t3 (va_index va Level3) }"

definition write_entry :: "phys_addr \<Rightarrow> usize \<Rightarrow> entry \<Rightarrow> memory \<Rightarrow> memory" where
  "write_entry t i e m = m\<lparr>pt := (pt m)(t := (pt m t)(i := e))\<rparr>"

definition clear_page :: "phys_addr \<Rightarrow> memory \<Rightarrow> memory" where
  "clear_page t m = m\<lparr>pt := (pt m)(t := (\<lambda>_. entry_empty))\<rparr>"

definition resolve_entry_mut :: "memory \<Rightarrow> root_type \<Rightarrow> u64 \<Rightarrow> level \<Rightarrow> phys_addr option" where
  "resolve_entry_mut m pgtype va lvl =
     hw_frame m (root_page_table m pgtype) (recursive_table_addr pgtype va lvl)"

definition generate_temp_recursive_address :: "phys_addr \<Rightarrow> entry" where
  "generate_temp_recursive_address t = (with_phys_addr rw_kernel_data t)\<lparr>page_or_table := True\<rparr>"

definition replace_recursive_entry :: "root_type \<Rightarrow> entry \<Rightarrow> memory \<Rightarrow> entry \<times> memory" where
  "replace_recursive_entry pgtype e m =
     (let live = root_page_table m pgtype in (pt m live 511, write_entry live 511 e m))"

definition write_recursive_entry :: "root_type \<Rightarrow> entry \<Rightarrow> memory \<Rightarrow> memory" where
  "write_recursive_entry pgtype e m = write_entry (root_page_table m pgtype) 511 e m"

definition allocate_physpage :: "memory \<Rightarrow> ((page_alloc_error + phys_addr) \<times> memory) option" where
  "allocate_physpage m = do { (r, a) \<leftarrow> allocate (pages m); Some (r, m\<lparr>pages := a\<rparr>) }"

subsection \<open>Mapping\<close>

type_synonym 'a vm_result = "((page_table_error + 'a) \<times> memory) option"

definition next_mut :: "root_type \<Rightarrow> level \<Rightarrow> u64 \<Rightarrow> phys_addr \<Rightarrow> memory \<Rightarrow> phys_addr vm_result" where
  "next_mut pgtype lvl va t m =
     (let index = va_index va lvl in
      if lvl = Level0 \<and> index = RECURSIVE_SLOT then Some (Inl MappingRecursiveIndex, m)
      else let e = pt m t index in
        if valid e \<and> \<not> is_table e lvl then Some (Inl EntryIsNotTable, m)
        else if valid e then
          do { nl \<leftarrow> next_level lvl; p \<leftarrow> resolve_entry_mut m pgtype va nl; Some (Inr p, m) }
        else
          do {
            (r, m1) \<leftarrow> allocate_physpage m;
            (case r of
               Inl err \<Rightarrow> Some (Inl (AllocationFailed err), m1)
             | Inr page_pa \<Rightarrow>
                 do {
                   let m2 = write_entry t index ((with_phys_addr rw_kernel_data page_pa)\<lparr>page_or_table := True\<rparr>) m1;
                   nl \<leftarrow> next_level lvl;
                   p \<leftarrow> resolve_entry_mut m2 pgtype va nl;
                   Some (Inr p, clear_page p m2)
                 })
          })"

definition and_then :: "'a vm_result \<Rightarrow> ('a \<Rightarrow> memory \<Rightarrow> 'b vm_result) \<Rightarrow> 'b vm_result" where
  "and_then x f =
     do { (r, m) \<leftarrow> x; (case r of Inl e \<Rightarrow> Some (Inl e, m) | Inr v \<Rightarrow> f v m) }"

text \<open>The slot of the leaf entry: the table and the index in it.\<close>

definition dest_entry :: "page_size \<Rightarrow> root_type \<Rightarrow> u64 \<Rightarrow> phys_addr \<Rightarrow> memory \<Rightarrow> (phys_addr \<times> usize) vm_result" where
  "dest_entry ps pgtype va root m =
     (case ps of
        Page4K \<Rightarrow>
          and_then (next_mut pgtype Level0 va root m) (\<lambda>t1 m1.
          and_then (next_mut pgtype Level1 va t1 m1) (\<lambda>t2 m2.
          and_then (next_mut pgtype Level2 va t2 m2) (\<lambda>t3 m3. Some (Inr (t3, va_index va Level3), m3))))
      | Page2M \<Rightarrow>
          and_then (next_mut pgtype Level0 va root m) (\<lambda>t1 m1.
          and_then (next_mut pgtype Level1 va t1 m1) (\<lambda>t2 m2. Some (Inr (t2, va_index va Level2), m2)))
      | Page1G \<Rightarrow>
          and_then (next_mut pgtype Level0 va root m) (\<lambda>t1 m1. Some (Inr (t1, va_index va Level1), m1)))"

definition map_to :: "entry \<Rightarrow> u64 \<Rightarrow> page_size \<Rightarrow> root_type \<Rightarrow> phys_addr \<Rightarrow> memory \<Rightarrow> unit vm_result" where
  "map_to e va ps pgtype root m =
     (let (old, m0) = replace_recursive_entry pgtype (generate_temp_recursive_address root) m in
      do {
        (dest, m1) \<leftarrow> dest_entry ps pgtype va root m0;
        (case dest of
           Inr (t, i) \<Rightarrow>
             do {
               let e' = (if ps = Page4K then e\<lparr>page_or_table := True\<rparr> else e);
               let m2 = write_entry t i e' m1;
               let written = pt m2 t i;
               assert_that (valid written \<and> phys_addr_of written = phys_addr_of e');
               Some (Inr (), write_recursive_entry pgtype old m2)
             }
         | Inl err \<Rightarrow> Some (Inl err, write_recursive_entry pgtype old m1))
      })"

datatype va_mapping = Addr u64 | Offset u64

fun va_map :: "va_mapping \<Rightarrow> phys_addr \<Rightarrow> u64" where
  "va_map (Addr va) pa = va"
| "va_map (Offset off) pa = pa + off"

fun map_pages ::
  "phys_addr list \<Rightarrow> u64 option \<Rightarrow> u64 \<Rightarrow> u64 \<Rightarrow> va_mapping \<Rightarrow> entry \<Rightarrow> page_size \<Rightarrow> root_type \<Rightarrow> phys_addr
     \<Rightarrow> memory \<Rightarrow> virt_range vm_result" where
  "map_pages [] startva endva currva vm e ps pgtype root m =
     Some (case startva of Some s \<Rightarrow> (Inr \<lparr>vstart = s, vend = endva\<rparr>, m) | None \<Rightarrow> (Inl PhysRangeIsZero, m))"
| "map_pages (pa # pas) startva endva currva vm e ps pgtype root m =
     do {
       (s', curr') \<leftarrow> (case startva of
          None \<Rightarrow> Some (va_map vm pa, va_map vm pa)
        | Some s \<Rightarrow> do { c \<leftarrow> uadd currva (of_nat (size_of ps)); Some (s, c) });
       end' \<leftarrow> uadd curr' (of_nat (size_of ps));
       and_then (map_to (with_phys_addr e pa) curr' ps pgtype root m)
         (\<lambda>_ m'. map_pages pas (Some s') end' curr' vm e ps pgtype root m')
     }"

definition map_phys_range ::
  "phys_range \<Rightarrow> va_mapping \<Rightarrow> entry \<Rightarrow> page_size \<Rightarrow> root_type \<Rightarrow> phys_addr \<Rightarrow> memory \<Rightarrow> virt_range vm_result" where
  "map_phys_range r vm e ps pgtype root m =
     (if unat (pstart r) mod size_of ps \<noteq> 0 \<or> unat (pend r) mod size_of ps \<noteq> 0
      then Some (Inl PhysRangeIsNotOnPageBoundary, m)
      else do {
        pas \<leftarrow> step_by_rounded r (of_nat (size_of ps));
        map_pages pas None 0 0 vm e ps pgtype root m
      })"

subsection \<open>The software walk of the syscall layer\<close>

fun leaf_walk :: "memory \<Rightarrow> u64 \<Rightarrow> level list \<Rightarrow> phys_addr \<Rightarrow> (entry option) option" where
  "leaf_walk m va [] t =
     (let e = pt m t (va_index va Level3) in Some (if valid e then Some e else None))"
| "leaf_walk m va (lvl # lvls) t =
     (let e = pt m t (va_index va lvl) in
      if \<not> valid e then Some None
      else if \<not> is_table e lvl then Some (Some e)
      else do { nl \<leftarrow> next_level lvl;
                t' \<leftarrow> resolve_entry_mut m User va nl;
                leaf_walk m va lvls t' })"

definition user_leaf_entry :: "memory \<Rightarrow> u64 \<Rightarrow> (entry option) option" where
  "user_leaf_entry m va = leaf_walk m va [Level0, Level1, Level2] (root_page_table m User)"

fun entry_user_ok :: "entry \<Rightarrow> bool \<Rightarrow> bool" where
  "entry_user_ok e for_write =
     (case access_permission e of AllRw \<Rightarrow> True | AllRo \<Rightarrow> \<not> for_write | PrivRw \<Rightarrow> False | PrivRo \<Rightarrow> False)"

text \<open>The pages of the range, in order: \<open>end\<close> is at most KZERO, so the page counter does not wrap.\<close>

fun pages_ok :: "memory \<Rightarrow> bool \<Rightarrow> u64 list \<Rightarrow> bool option" where
  "pages_ok m w [] = Some True"
| "pages_ok m w (p # ps) =
     do { e \<leftarrow> user_leaf_entry m p;
          (case e of
             Some e' \<Rightarrow> if entry_user_ok e' w then pages_ok m w ps else Some False
           | None \<Rightarrow> Some False) }"

definition user_range_ok :: "memory \<Rightarrow> u64 \<Rightarrow> nat \<Rightarrow> bool \<Rightarrow> bool option" where
  "user_range_ok m va len for_write =
     (case checked_add (unat va) len of
        None \<Rightarrow> Some False
      | Some e \<Rightarrow>
          if unat KZERO < e then Some False
          else if len = 0 then Some True
          else pages_ok m for_write (step_by (va AND NOT (of_nat PAGE_SIZE_4K - 1)) (of_nat e) PAGE_SIZE_4K))"

definition init_empty_root_page_table :: "phys_addr \<Rightarrow> memory \<Rightarrow> memory" where
  "init_empty_root_page_table t m =
     write_entry t 511 ((with_phys_addr rw_kernel_data t)\<lparr>page_or_table := True\<rparr>) m"

definition switch :: "phys_addr \<Rightarrow> root_type \<Rightarrow> memory \<Rightarrow> memory" where
  "switch t pgtype m = (case pgtype of User \<Rightarrow> m\<lparr>ttbr0 := t\<rparr> | Kernel \<Rightarrow> m\<lparr>ttbr1 := t\<rparr>)"

definition allocate_virtpage ::
  "phys_addr \<Rightarrow> entry \<Rightarrow> va_mapping \<Rightarrow> root_type \<Rightarrow> memory \<Rightarrow> ((page_alloc_error + u64) \<times> memory) option" where
  "allocate_virtpage root e vm pgtype m =
     do {
       (r, m1) \<leftarrow> allocate_physpage m;
       (case r of
          Inl err \<Rightarrow> Some (Inl err, m1)
        | Inr pa \<Rightarrow>
            do {
              range \<leftarrow> phys_with_pa_len pa (of_nat PAGE_SIZE_4K);
              (res, m2) \<leftarrow> map_phys_range range vm e Page4K pgtype root m1;
              Some (case res of Inr vr \<Rightarrow> (Inr (vstart vr), m2) | Inl _ \<Rightarrow> (Inl UnableToMap, m2))
            })
     }"

end
