(* ===== verification/Vm_Walk.thy ===== *)
theory Vm_Walk
  imports Vm_Tables "HOL-Library.Sublist"
begin

section \<open>What the page-table code guarantees\<close>

text \<open>
  The tables of an address space form a tree, apart from the self-pointer in slot 511 of each root:
  \<open>tbl\<close> follows a path of indices to a table, \<open>lookup\<close> finds the leaf entry of an address.  \<open>vm_inv\<close>
  says that no table frame is shared between two paths or two roots, that every table frame is
  allocated, and that every root has its self-pointer.  Under it the recursive address of a table is
  the table the walk is at, and mapping a page changes the leaf of that page in that address space
  and nothing else.
\<close>

subsection \<open>Index fields of recursive addresses\<close>

lemma idx_mask: "(0x1ff :: u64) = mask 9" "(0x0000fffffffff000 :: u64) = push_bit 12 (mask 36)"
  "of_nat RECURSIVE_SLOT = (mask 9 :: u64)" "(0xffff000000000000 :: u64) = push_bit 48 (mask 16)"
  by (simp_all add: mask_eq_exp_minus_1 RECURSIVE_SLOT_def push_bit_eq_mult)

definition va_field :: "nat \<Rightarrow> u64 \<Rightarrow> u64" where
  "va_field k va = take_bit 9 (drop_bit k va)"

lemma va_index_field:
  "va_index va Level0 = unat (va_field 39 va)" "va_index va Level1 = unat (va_field 30 va)"
  "va_index va Level2 = unat (va_field 21 va)" "va_index va Level3 = unat (va_field 12 va)"
  unfolding va_index.simps idx_mask(1) take_bit_eq_mask va_field_def by simp_all

lemma bit_va_field: "bit (va_field k va) n \<longleftrightarrow> n < 9 \<and> bit va (k + n)"
  by (simp add: va_field_def bit_take_bit_iff bit_drop_bit_eq)

lemma va_field_mask: "unat (mask 9 :: u64) = 511"
  by (simp add: mask_eq_exp_minus_1)

definition rta :: "root_type \<Rightarrow> u64 \<Rightarrow> u64 \<Rightarrow> nat \<Rightarrow> u64" where
  "rta ty slots va sh = (case ty of Kernel \<Rightarrow> push_bit 48 (mask 16) | User \<Rightarrow> 0) OR slots OR
      (drop_bit sh (va AND push_bit 12 (mask 36)) AND push_bit 12 (mask 36))"

lemma rta_eq:
  "recursive_table_addr ty va Level1 = rta ty (push_bit 39 (mask 9) OR push_bit 30 (mask 9) OR push_bit 21 (mask 9)) va 27"
  "recursive_table_addr ty va Level2 = rta ty (push_bit 39 (mask 9) OR push_bit 30 (mask 9)) va 18"
  "recursive_table_addr ty va Level3 = rta ty (push_bit 39 (mask 9)) va 9"
  unfolding recursive_table_addr_def Let_def idx_mask rta_def by simp_all

lemma bit_rta:
  "n < 48 \<Longrightarrow> bit (rta ty slots va sh) n \<longleftrightarrow> bit slots n \<or> (12 \<le> n \<and> n + sh < 48 \<and> bit va (n + sh))"
  by (cases ty) (auto simp: rta_def bit_simps ac_simps)

lemma rec_index:
  "va_field 39 (recursive_table_addr ty va Level1) = mask 9"
  "va_field 30 (recursive_table_addr ty va Level1) = mask 9"
  "va_field 21 (recursive_table_addr ty va Level1) = mask 9"
  "va_field 12 (recursive_table_addr ty va Level1) = va_field 39 va"
  "va_field 39 (recursive_table_addr ty va Level2) = mask 9"
  "va_field 30 (recursive_table_addr ty va Level2) = mask 9"
  "va_field 21 (recursive_table_addr ty va Level2) = va_field 39 va"
  "va_field 12 (recursive_table_addr ty va Level2) = va_field 30 va"
  "va_field 39 (recursive_table_addr ty va Level3) = mask 9"
  "va_field 30 (recursive_table_addr ty va Level3) = va_field 39 va"
  "va_field 21 (recursive_table_addr ty va Level3) = va_field 30 va"
  "va_field 12 (recursive_table_addr ty va Level3) = va_field 21 va"
  by (rule bit_word_eqI; auto simp: bit_va_field rta_eq bit_rta bit_simps)+

declare va_index.simps [simp del]

subsection \<open>Paths of tables\<close>

fun tbl :: "memory \<Rightarrow> phys_addr \<Rightarrow> usize list \<Rightarrow> phys_addr option" where
  "tbl m t [] = Some t"
| "tbl m t (i # is) = (case hw_step m t i of None \<Rightarrow> None | Some t' \<Rightarrow> tbl m t' is)"

lemma tbl_snoc: "tbl m t (is @ [i]) = (case tbl m t is of None \<Rightarrow> None | Some u \<Rightarrow> hw_step m u i)"
  by (induction "is" arbitrary: t) (auto split: option.splits)

lemma tbl_append: "tbl m t (p @ q) = (case tbl m t p of None \<Rightarrow> None | Some u \<Rightarrow> tbl m u q)"
  by (induction p arbitrary: t) (auto split: option.splits)

text \<open>The recursive addresses reach the tables of the walk, also of a root that is not live.\<close>

lemma recursive_resolves:
  assumes "hw_step m (root_page_table m ty) 511 = Some r" and "hw_step m r 511 = Some r"
  shows "resolve_entry_mut m ty va Level1 = tbl m r [va_index va Level0]"
    and "resolve_entry_mut m ty va Level2 = tbl m r [va_index va Level0, va_index va Level1]"
    and "resolve_entry_mut m ty va Level3 = tbl m r [va_index va Level0, va_index va Level1, va_index va Level2]"
  unfolding resolve_entry_mut_def hw_frame_def va_index_field rec_index va_field_mask
  using assms by (simp_all split: option.splits)

fun walk :: "memory \<Rightarrow> phys_addr \<Rightarrow> usize list \<Rightarrow> entry option" where
  "walk m t [] = None"
| "walk m t [i] = (if valid (pt m t i) then Some (pt m t i) else None)"
| "walk m t (i # j # is) =
     (let e = pt m t i in
      if \<not> valid e then None else if \<not> page_or_table e then Some e
      else walk m (phys_addr_of e) (j # is))"

definition idxs :: "u64 \<Rightarrow> usize list" where
  "idxs va = [va_index va Level0, va_index va Level1, va_index va Level2, va_index va Level3]"

definition lookup :: "memory \<Rightarrow> phys_addr \<Rightarrow> u64 \<Rightarrow> entry option" where
  "lookup m r va = walk m r (idxs va)"

definition ok_path :: "usize list \<Rightarrow> bool" where
  "ok_path is \<longleftrightarrow> length is \<le> 3 \<and> (is \<noteq> [] \<longrightarrow> hd is \<noteq> 511)"

definition frame_used :: "memory \<Rightarrow> phys_addr \<Rightarrow> bool" where
  "frame_used m t \<longleftrightarrow> (\<exists>f < num_pages (pages m). unat t = f * 4096 \<and> page_bit (pages m) f)"

definition pages_inv :: "memory \<Rightarrow> bool" where
  "pages_inv m \<longleftrightarrow> alloc_wf (pages m) \<and> end_marked (pages m) \<and> alloc_page_size (pages m) = 4096 \<and>
     max_bytes (pages m) \<le> 2 ^ 46"

definition tree_inv :: "phys_addr set \<Rightarrow> memory \<Rightarrow> bool" where
  "tree_inv R m \<longleftrightarrow>
     (\<forall>r \<in> R. \<forall>s \<in> R. \<forall>p q t. ok_path p \<and> ok_path q \<and> tbl m r p = Some t \<and> tbl m s q = Some t \<longrightarrow> r = s \<and> p = q) \<and>
     (\<forall>r \<in> R. \<forall>p t. ok_path p \<and> tbl m r p = Some t \<longrightarrow> frame_used m t)"

definition self_inv :: "phys_addr set \<Rightarrow> memory \<Rightarrow> bool" where
  "self_inv R m \<longleftrightarrow> (\<forall>r \<in> R. hw_step m r 511 = Some r)"

definition vm_inv :: "phys_addr set \<Rightarrow> memory \<Rightarrow> bool" where
  "vm_inv R m \<longleftrightarrow> pages_inv m \<and> tree_inv R m \<and> self_inv R m \<and> ttbr0 m \<in> R \<and> ttbr1 m \<in> R"

lemma tree_invD:
  assumes "tree_inv R m" and "r \<in> R" and "ok_path p" and "tbl m r p = Some t"
  shows "s \<in> R \<Longrightarrow> ok_path q \<Longrightarrow> tbl m s q = Some t \<Longrightarrow> s = r \<and> q = p" and "frame_used m t"
  using assms unfolding tree_inv_def by blast+

subsection \<open>Physical addresses in entries\<close>

lemma frame_addr:
  assumes "f * 4096 < 2 ^ 48"
  shows "unat (of_nat (f * 4096) :: u64) = f * 4096"
    and "phys_addr_of (with_phys_addr e (of_nat (f * 4096))) = of_nat (f * 4096)"
proof -
  let ?pa = "of_nat (f * 4096) :: u64"
  show un: "unat ?pa = f * 4096" by (rule unat_of_nat64) (use assms in simp)
  have "take_bit 12 ?pa = 0"
    unfolding word_unat_eq_iff unsigned_take_bit_eq un by (simp add: take_bit_eq_mod)
  then have low: "\<not> bit ?pa n" if "n < 12" for n
    using that by (metis bit_0_eq bit_take_bit_iff bot_apply bot_bool_def)
  have "take_bit 48 ?pa = ?pa"
    unfolding word_unat_eq_iff unsigned_take_bit_eq un using assms by (simp add: take_bit_eq_mod)
  then have high: "\<not> bit ?pa n" if "48 \<le> n" for n
    using that by (metis bit_take_bit_iff not_less)
  show "phys_addr_of (with_phys_addr e ?pa) = ?pa"
  proof (rule bit_word_eqI)
    fix n assume "n < LENGTH(64)"
    show "bit (phys_addr_of (with_phys_addr e ?pa)) n = bit ?pa n"
    proof (cases "12 \<le> n \<and> n < 48")
      case True
      then have "12 + (n - 12) = n" "n - 12 < 36" by linarith+
      with True show ?thesis by (simp add: phys_addr_of_def with_phys_addr_def bit_simps del: of_nat_mult)
    next
      case False
      then have "\<not> bit ?pa n" using low high by (meson not_less)
      moreover have "\<not> (12 \<le> n \<and> n - 12 < 36)" using False by linarith
      ultimately show ?thesis by (auto simp: phys_addr_of_def with_phys_addr_def bit_simps simp del: of_nat_mult)
    qed
  qed
qed

subsection \<open>A new, empty table\<close>

lemma frame_used_mono:
  assumes "num_pages (pages m') = num_pages (pages m)"
    and "\<And>f. f < num_pages (pages m) \<Longrightarrow> page_bit (pages m) f \<Longrightarrow> page_bit (pages m') f"
    and "frame_used m t"
  shows "frame_used m' t"
  using assms by (auto simp: frame_used_def)

definition free_frames :: "memory \<Rightarrow> nat" where
  "free_frames m = card (free_pages (pages m))"

lemma allocate_physpage_cases:
  assumes "pages_inv m"
  obtains (page) f m' where "allocate_physpage m = Some (Inr (of_nat (f * 4096)), m')" and "m' = m\<lparr>pages := pages m'\<rparr>"
      and "pages_inv m'" and "f * 4096 < 2 ^ 46" and "\<not> frame_used m (of_nat (f * 4096))"
      and "frame_used m' (of_nat (f * 4096))" and "\<And>t. frame_used m t \<Longrightarrow> frame_used m' t"
      and "free_frames m = Suc (free_frames m')"
  | (full) "allocate_physpage m = Some (Inl OutOfSpace, m)" and "free_frames m = 0"
proof -
  let ?a = "pages m"
  have inv: "alloc_wf ?a" "end_marked ?a" and ps: "alloc_page_size ?a = 4096" and mb: "max_bytes ?a \<le> 2 ^ 46"
    using assms by (simp_all add: pages_inv_def)
  from allocate_cases[OF inv] show thesis
  proof (elim disjE exE conjE)
    fix f a'
    assume al: "allocate ?a = Some (Inr (of_nat (f * alloc_page_size ?a)), a')" and wf: "alloc_wf a'" "end_marked a'"
      and sh: "pa_end a' = pa_end ?a" "alloc_page_size a' = alloc_page_size ?a" "num_pages a' = num_pages ?a"
      and f: "f < num_pages ?a" "f * alloc_page_size ?a < unat (pa_end ?a)" "\<not> page_bit ?a f"
      and bits: "\<forall>q < num_pages ?a. page_bit a' q \<longleftrightarrow> q = f \<or> page_bit ?a q"
    have lt: "f * 4096 < 2 ^ 46" using f(2) alloc_wfD(7)[OF inv(1)] mb ps by simp
    then have lt48: "f * 4096 < 2 ^ 48" by simp
    have mb': "max_bytes a' = max_bytes ?a" using sh(2,3) by (simp add: max_bytes_eq num_pages_def)
    note un = frame_addr(1)[OF lt48]
    show thesis
    proof (rule page[of f "m\<lparr>pages := a'\<rparr>"])
      show "allocate_physpage m = Some (Inr (of_nat (f * 4096)), m\<lparr>pages := a'\<rparr>)"
        using al by (simp add: allocate_physpage_def ps del: of_nat_mult)
      show "pages_inv (m\<lparr>pages := a'\<rparr>)" using wf sh ps mb mb' by (simp add: pages_inv_def)
      show "\<not> frame_used m (of_nat (f * 4096))" using f(3) un by (auto simp: frame_used_def simp del: of_nat_mult)
      show "frame_used (m\<lparr>pages := a'\<rparr>) (of_nat (f * 4096))"
        using f(1) un bits sh(3) by (auto simp: frame_used_def simp del: of_nat_mult)
      show "frame_used (m\<lparr>pages := a'\<rparr>) t" if "frame_used m t" for t
        by (rule frame_used_mono[OF _ _ that]) (use sh(3) bits in auto)
      have "free_pages ?a = insert f (free_pages a')" "f \<notin> free_pages a'"
        using f(1,3) bits sh(3) by (auto simp: free_pages_def)
      moreover have "finite (free_pages a')" by (simp add: free_pages_def)
      ultimately show "free_frames m = Suc (free_frames (m\<lparr>pages := a'\<rparr>))" by (simp add: free_frames_def)
    qed (use lt in simp_all)
  next
    assume "allocate ?a = Some (Inl OutOfSpace, ?a)" "\<forall>p < num_pages ?a. page_bit ?a p"
    then show thesis by (intro full) (simp_all add: allocate_physpage_def free_frames_def free_pages_def)
  qed
qed

text \<open>The page tables after entry \<open>i\<close> of table \<open>t\<close> was pointed at the empty frame \<open>f\<close>.\<close>

definition added :: "memory \<Rightarrow> phys_addr \<Rightarrow> usize \<Rightarrow> entry \<Rightarrow> phys_addr \<Rightarrow> memory \<Rightarrow> bool" where
  "added m t i e f m' \<longleftrightarrow> pt m' = (pt m)(t := (pt m t)(i := e), f := (\<lambda>_. entry_empty)) \<and>
     valid e \<and> page_or_table e \<and> phys_addr_of e = f"

lemma hw_step_empty: "pt m f = (\<lambda>_. entry_empty) \<Longrightarrow> hw_step m f i = None"
  by (simp add: hw_step_def entry_empty_def)

lemma hw_step_cong: "pt m' t i = pt m t i \<Longrightarrow> hw_step m' t i = hw_step m t i"
  by (simp add: hw_step_def)

lemma ok_path_snoc: "ok_path (q @ [i]) \<Longrightarrow> ok_path q"
  by (cases q) (auto simp: ok_path_def)

lemma tbl_added:
  assumes inv: "tree_inv R m" and r: "r \<in> R" "ok_path p" "tbl m r p = Some t"
    and f: "\<not> frame_used m f" and add: "added m t i e f m'" and s: "s \<in> R" and "ok_path q"
  shows "tbl m' s q = (if s = r \<and> prefix (p @ [i]) q then (if q = p @ [i] then Some f else None)
                       else tbl m s q)"
  using \<open>ok_path q\<close>
proof (induction q rule: rev_induct)
  case Nil
  then show ?case by simp
next
  case (snoc j q)
  note okq = ok_path_snoc[OF snoc.prems]
  have tf: "t \<noteq> f" using tree_invD(2)[OF inv r] f by auto
  have pt': "pt m' = (pt m)(t := (pt m t)(i := e), f := (\<lambda>_. entry_empty))" and
    e: "valid e" "page_or_table e" "phys_addr_of e = f" using add by (simp_all add: added_def)
  show ?case
  proof (cases "s = r \<and> prefix (p @ [i]) q")
    case True
    then have px: "prefix (p @ [i]) (q @ [j])" "q @ [j] \<noteq> p @ [i]" by (auto simp: prefix_def)
    have "tbl m' s (q @ [j]) = None"
      using snoc.IH[OF okq] True by (auto simp: tbl_snoc hw_step_empty pt')
    with px True show ?thesis by simp
  next
    case False
    then have IH: "tbl m' s q = tbl m s q" using snoc.IH[OF okq] by auto
    show ?thesis
    proof (cases "tbl m s q")
      case None
      have "\<not> (s = r \<and> q = p)" using None r(3) by auto
      then have "\<not> (s = r \<and> prefix (p @ [i]) (q @ [j]))" using False by (auto simp: prefix_snoc)
      with None IH show ?thesis by (auto simp: tbl_snoc)
    next
      case (Some u)
      have uf: "u \<noteq> f" using tree_invD(2)[OF inv s okq Some] f by auto
      show ?thesis
      proof (cases "u = t \<and> j = i")
        case True
        with tree_invD(1)[OF inv r s okq] Some have sq: "s = r" "q = p" by simp_all
        have "hw_step m' u j = Some f" using True e tf by (simp add: hw_step_def pt')
        with IH Some sq True show ?thesis by (simp add: tbl_snoc)
      next
        case ne: False
        have "\<not> (s = r \<and> q @ [j] = p @ [i])" using ne Some r(3) by auto
        then have "\<not> (s = r \<and> prefix (p @ [i]) (q @ [j]))" using False by (auto simp: prefix_snoc)
        moreover have "hw_step m' u j = hw_step m u j"
          by (rule hw_step_cong) (use ne uf in \<open>auto simp: pt'\<close>)
        ultimately show ?thesis using IH Some by (auto simp: tbl_snoc)
      qed
    qed
  qed
qed

lemma tree_inv_added:
  assumes inv: "tree_inv R m" and r: "r \<in> R" "ok_path p" "tbl m r p = Some t" and pi: "ok_path (p @ [i])"
    and f: "\<not> frame_used m f" "frame_used m' f" and add: "added m t i e f m'"
    and mono: "\<And>u. frame_used m u \<Longrightarrow> frame_used m' u"
  shows "tree_inv R m'"
proof -
  note tb = tbl_added[OF inv r f(1) add]
  have old: "tbl m s q = Some u" if "s \<in> R" "ok_path q" "tbl m' s q = Some u" "u \<noteq> f" for s q u
    using tb[OF that(1,2)] that(3,4) by (auto split: if_splits)
  have new: "s = r \<and> q = p @ [i]" if "s \<in> R" "ok_path q" "tbl m' s q = Some f" for s q
    using tb[OF that(1,2)] that(3) tree_invD(2)[OF inv that(1,2)] f(1) by (auto split: if_splits)
  show ?thesis unfolding tree_inv_def
  proof (intro conjI ballI allI impI; elim conjE)
    fix s s' q q' u assume a: "s \<in> R" "s' \<in> R" "ok_path q" "ok_path q'" "tbl m' s q = Some u" "tbl m' s' q' = Some u"
    show "s = s'"
      using new[of s q] new[of s' q'] old[of s q u] old[of s' q' u] tree_invD(1)[OF inv] a by metis
    show "q = q'"
      using new[of s q] new[of s' q'] old[of s q u] old[of s' q' u] tree_invD(1)[OF inv] a by metis
  next
    fix s q u assume a: "s \<in> R" "ok_path q" "tbl m' s q = Some u"
    show "frame_used m' u"
      using old[OF a] f(2) mono tree_invD(2)[OF inv a(1,2)] by (cases "u = f") auto
  qed
qed

lemma walk_added:
  assumes inv: "tree_inv R m" and r: "r \<in> R" "ok_path p" "tbl m r p = Some t" and len: "length p \<le> 2"
    and f: "\<not> frame_used m f" and add: "added m t i e f m'" and inval: "\<not> valid (pt m t i)"
    and s: "s \<in> R" and q: "ok_path q" "tbl m s q = Some u" and "length q + length is = 4"
    and "q = [] \<longrightarrow> hd is \<noteq> 511"
  shows "walk m' u is = walk m u is"
  using q assms(12,13)
proof (induction "is" arbitrary: q u)
  case Nil
  then show ?case by simp
next
  case (Cons j js)
  have pt': "pt m' = (pt m)(t := (pt m t)(i := e), f := (\<lambda>_. entry_empty))" and
    e: "valid e" "page_or_table e" "phys_addr_of e = f" using add by (simp_all add: added_def)
  have uf: "u \<noteq> f" using tree_invD(2)[OF inv s Cons.prems(1,2)] f by auto
  have tf: "t \<noteq> f" using tree_invD(2)[OF inv r] f by auto
  show ?case
  proof (cases "u = t \<and> j = i")
    case True
    with tree_invD(1)[OF inv r s Cons.prems(1)] Cons.prems(2) have "q = p" by simp
    with len Cons.prems(3) obtain k ks where js: "js = k # ks" by (cases js) auto
    have "walk m' f (k # ks) = None"
      by (cases ks) (simp_all add: pt' entry_empty_def)
    with True inval e tf show ?thesis by (simp add: js pt')
  next
    case False
    have same: "pt m' u j = pt m u j" using False uf by (auto simp: pt')
    show ?thesis
    proof (cases js)
      case Nil
      then show ?thesis by (simp add: same)
    next
      case (Cons k ks)
      have "walk m' (phys_addr_of (pt m u j)) js = walk m (phys_addr_of (pt m u j)) js"
        if "valid (pt m u j)" "page_or_table (pt m u j)"
      proof (rule Cons.IH)
        show "ok_path (q @ [j])"
          using Cons.prems \<open>js = k # ks\<close> by (cases q) (auto simp: ok_path_def)
        show "tbl m s (q @ [j]) = Some (phys_addr_of (pt m u j))"
          using Cons.prems(2) that by (simp add: tbl_snoc hw_step_def)
      qed (use Cons.prems(3) in auto)
      then show ?thesis by (simp add: \<open>js = k # ks\<close> same Let_def)
    qed
  qed
qed

lemma lookup_added:
  assumes "tree_inv R m" and "r \<in> R" "ok_path p" "tbl m r p = Some t" and "length p \<le> 2"
    and "\<not> frame_used m f" and "added m t i e f m'" and "\<not> valid (pt m t i)"
    and "s \<in> R" and "va_index va Level0 \<noteq> 511"
  shows "lookup m' s va = lookup m s va"
  unfolding lookup_def
  by (rule walk_added[OF assms(1-9), of "[]"]) (use assms(10) in \<open>auto simp: ok_path_def idxs_def\<close>)

text \<open>Writing a leaf slot of a level-3 table changes the addresses of that slot only.\<close>

lemma tbl_leaf_write:
  assumes inv: "tree_inv R m" and r: "r \<in> R" "ok_path p" "tbl m r p = Some t" and len: "length p = 3"
    and s: "s \<in> R" and "ok_path q"
  shows "tbl (write_entry t i e m) s q = tbl m s q"
  using \<open>ok_path q\<close>
proof (induction q rule: rev_induct)
  case (snoc j q)
  note okq = ok_path_snoc[OF snoc.prems]
  have "u \<noteq> t" if "tbl m s q = Some u" for u
    using tree_invD(1)[OF inv r s okq] that len snoc.prems by (auto simp: ok_path_def)
  then show ?case using snoc.IH[OF okq]
    by (auto simp: tbl_snoc write_entry_def hw_step_def split: option.splits)
qed simp

lemma walk_leaf_write:
  assumes inv: "tree_inv R m" and r: "r \<in> R" "ok_path p" "tbl m r p = Some t" and len: "length p = 3"
    and e: "valid e" and s: "s \<in> R" and q: "ok_path q" "tbl m s q = Some u" and "length q + length is = 4"
    and "q = [] \<longrightarrow> hd is \<noteq> 511"
  shows "walk (write_entry t i e m) u is = (if s = r \<and> q @ is = p @ [i] then Some e else walk m u is)"
  using q assms(10,11)
proof (induction "is" arbitrary: q u)
  case Nil
  then show ?case by (simp add: ok_path_def)
next
  case (Cons j js)
  let ?m = "write_entry t i e m"
  show ?case
  proof (cases js)
    case Nil
    then have "length q = 3" using Cons.prems(3) by simp
    then have "(s = r \<and> q @ [j] = p @ [i]) = (u = t \<and> j = i)"
      using tree_invD(1)[OF inv r s Cons.prems(1)] Cons.prems(2) r(3) by auto
    moreover have "walk ?m u [j] = (if u = t \<and> j = i then Some e else walk m u [j])"
      using e by (simp add: write_entry_def)
    ultimately show ?thesis unfolding Nil by metis
  next
    case (Cons k ks)
    then have "length q \<noteq> 3" using Cons.prems(3) by simp
    then have "u \<noteq> t" using tree_invD(1)[OF inv r s Cons.prems(1)] Cons.prems(2) len by auto
    then have same: "pt ?m u j = pt m u j" by (simp add: write_entry_def)
    have IH: "walk ?m (phys_addr_of (pt m u j)) js =
        (if s = r \<and> (q @ [j]) @ js = p @ [i] then Some e else walk m (phys_addr_of (pt m u j)) js)"
      if "valid (pt m u j)" "page_or_table (pt m u j)"
    proof (rule Cons.IH)
      show "ok_path (q @ [j])"
        using Cons.prems \<open>js = k # ks\<close> by (cases q) (auto simp: ok_path_def)
      show "tbl m s (q @ [j]) = Some (phys_addr_of (pt m u j))"
        using Cons.prems(2) that by (simp add: tbl_snoc hw_step_def)
    qed (use Cons.prems(3) in auto)
    have tab: "valid (pt m u j) \<and> page_or_table (pt m u j)" if "s = r" "q @ j # js = p @ [i]"
    proof -
      have "p = butlast (q @ j # js)" by (simp only: that(2) butlast_snoc)
      then have "p = (q @ [j]) @ butlast js" by (simp add: butlast_append \<open>js = k # ks\<close>)
      then have "tbl m r (q @ [j]) \<noteq> None"
        using r(3) tbl_append[of m r "q @ [j]" "butlast js"] by (metis option.distinct(1) option.simps(4))
      then have "hw_step m u j \<noteq> None" using Cons.prems(2) that(1) by (simp add: tbl_snoc)
      then show ?thesis by (simp add: hw_step_def Let_def split: if_splits)
    qed
    have w1: "walk ?m u (j # js) = (if \<not> valid (pt m u j) then None
        else if \<not> page_or_table (pt m u j) then Some (pt m u j) else walk ?m (phys_addr_of (pt m u j)) js)"
      by (simp add: \<open>js = k # ks\<close> same Let_def)
    have w2: "walk m u (j # js) = (if \<not> valid (pt m u j) then None
        else if \<not> page_or_table (pt m u j) then Some (pt m u j) else walk m (phys_addr_of (pt m u j)) js)"
      by (simp add: \<open>js = k # ks\<close> Let_def)
    show ?thesis
    proof (cases "s = r \<and> q @ j # js = p @ [i]")
      case True
      then show ?thesis unfolding w1 using tab IH by simp
    next
      case False
      then have "walk ?m u (j # js) = walk m u (j # js)" unfolding w1 w2 using IH
        by (cases "s = r") simp_all
      with False show ?thesis by metis
    qed
  qed
qed

lemma tbl_write:
  assumes inv: "tree_inv R m" and r: "r \<in> R" "ok_path p" "tbl m r p = Some t"
    and s: "s \<in> R" and "ok_path q" and "\<not> (s = r \<and> prefix (p @ [i]) q)"
  shows "tbl (write_entry t i e m) s q = tbl m s q"
  using assms(6,7)
proof (induction q rule: rev_induct)
  case (snoc j q)
  note okq = ok_path_snoc[OF snoc.prems(1)]
  have np: "\<not> (s = r \<and> prefix (p @ [i]) q)" using snoc.prems(2) by (auto simp: prefix_snoc)
  have "\<not> (u = t \<and> j = i)" if "tbl m s q = Some u" for u
    using tree_invD(1)[OF inv r s okq] that snoc.prems(2) by (auto simp: prefix_snoc)
  then show ?case using snoc.IH[OF okq np]
    by (auto simp: tbl_snoc write_entry_def hw_step_def split: option.splits)
qed simp

text \<open>A write to slot 511 of a root is invisible outside the recursive region.\<close>

lemma tbl_slot511:
  assumes inv: "tree_inv R m" and r: "r \<in> R" and s: "s \<in> R" and "ok_path q"
  shows "tbl (write_entry r 511 e m) s q = tbl m s q"
  by (rule tbl_write[OF inv r _ _ s assms(4), of "[]"]) (use assms(4) in \<open>auto simp: ok_path_def prefix_def\<close>)

lemma walk_same:
  assumes same: "\<And>q u j. ok_path q \<Longrightarrow> tbl m s q = Some u \<Longrightarrow> (q = [] \<longrightarrow> j \<noteq> 511) \<Longrightarrow> pt m' u j = pt m u j"
    and "ok_path q" "tbl m s q = Some u" and "length q + length is = 4" and "q = [] \<longrightarrow> hd is \<noteq> 511"
  shows "walk m' u is = walk m u is"
  using assms(2-5)
proof (induction "is" arbitrary: q u)
  case Nil
  then show ?case by simp
next
  case (Cons j js)
  have eq: "pt m' u j = pt m u j" using same[OF Cons.prems(1,2)] Cons.prems(4) by simp
  show ?case
  proof (cases js)
    case Nil
    then show ?thesis by (simp add: eq)
  next
    case (Cons k ks)
    have "walk m' (phys_addr_of (pt m u j)) js = walk m (phys_addr_of (pt m u j)) js"
      if "valid (pt m u j)" "page_or_table (pt m u j)"
    proof (rule Cons.IH)
      show "ok_path (q @ [j])"
        using Cons.prems \<open>js = k # ks\<close> by (cases q) (auto simp: ok_path_def)
      show "tbl m s (q @ [j]) = Some (phys_addr_of (pt m u j))"
        using Cons.prems(2) that by (simp add: tbl_snoc hw_step_def)
    qed (use Cons.prems(3) in auto)
    then show ?thesis by (simp add: \<open>js = k # ks\<close> eq Let_def)
  qed
qed

lemma lookup_slot511:
  assumes inv: "tree_inv R m" and r: "r \<in> R" and s: "s \<in> R" and va: "va_index va Level0 \<noteq> 511"
  shows "lookup (write_entry r 511 e m) s va = lookup m s va"
  unfolding lookup_def
proof (rule walk_same[where q = "[]" and s = s])
  fix q u j assume q: "ok_path q" "tbl m s q = Some u" "q = [] \<longrightarrow> j \<noteq> (511::nat)"
  have "tbl m r [] = Some r" "ok_path []" by (simp_all add: ok_path_def)
  from tree_invD(1)[OF inv r this(2,1) s q(1)] q(2,3) have "u = r \<Longrightarrow> j \<noteq> 511" by blast
  then show "pt (write_entry r 511 e m) u j = pt m u j" by (cases "u = r") (simp_all add: write_entry_def)
next
  show "[] = [] \<longrightarrow> hd (idxs va) \<noteq> 511" using va by (simp add: idxs_def)
qed (simp_all add: ok_path_def idxs_def)

lemma tree_inv_cong:
  assumes "tree_inv R m" and "\<And>s q. s \<in> R \<Longrightarrow> ok_path q \<Longrightarrow> tbl m' s q = tbl m s q"
    and "\<And>t. frame_used m t \<Longrightarrow> frame_used m' t"
  shows "tree_inv R m'"
  using assms unfolding tree_inv_def by (metis (no_types, lifting))

lemma tree_inv_slot511:
  assumes "tree_inv R m" and "r \<in> R"
  shows "tree_inv R (write_entry r 511 e m)"
  by (rule tree_inv_cong[OF assms(1) tbl_slot511[OF assms]])
    (simp_all add: frame_used_def write_entry_def)

subsection \<open>One level of the walk\<close>

definition fresh_tables :: "phys_addr set \<Rightarrow> memory \<Rightarrow> memory \<Rightarrow> bool" where
  "fresh_tables R m m' \<longleftrightarrow>
     (\<forall>s \<in> R. \<forall>q t. ok_path q \<and> tbl m' s q = Some t \<longrightarrow> tbl m s q = Some t \<or> \<not> frame_used m t)"

lemma fresh_tables_trans:
  assumes "fresh_tables R m m1" "fresh_tables R m1 m2" "\<And>t. frame_used m t \<Longrightarrow> frame_used m1 t"
  shows "fresh_tables R m m2"
  using assms unfolding fresh_tables_def by blast

definition preserved :: "phys_addr set \<Rightarrow> memory \<Rightarrow> memory \<Rightarrow> bool" where
  "preserved R m m' \<longleftrightarrow> fresh_tables R m m' \<and> pages_inv m' \<and> tree_inv R m' \<and> ttbr0 m' = ttbr0 m \<and> ttbr1 m' = ttbr1 m \<and>
     ram m' = ram m \<and> (\<forall>s \<in> R. pt m' s 511 = pt m s 511) \<and> (\<forall>t. frame_used m t \<longrightarrow> frame_used m' t) \<and>
     (\<forall>s \<in> R. \<forall>va. va_index va Level0 \<noteq> 511 \<longrightarrow> lookup m' s va = lookup m s va)"

lemma preserved_refl: "pages_inv m \<Longrightarrow> tree_inv R m \<Longrightarrow> preserved R m m"
  by (simp add: preserved_def fresh_tables_def)

lemma preserved_trans: "preserved R m m1 \<Longrightarrow> preserved R m1 m2 \<Longrightarrow> preserved R m m2"
  using fresh_tables_trans[of R m m1 m2] by (simp add: preserved_def)

definition walking :: "phys_addr set \<Rightarrow> root_type \<Rightarrow> phys_addr \<Rightarrow> memory \<Rightarrow> bool" where
  "walking R ty r m \<longleftrightarrow> pages_inv m \<and> tree_inv R m \<and> r \<in> R \<and> root_page_table m ty \<in> R \<and>
     hw_step m (root_page_table m ty) 511 = Some r \<and> hw_step m r 511 = Some r"

lemma walking_preserved: "walking R ty r m \<Longrightarrow> preserved R m m' \<Longrightarrow> walking R ty r m'"
  by (auto simp: walking_def preserved_def root_page_table_def hw_step_def split: root_type.splits)

lemma take_idxs: "lvl \<noteq> Level3 \<Longrightarrow> take (Suc (depth lvl)) (idxs va) = take (depth lvl) (idxs va) @ [va_index va lvl]"
  by (cases lvl) (simp_all add: idxs_def)

lemma ok_path_idxs: "va_index va Level0 \<noteq> 511 \<Longrightarrow> n \<le> 3 \<Longrightarrow> ok_path (take n (idxs va))"
  by (cases n) (auto simp: ok_path_def idxs_def)

lemma resolve_next:
  assumes "hw_step m (root_page_table m ty) 511 = Some r" "hw_step m r 511 = Some r" and "lvl \<noteq> Level3"
  obtains nl where "next_level lvl = Some nl"
    and "resolve_entry_mut m ty va nl = tbl m r (take (Suc (depth lvl)) (idxs va))"
  using assms(3) that recursive_resolves[OF assms(1,2)] by (cases lvl) (auto simp: idxs_def)

lemma walk_tbl:
  assumes "tbl m r p = Some t" and "q \<noteq> []"
  shows "walk m r (p @ q) = walk m t q"
  using assms
proof (induction p arbitrary: r)
  case (Cons i p)
  then obtain u where u: "hw_step m r i = Some u" "tbl m u p = Some t" by (auto split: option.splits)
  then have "walk m r (i # p @ q) = walk m u (p @ q)"
    using Cons.prems(2) by (cases "p @ q") (auto simp: hw_step_def Let_def split: if_splits)
  with Cons.IH[OF u(2) Cons.prems(2)] show ?case by simp
qed simp

text \<open>The address lies inside a block mapping of a level above the last.\<close>

definition in_block :: "memory \<Rightarrow> phys_addr \<Rightarrow> u64 \<Rightarrow> bool" where
  "in_block m r va \<longleftrightarrow> (\<exists>b. lookup m r va = Some b \<and> \<not> page_or_table b)"

lemma next_mut_spec:
  assumes w: "walking R ty r m" and lvl: "lvl \<noteq> Level3" and va: "va_index va Level0 \<noteq> 511"
    and t: "tbl m r (take (depth lvl) (idxs va)) = Some t"
  obtains (ok) t' m' where "next_mut ty lvl va t m = Some (Inr t', m')" and "preserved R m m'"
      and "tbl m' r (take (Suc (depth lvl)) (idxs va)) = Some t'" and "free_frames m \<le> Suc (free_frames m')"
  | (err) e m' where "next_mut ty lvl va t m = Some (Inl e, m')" and "preserved R m m'"
      and "in_block m r va \<or> free_frames m = 0"
proof -
  let ?i = "va_index va lvl" and ?p = "take (depth lvl) (idxs va)"
  have inv: "tree_inv R m" "pages_inv m" and r: "r \<in> R" and liveR: "root_page_table m ty \<in> R"
    and live: "hw_step m (root_page_table m ty) 511 = Some r" "hw_step m r 511 = Some r"
    using w by (simp_all add: walking_def)
  have dep: "depth lvl \<le> 2" using lvl by (cases lvl) simp_all
  have p: "ok_path ?p" and pi: "ok_path (?p @ [?i])"
    using ok_path_idxs[OF va, of "depth lvl"] ok_path_idxs[OF va, of "Suc (depth lvl)"] dep
    by (simp_all add: take_idxs[OF lvl])
  have nr: "\<not> (lvl = Level0 \<and> ?i = RECURSIVE_SLOT)" using va by (auto simp: RECURSIVE_SLOT_def)
  let ?e = "pt m t ?i"
  show thesis
  proof (cases "valid ?e")
    case True
    show thesis
    proof (cases "is_table ?e lvl")
      case False
      with True nr have "next_mut ty lvl va t m = Some (Inl EntryIsNotTable, m)" by (simp add: next_mut_def Let_def)
      moreover have "in_block m r va"
      proof -
        have "lookup m r va = walk m t (drop (depth lvl) (idxs va))"
          unfolding lookup_def using walk_tbl[OF t, of "drop (depth lvl) (idxs va)"] dep by (simp add: idxs_def)
        also have "\<dots> = Some ?e"
          using True False lvl by (cases lvl) (simp_all add: idxs_def is_table_def Let_def)
        finally show ?thesis using False lvl by (simp add: in_block_def is_table_def)
      qed
      ultimately show thesis by (intro err[OF _ preserved_refl[OF inv(2,1)]]) simp_all
    next
      case tab: True
      from resolve_next[OF live lvl] obtain nl where
        nl: "next_level lvl = Some nl" "resolve_entry_mut m ty va nl = tbl m r (take (Suc (depth lvl)) (idxs va))" .
      have "tbl m r (?p @ [?i]) = Some (phys_addr_of ?e)"
        using True tab t by (simp add: tbl_snoc hw_step_def is_table_def)
      then have ch: "tbl m r (take (Suc (depth lvl)) (idxs va)) = Some (phys_addr_of ?e)"
        by (simp add: take_idxs[OF lvl])
      then have "next_mut ty lvl va t m = Some (Inr (phys_addr_of ?e), m)"
        using True tab nr nl by (simp add: next_mut_def Let_def)
      then show thesis by (rule ok[OF _ preserved_refl[OF inv(2,1)] ch]) simp
    qed
  next
    case False
    from inv(2) show thesis
    proof (cases rule: allocate_physpage_cases)
      case full
      with False nr have "next_mut ty lvl va t m = Some (Inl (AllocationFailed OutOfSpace), m)"
        by (simp add: next_mut_def Let_def)
      then show thesis by (rule err[OF _ preserved_refl[OF inv(2,1)]]) (simp add: full(2))
    next
      case (page f m1)
      let ?f = "of_nat (f * 4096) :: u64"
      let ?e' = "(with_phys_addr rw_kernel_data ?f)\<lparr>page_or_table := True\<rparr>"
      define m2 where "m2 = write_entry t ?i ?e' m1"
      define m3 where "m3 = clear_page ?f m2"
      have pa: "phys_addr_of ?e' = ?f" using page(4) frame_addr(2)[of f rw_kernel_data]
        by (simp add: phys_addr_of_def with_phys_addr_def del: of_nat_mult)
      have vt: "valid ?e'" "page_or_table ?e'" by (simp_all add: with_phys_addr_def rw_kernel_data_def)
      have pt1: "pt m1 = pt m" by (subst page(2)) simp
      have add: "added m t ?i ?e' ?f m3"
        using pa vt by (simp add: added_def m3_def m2_def clear_page_def write_entry_def pt1 del: of_nat_mult)
      have inv1: "tree_inv R m3"
        by (rule tree_inv_added[OF inv(1) r p t pi page(5) _ add])
          (use page(6,7) in \<open>simp_all add: m3_def m2_def clear_page_def write_entry_def frame_used_def del: of_nat_mult\<close>)
      have sf: "s \<noteq> ?f" if "s \<in> R" for s
        using tree_invD(2)[OF inv(1) that, of "[]" s] page(5) by (auto simp: ok_path_def simp del: of_nat_mult)
      have st: "\<not> (s = t \<and> ?i = 511)" if "s \<in> R" for s
      proof
        assume a: "s = t \<and> ?i = 511"
        then have "s = r \<and> [] = ?p" using tree_invD(1)[OF inv(1) r p t that, of "[]"] by (simp add: ok_path_def)
        then have "lvl = Level0" by (cases lvl) (simp_all add: idxs_def)
        with a va show False by simp
      qed
      have slot: "pt m3 s 511 = pt m s 511" "pt m2 s 511 = pt m s 511" if "s \<in> R" for s
        using sf[OF that] st[OF that] by (auto simp: m3_def m2_def clear_page_def write_entry_def pt1 simp del: of_nat_mult)
      have pres: "preserved R m m3"
        unfolding preserved_def
      proof (intro conjI ballI allI impI)
        show "fresh_tables R m m3" unfolding fresh_tables_def
        proof (intro ballI allI impI; elim conjE)
          fix s q u assume a: "s \<in> R" "ok_path q" "tbl m3 s q = Some u"
          from tbl_added[OF inv(1) r p t page(5) add a(1,2)] a(3) page(5)
          show "tbl m s q = Some u \<or> \<not> frame_used m u" by (auto split: if_splits simp del: of_nat_mult)
        qed
        show "pages_inv m3" using page(3) by (simp add: pages_inv_def m3_def m2_def clear_page_def write_entry_def)
        show "lookup m3 s v = lookup m s v" if "s \<in> R" "va_index v Level0 \<noteq> 511" for s v
          by (rule lookup_added[OF inv(1) r p t _ page(5) add False that]) (use dep in simp)
        show "frame_used m3 u" if "frame_used m u" for u
          using page(7)[OF that] by (simp add: m3_def m2_def clear_page_def write_entry_def frame_used_def)
        have "ttbr0 m1 = ttbr0 m" "ttbr1 m1 = ttbr1 m" "ram m1 = ram m" by (subst page(2), simp)+
        then show "ttbr0 m3 = ttbr0 m" "ttbr1 m3 = ttbr1 m" "ram m3 = ram m"
          by (simp_all add: m3_def m2_def clear_page_def write_entry_def)
      qed (use inv1 slot in auto)
      have tbl3: "tbl m3 r (?p @ [?i]) = Some ?f"
        using tbl_added[OF inv(1) r p t page(5) add r pi] by simp
      have "tbl m2 r (?p @ [?i]) = Some ?f"
      proof -
        have "tbl (write_entry t ?i ?e' m) r ?p = tbl m r ?p"
          by (rule tbl_write[OF inv(1) r p t r p]) auto
        moreover have "tbl m2 r q = tbl (write_entry t ?i ?e' m) r q" for q
        proof -
          have "pt m2 = pt (write_entry t ?i ?e' m)" by (simp add: m2_def write_entry_def pt1)
          then have "hw_step m2 = hw_step (write_entry t ?i ?e' m)" by (simp add: hw_step_def fun_eq_iff)
          then show ?thesis by (induction q arbitrary: r) (simp_all split: option.split)
        qed
        ultimately have "tbl m2 r ?p = Some t" using t by simp
        moreover have "hw_step m2 t ?i = Some ?f"
          using pa vt by (simp add: hw_step_def m2_def write_entry_def Let_def del: of_nat_mult)
        ultimately show ?thesis by (simp add: tbl_snoc)
      qed
      then have "tbl m2 r (take (Suc (depth lvl)) (idxs va)) = Some ?f" by (simp only: take_idxs[OF lvl])
      moreover have "root_page_table m2 ty = root_page_table m ty"
      proof -
        have "ttbr0 m1 = ttbr0 m" "ttbr1 m1 = ttbr1 m" by (subst page(2), simp)+
        then show ?thesis by (simp add: root_page_table_def m2_def write_entry_def split: root_type.split)
      qed
      then have "hw_step m2 (root_page_table m2 ty) 511 = Some r" "hw_step m2 r 511 = Some r"
        using live hw_step_cong[OF slot(2)] liveR r by simp_all
      from resolve_next[OF this lvl] obtain nl where
        "next_level lvl = Some nl" "resolve_entry_mut m2 ty va nl = tbl m2 r (take (Suc (depth lvl)) (idxs va))" .
      ultimately have "next_mut ty lvl va t m = Some (Inr ?f, m3)"
        using False nr page(1) by (simp add: next_mut_def Let_def m2_def[symmetric] m3_def del: of_nat_mult)
      then show thesis
      proof (rule ok[OF _ pres])
        show "tbl m3 r (take (Suc (depth lvl)) (idxs va)) = Some ?f" using tbl3 by (simp only: take_idxs[OF lvl])
        show "free_frames m \<le> Suc (free_frames m3)"
          using page(8) by (simp add: m3_def m2_def clear_page_def write_entry_def free_frames_def)
      qed
    qed
  qed
qed

subsection \<open>Mapping one page\<close>

lemma used_frame_addr:
  assumes "pages_inv m" and "frame_used m t"
  shows "phys_addr_of (with_phys_addr e t) = t"
proof -
  from assms(2) obtain f where f: "f < num_pages (pages m)" "unat t = f * 4096"
    unfolding frame_used_def by blast
  have "f * 4096 < max_bytes (pages m)"
    using f(1) assms(1) by (simp add: pages_inv_def max_bytes_eq num_pages_def)
  then have lt: "f * 4096 < 2 ^ 48" using assms(1) by (simp add: pages_inv_def)
  have "t = of_nat (f * 4096)" using f(2) frame_addr(1)[OF lt] by (simp only: word_unat_eq_iff)
  then show ?thesis using frame_addr(2)[OF lt] by (simp only:)
qed

lemma temp_entry:
  assumes "pages_inv m" and "frame_used m t"
  shows "valid (generate_temp_recursive_address t)" "page_or_table (generate_temp_recursive_address t)"
    and "phys_addr_of (generate_temp_recursive_address t) = t"
  using used_frame_addr[OF assms, of rw_kernel_data]
  by (simp_all add: generate_temp_recursive_address_def with_phys_addr_def rw_kernel_data_def phys_addr_of_def)

lemma vm_invD:
  assumes "vm_inv R m"
  shows "pages_inv m" "tree_inv R m" "self_inv R m" "root_page_table m ty \<in> R"
    "r \<in> R \<Longrightarrow> frame_used m r" "r \<in> R \<Longrightarrow> hw_step m r 511 = Some r"
  using assms tree_invD(2)[of R m r "[]" r]
  by (auto simp: vm_inv_def self_inv_def ok_path_def root_page_table_def split: root_type.split)

lemma write_entry_sel [simp]:
  "ttbr0 (write_entry t i e m) = ttbr0 m" "ttbr1 (write_entry t i e m) = ttbr1 m"
  "ram (write_entry t i e m) = ram m" "pages (write_entry t i e m) = pages m"
  "root_page_table (write_entry t i e m) ty = root_page_table m ty"
  "frame_used (write_entry t i e m) u = frame_used m u"
  "pages_inv (write_entry t i e m) = pages_inv m"
  by (simp_all add: write_entry_def root_page_table_def frame_used_def pages_inv_def split: root_type.split)

lemma begin_walk:
  assumes inv: "vm_inv R m" and r: "r \<in> R"
  shows "walking R ty r (write_entry (root_page_table m ty) 511 (generate_temp_recursive_address r) m)"
proof -
  let ?live = "root_page_table m ty" and ?temp = "generate_temp_recursive_address r"
  let ?m = "write_entry ?live 511 ?temp m"
  note D = vm_invD[OF inv]
  note te = temp_entry[OF D(1) D(5)[OF r]]
  have "hw_step ?m ?live 511 = Some r" using te by (simp add: hw_step_def write_entry_def)
  moreover have "hw_step ?m r 511 = Some r"
    using te D(6)[OF r] by (cases "r = ?live") (simp_all add: hw_step_def write_entry_def)
  ultimately show ?thesis
    using D(1,4) r tree_inv_slot511[OF D(2) D(4)] by (simp add: walking_def)
qed

text \<open>The three levels of a 4 KiB mapping.\<close>

lemma dest_entry_spec:
  assumes w: "walking R ty r m" and va: "va_index va Level0 \<noteq> 511"
  obtains (ok) t m' where "dest_entry Page4K ty va r m = Some (Inr (t, va_index va Level3), m')"
      and "preserved R m m'" and "tbl m' r (take 3 (idxs va)) = Some t" and "free_frames m \<le> free_frames m' + 3"
  | (err) e m' where "dest_entry Page4K ty va r m = Some (Inl e, m')" and "preserved R m m'"
      and "in_block m r va \<or> free_frames m < 3"
proof -
  have blk: "in_block m' r va = in_block m r va" if "preserved R m m'" for m'
    using that w va by (simp add: preserved_def in_block_def walking_def)
  have t0: "tbl m r (take (depth Level0) (idxs va)) = Some r" by simp
  have l: "Level0 \<noteq> Level3" "Level1 \<noteq> Level3" "Level2 \<noteq> Level3" by simp_all
  from w l(1) va t0 show thesis
  proof (cases rule: next_mut_spec)
    case (ok t1 m1)
    note w1 = walking_preserved[OF w ok(2)]
    from ok(3) have t1: "tbl m1 r (take (depth Level1) (idxs va)) = Some t1" by simp
    note o1 = ok
    from w1 l(2) va t1 show thesis
    proof (cases rule: next_mut_spec)
      case (ok t2 m2)
      note p2 = preserved_trans[OF o1(2) ok(2)]
      note w2 = walking_preserved[OF w p2]
      from ok(3) have t2: "tbl m2 r (take (depth Level2) (idxs va)) = Some t2" by (simp add: numeral_2_eq_2)
      note o2 = ok
      from w2 l(3) va t2 show thesis
      proof (cases rule: next_mut_spec)
        case (ok t3 m3)
        have "dest_entry Page4K ty va r m = Some (Inr (t3, va_index va Level3), m3)"
          using o1(1) o2(1) ok(1) by (simp add: dest_entry_def and_then_def)
        then show thesis
          by (rule that(1)[OF _ preserved_trans[OF p2 ok(2)]])
            (use ok(3,4) o1(4) o2(4) in \<open>simp_all add: numeral_3_eq_3 numeral_2_eq_2\<close>)
      next
        case (err e m3)
        have "dest_entry Page4K ty va r m = Some (Inl e, m3)"
          using o1(1) o2(1) err(1) by (simp add: dest_entry_def and_then_def)
        then show thesis
          by (rule that(2)[OF _ preserved_trans[OF p2 err(2)]]) (use err(3) o1(4) o2(4) blk[OF p2] in auto)
      qed
    next
      case (err e m2)
      have "dest_entry Page4K ty va r m = Some (Inl e, m2)"
        using o1(1) err(1) by (simp add: dest_entry_def and_then_def)
      then show thesis
        by (rule that(2)[OF _ preserved_trans[OF o1(2) err(2)]]) (use err(3) o1(4) blk[OF o1(2)] in auto)
    qed
  next
    case (err e m1)
    have "dest_entry Page4K ty va r m = Some (Inl e, m1)"
      using err(1) by (simp add: dest_entry_def and_then_def)
    then show thesis by (rule that(2)[OF _ err(2)]) (use err(3) in auto)
  qed
qed

text \<open>Putting the live root's own slot 511 back ends the walk.\<close>

lemma end_walk:
  assumes inv: "vm_inv R m" and live: "live = root_page_table m ty"
    and m1: "pages_inv m1" "tree_inv R m1" "ttbr0 m1 = ttbr0 m" "ttbr1 m1 = ttbr1 m"
    and slot: "\<And>s. s \<in> R \<Longrightarrow> s \<noteq> live \<Longrightarrow> pt m1 s 511 = pt m s 511"
  shows "vm_inv R (write_entry live 511 (pt m live 511) m1)"
    and "s \<in> R \<Longrightarrow> va_index v Level0 \<noteq> 511 \<Longrightarrow>
           lookup (write_entry live 511 (pt m live 511) m1) s v = lookup m1 s v"
proof -
  note D = vm_invD[OF inv]
  have lr: "live \<in> R" using D(4) live by simp
  let ?m = "write_entry live 511 (pt m live 511) m1"
  have "pt ?m s 511 = pt m s 511" if "s \<in> R" for s
    using slot[OF that] by (cases "s = live") (simp_all add: write_entry_def)
  then have "self_inv R ?m" using D(3) hw_step_cong[of ?m _ 511 m] by (simp add: self_inv_def)
  then show "vm_inv R ?m"
    using inv m1 tree_inv_slot511[OF m1(2) lr] by (simp add: vm_inv_def)
  show "lookup ?m s v = lookup m1 s v" if "s \<in> R" "va_index v Level0 \<noteq> 511"
    by (rule lookup_slot511[OF m1(2) lr that])
qed

lemma map_to_spec:
  assumes inv: "vm_inv R m" and r: "r \<in> R" and e: "valid e" and va: "va_index va Level0 \<noteq> 511"
  obtains (ok) m' where "map_to e va Page4K ty r m = Some (Inr (), m')" and "vm_inv R m'"
      and "ttbr0 m' = ttbr0 m" "ttbr1 m' = ttbr1 m" "ram m' = ram m"
      and "lookup m' r va = Some (e\<lparr>page_or_table := True\<rparr>)"
      and "\<And>s v. s \<in> R \<Longrightarrow> va_index v Level0 \<noteq> 511 \<Longrightarrow> s \<noteq> r \<or> idxs v \<noteq> idxs va \<Longrightarrow> lookup m' s v = lookup m s v"
      and "\<And>t. frame_used m t \<Longrightarrow> frame_used m' t" and "fresh_tables R m m'"
      and "free_frames m \<le> free_frames m' + 3"
  | (err) x m' where "map_to e va Page4K ty r m = Some (Inl x, m')" and "vm_inv R m'"
      and "ttbr0 m' = ttbr0 m" "ttbr1 m' = ttbr1 m" "ram m' = ram m"
      and "\<And>s v. s \<in> R \<Longrightarrow> va_index v Level0 \<noteq> 511 \<Longrightarrow> lookup m' s v = lookup m s v"
      and "\<And>t. frame_used m t \<Longrightarrow> frame_used m' t" and "fresh_tables R m m'"
      and "in_block m r va \<or> free_frames m < 3"
proof -
  note D = vm_invD[OF inv]
  define live where "live = root_page_table m ty"
  have lr: "live \<in> R" using D(4) by (simp add: live_def)
  let ?old = "pt m live 511"
  define m0 where "m0 = write_entry live 511 (generate_temp_recursive_address r) m"
  have w0: "walking R ty r m0" using begin_walk[OF inv r, of ty] by (simp add: m0_def live_def)
  have l0: "lookup m0 s v = lookup m s v" if "s \<in> R" "va_index v Level0 \<noteq> 511" for s v
    unfolding m0_def by (rule lookup_slot511[OF D(2) lr that])
  have s0: "pt m0 s 511 = pt m s 511" if "s \<noteq> live" for s using that by (simp add: m0_def write_entry_def)
  have rep: "replace_recursive_entry ty (generate_temp_recursive_address r) m = (?old, m0)"
    by (simp add: replace_recursive_entry_def m0_def live_def Let_def)
  have rl: "root_page_table m1 ty = live" if "preserved R m0 m1" for m1
    using that by (simp add: preserved_def root_page_table_def live_def m0_def split: root_type.splits)
  have fresh: "fresh_tables R m m2"
    if "preserved R m0 m1" "\<And>s q. s \<in> R \<Longrightarrow> ok_path q \<Longrightarrow> tbl m2 s q = tbl m1 s q" for m1 m2
  proof -
    have "frame_used m0 t = frame_used m t" for t by (simp add: m0_def)
    moreover have "tbl m0 s q = tbl m s q" if "s \<in> R" "ok_path q" for s q
      unfolding m0_def by (rule tbl_slot511[OF D(2) lr that])
    ultimately show ?thesis using that unfolding preserved_def fresh_tables_def by metis
  qed
  from w0 va show thesis
  proof (cases rule: dest_entry_spec)
    case (err x m1)
    let ?m = "write_entry live 511 ?old m1"
    note P = err(2)[unfolded preserved_def]
    have run: "map_to e va Page4K ty r m = Some (Inl x, ?m)"
      using rep err(1) rl[OF err(2)] by (simp add: map_to_def write_recursive_entry_def)
    have slot: "pt m1 s 511 = pt m s 511" if "s \<in> R" "s \<noteq> live" for s
      using P s0[OF that(2)] that(1) by simp
    note ew = end_walk[OF inv live_def, of m1, OF _ _ _ _ slot]
    have inv': "vm_inv R ?m" by (rule ew(1)) (use P in \<open>simp_all add: m0_def\<close>)
    have lk: "lookup ?m s v = lookup m s v" if "s \<in> R" "va_index v Level0 \<noteq> 511" for s v
    proof -
      have "lookup ?m s v = lookup m1 s v" by (rule ew(2)) (use P that in \<open>simp_all add: m0_def\<close>)
      with P that l0 show ?thesis by simp
    qed
    have "tree_inv R m1" using P by simp
    then have "fresh_tables R m ?m"
      by (intro fresh[OF err(2)] tbl_slot511[OF _ lr])
    moreover have "in_block m r va \<or> free_frames m < 3"
      using err(3) l0[OF r va] by (simp add: in_block_def m0_def free_frames_def)
    ultimately show thesis by (intro that(2)[OF run inv']) (use P lk in \<open>simp_all add: m0_def\<close>)
  next
    case (ok t m1)
    note P = ok(2)[unfolded preserved_def]
    let ?i = "va_index va Level3" and ?e = "e\<lparr>page_or_table := True\<rparr>" and ?p = "take 3 (idxs va)"
    define m2 where "m2 = write_entry t ?i ?e m1"
    let ?m = "write_entry live 511 ?old m2"
    have p: "ok_path ?p" "length ?p = 3" using ok_path_idxs[OF va, of 3] by (simp_all add: idxs_def)
    have T: "tree_inv R m1" using P by simp
    have ts: "s \<noteq> t" if "s \<in> R" for s
      using tree_invD(1)[OF T r p(1) ok(3) that, of "[]"] p(2) by (auto simp: ok_path_def)
    have "tree_inv R m2"
      unfolding m2_def
      by (rule tree_inv_cong[OF T tbl_leaf_write[OF T r p(1) ok(3) p(2)]]) simp_all
    moreover have slot: "pt m2 s 511 = pt m s 511" if "s \<in> R" "s \<noteq> live" for s
      using P s0[OF that(2)] that(1) ts[OF that(1)] by (simp add: m2_def write_entry_def)
    note ew = end_walk[OF inv live_def, of m2, OF _ _ _ _ slot]
    ultimately have inv': "vm_inv R ?m" by (intro ew(1)) (use P in \<open>simp_all add: m0_def m2_def\<close>)
    have run: "map_to e va Page4K ty r m = Some (Inr (), ?m)"
      using rep ok(1) rl[OF ok(2)] e
      by (simp add: map_to_def write_recursive_entry_def m2_def Let_def) (simp add: write_entry_def)
    have full: "?p @ [?i] = idxs va" by (simp add: idxs_def)
    have lk: "lookup ?m s v = (if s = r \<and> idxs v = idxs va then Some ?e else lookup m s v)"
      if "s \<in> R" "va_index v Level0 \<noteq> 511" for s v
    proof -
      have "lookup ?m s v = lookup m2 s v"
        by (rule ew(2)) (use P that \<open>tree_inv R m2\<close> in \<open>simp_all add: m0_def m2_def\<close>)
      also have "\<dots> = (if s = r \<and> [] @ idxs v = ?p @ [?i] then Some ?e else walk m1 s (idxs v))"
        unfolding lookup_def m2_def
        by (rule walk_leaf_write[OF T r p(1) ok(3) p(2) _ that(1)])
          (use that(2) e in \<open>simp_all add: ok_path_def idxs_def\<close>)
      also have "\<dots> = (if s = r \<and> idxs v = idxs va then Some ?e else lookup m s v)"
        using P that l0 by (simp only: full append_Nil) (simp add: lookup_def)
      finally show ?thesis .
    qed
    have "tbl ?m s q = tbl m1 s q" if "s \<in> R" "ok_path q" for s q
      using tbl_slot511[OF \<open>tree_inv R m2\<close> lr that] tbl_leaf_write[OF T r p(1) ok(3) p(2) that]
      by (simp add: m2_def)
    then have "fresh_tables R m ?m" by (intro fresh[OF ok(2)])
    moreover have "free_frames m \<le> free_frames ?m + 3"
      using ok(4) by (simp add: m0_def m2_def free_frames_def)
    ultimately show thesis
      by (intro that(1)[OF run inv']) (use P lk r va in \<open>auto simp: m0_def m2_def\<close>)
  qed
qed

end
