(* ===== verification/Aspace.thy ===== *)
theory Aspace
  imports Vm_Walk
begin

section \<open>Process address spaces (\<open>aarch64/src/aspace.rs\<close>)\<close>

text \<open>
  An address space is the physical address of its root table; the kernel reaches the root through the
  identity mapping that \<open>new\<close> adds, so the pointer and the physical address name the same page.
  Allocating and mapping panic in \<open>new\<close> (\<open>None\<close>) and are error values in the other operations.
  The lemmas carry \<open>vm_inv\<close> through every operation and say which translations change.
\<close>

record aspace =
  root_pa :: phys_addr

definition aspace_new :: "memory \<Rightarrow> (aspace \<times> memory) option" where
  "aspace_new m =
     do {
       (r, m1) \<leftarrow> allocate_physpage m;
       (case r of
          Inl _ \<Rightarrow> None
        | Inr pa \<Rightarrow>
            do {
              range \<leftarrow> phys_with_pa_len pa (of_nat PAGE_SIZE_4K);
              (res, m2) \<leftarrow> map_phys_range range (Offset KZERO) rw_kernel_data Page4K Kernel
                             (root_page_table m1 Kernel) m1;
              (case res of
                 Inl _ \<Rightarrow> None
               | Inr _ \<Rightarrow> Some (\<lparr>root_pa = pa\<rparr>, init_empty_root_page_table pa (clear_page pa m2)))
            })
     }"

definition ttbr0_of :: "aspace \<Rightarrow> phys_addr" where
  "ttbr0_of a = root_pa a"

definition aspace_install :: "aspace \<Rightarrow> memory \<Rightarrow> memory" where
  "aspace_install a m = switch (root_pa a) User m"

definition map_err_unable :: "'a vm_result \<Rightarrow> ((page_alloc_error + 'a) \<times> memory) option" where
  "map_err_unable x =
     do { (r, m) \<leftarrow> x; Some (case r of Inl _ \<Rightarrow> (Inl UnableToMap, m) | Inr v \<Rightarrow> (Inr v, m)) }"

definition map_user_page ::
  "aspace \<Rightarrow> entry \<Rightarrow> u64 \<Rightarrow> memory \<Rightarrow> ((page_alloc_error + u64) \<times> memory) option" where
  "map_user_page a e va m =
     do {
       (r, m1) \<leftarrow> allocate_physpage m;
       (case r of
          Inl err \<Rightarrow> Some (Inl err, m1)
        | Inr page_pa \<Rightarrow>
            do {
              range \<leftarrow> phys_with_pa_len page_pa (of_nat PAGE_SIZE_4K);
              (r1, m2) \<leftarrow> map_err_unable (map_phys_range range (Addr va) e Page4K User (root_pa a) m1);
              (case r1 of
                 Inl err \<Rightarrow> Some (Inl err, m2)
               | Inr _ \<Rightarrow>
                   do {
                     (r2, m3) \<leftarrow> map_err_unable (map_phys_range range (Offset KZERO) rw_kernel_data Page4K Kernel
                                    (root_page_table m2 Kernel) m2);
                     (case r2 of
                        Inl err \<Rightarrow> Some (Inl err, m3)
                      | Inr _ \<Rightarrow> Some (Inr (page_pa + KZERO), m3))
                   })
            })
     }"

definition map_user_data_page_pa ::
  "aspace \<Rightarrow> u64 \<Rightarrow> memory \<Rightarrow> ((page_alloc_error + phys_addr) \<times> memory) option" where
  "map_user_data_page_pa a va m =
     do {
       (r, m1) \<leftarrow> allocate_physpage m;
       (case r of
          Inl err \<Rightarrow> Some (Inl err, m1)
        | Inr page_pa \<Rightarrow>
            do {
              range \<leftarrow> phys_with_pa_len page_pa (of_nat PAGE_SIZE_4K);
              (r1, m2) \<leftarrow> map_err_unable (map_phys_range range (Addr va) rw_user_data Page4K User (root_pa a) m1);
              (case r1 of Inl err \<Rightarrow> Some (Inl err, m2) | Inr _ \<Rightarrow> Some (Inr page_pa, m2))
            })
     }"

definition map_user_data_page :: "aspace \<Rightarrow> u64 \<Rightarrow> memory \<Rightarrow> ((page_alloc_error + unit) \<times> memory) option" where
  "map_user_data_page a va m =
     do { (r, m1) \<leftarrow> map_user_data_page_pa a va m;
          Some (case r of Inl err \<Rightarrow> (Inl err, m1) | Inr _ \<Rightarrow> (Inr (), m1)) }"

definition map_mmio :: "aspace \<Rightarrow> phys_range \<Rightarrow> u64 \<Rightarrow> memory \<Rightarrow> ((page_alloc_error + unit) \<times> memory) option" where
  "map_mmio a rng va m =
     do { (r, m1) \<leftarrow> map_err_unable (map_phys_range rng (Addr va) rw_user_mmio Page4K User (root_pa a) m);
          Some (case r of Inl err \<Rightarrow> (Inl err, m1) | Inr _ \<Rightarrow> (Inr (), m1)) }"

subsection \<open>Mapping one page\<close>

lemma step_by_rounded_one:
  assumes "unat pa mod 4096 = 0" and "unat pa + 8192 < 2 ^ 64"
  shows "step_by_rounded \<lparr>pstart = pa, pend = pa + 4096\<rparr> 4096 = Some [pa]"
proof -
  have e: "unat (pa + 4096) = unat pa + 4096" using unat_add_lem[of pa 4096] assms(2) by simp
  obtain f where f: "unat pa = f * 4096" using assms(1) by (metis mod_0_imp_dvd dvd_def mult.commute)
  obtain s where s: "round_down2_u64 pa 4096 = Some s" "unat s = unat pa"
    using round_down2_exp[of 12 pa] f by auto
  obtain t where t: "round_up2_u64 (pa + 4096) 4096 = Some t" "unat t = unat pa + 4096"
    using round_up2_exp[of 12 "pa + 4096"] assms(2) e f by (auto simp: div_ceil_def)
  have "s = pa" using s(2) by (simp only: word_unat_eq_iff)
  with s(1) t show ?thesis by (simp add: step_by_rounded_def step_by_def div_ceil_def)
qed

lemma user_va_no_wrap:
  assumes "va_index va Level0 \<noteq> 511"
  shows "unat va + 4096 < 2 ^ 64"
proof (rule ccontr)
  assume "\<not> unat va + 4096 < 2 ^ 64"
  then have "2 ^ 64 - 4096 \<le> unat va" by simp
  then have "(2 ^ 64 - 4096) div 2 ^ 39 \<le> unat va div 2 ^ 39" by (rule div_le_mono)
  moreover have "unat va div 2 ^ 39 < 2 ^ 25"
    using unat_lt64[of va] by (simp add: less_mult_imp_div_less)
  ultimately have "unat va div 2 ^ 39 = 2 ^ 25 - 1" by simp
  then have "unat (drop_bit 39 va AND 0x1ff) = 511"
    unfolding idx_mask take_bit_eq_mask[symmetric] unsigned_take_bit_eq unsigned_drop_bit_eq
    by (simp add: drop_bit_eq_div take_bit_eq_mod)
  with assms show False by (simp add: va_index.simps)
qed

lemma kzero_index:
  assumes "unat pa < 2 ^ 46"
  shows "va_index (pa + KZERO) Level0 \<noteq> 511"
proof -
  have hi: "\<not> bit pa n" if "46 \<le> n" for n
  proof -
    have "take_bit 46 pa = pa"
      unfolding word_unat_eq_iff unsigned_take_bit_eq using assms by (simp add: take_bit_eq_mod)
    with that show ?thesis by (metis bit_take_bit_iff not_less)
  qed
  have kz: "bit KZERO n \<longleftrightarrow> 47 \<le> n" if "n < 64" for n
  proof -
    have k: "KZERO = NOT (mask 47)" unfolding KZERO_def by code_simp
    show ?thesis using that unfolding k bit_not_iff bit_mask_iff by (auto simp: possible_bit_def)
  qed
  have "pa AND KZERO = 0" by (rule bit_word_eqI) (use hi kz in \<open>force simp: bit_simps\<close>)
  then have "pa + KZERO = pa OR KZERO" by (metis disjunctive_add bit_and_iff bit_0_eq bot_apply bot_bool_def)
  then have "\<not> bit (pa + KZERO) 46" using hi kz[of 46] by (simp add: bit_simps)
  then have "\<not> bit (drop_bit 39 (pa + KZERO) AND 0x1ff) 7" by (simp add: bit_simps)
  moreover have "bit (511 :: u64) 7" by code_simp
  ultimately have "drop_bit 39 (pa + KZERO) AND 0x1ff \<noteq> 511" by metis
  moreover have "unat (511 :: u64) = 511" by simp
  ultimately show ?thesis unfolding va_index.simps by (metis word_unat_eq_iff)
qed

lemma map_phys_range_page:
  assumes "unat pa mod 4096 = 0" and "unat pa + 8192 < 2 ^ 64" and "unat (va_map vm pa) + 4096 < 2 ^ 64"
  shows "map_phys_range \<lparr>pstart = pa, pend = pa + 4096\<rparr> vm e Page4K ty r m =
           and_then (map_to (with_phys_addr e pa) (va_map vm pa) Page4K ty r m)
             (\<lambda>_ m'. Some (Inr \<lparr>vstart = va_map vm pa, vend = va_map vm pa + 4096\<rparr>, m'))"
proof -
  have e: "unat (pa + 4096) = unat pa + 4096" using unat_add_lem[of pa 4096] assms(2) by simp
  have "uadd (va_map vm pa) 4096 = Some (va_map vm pa + 4096)" using assms(3) by (simp add: uadd_def)
  then show ?thesis
    using step_by_rounded_one[OF assms(1,2)] assms(1) e
    by (simp add: map_phys_range_def PAGE_SIZE_4K_def) (rule arg_cong2[where f = and_then, OF refl], simp add: fun_eq_iff)
qed

text \<open>What mapping one page promises: only the translation of that page in that root changes.\<close>

definition only_maps :: "phys_addr set \<Rightarrow> memory \<Rightarrow> memory \<Rightarrow> (phys_addr \<times> u64) set \<Rightarrow> bool" where
  "only_maps R m m' V \<longleftrightarrow> ttbr0 m' = ttbr0 m \<and> ttbr1 m' = ttbr1 m \<and> ram m' = ram m \<and>
     (\<forall>s \<in> R. \<forall>v. va_index v Level0 \<noteq> 511 \<and> (\<forall>u. (s, u) \<in> V \<longrightarrow> idxs v \<noteq> idxs u) \<longrightarrow> lookup m' s v = lookup m s v) \<and>
     (\<forall>t. frame_used m t \<longrightarrow> frame_used m' t) \<and> fresh_tables R m m'"

lemma only_mapsD:
  assumes "only_maps R m m' V"
  shows "s \<in> R \<Longrightarrow> va_index v Level0 \<noteq> 511 \<Longrightarrow> (\<And>u. (s, u) \<in> V \<Longrightarrow> idxs v \<noteq> idxs u) \<Longrightarrow> lookup m' s v = lookup m s v"
    and "frame_used m t \<Longrightarrow> frame_used m' t" and "ttbr0 m' = ttbr0 m" "ttbr1 m' = ttbr1 m" "ram m' = ram m"
    and "fresh_tables R m m'"
  using assms unfolding only_maps_def by blast+

lemma only_mapsI:
  assumes "\<And>s v. s \<in> R \<Longrightarrow> va_index v Level0 \<noteq> 511 \<Longrightarrow> (\<And>u. (s, u) \<in> V \<Longrightarrow> idxs v \<noteq> idxs u) \<Longrightarrow> lookup m' s v = lookup m s v"
    and "\<And>t. frame_used m t \<Longrightarrow> frame_used m' t" and "ttbr0 m' = ttbr0 m" "ttbr1 m' = ttbr1 m" "ram m' = ram m"
    and "fresh_tables R m m'"
  shows "only_maps R m m' V"
  using assms unfolding only_maps_def by blast

lemma only_maps_trans:
  assumes "only_maps R m m1 V" and "only_maps R m1 m2 W"
  shows "only_maps R m m2 (V \<union> W)"
proof (rule only_mapsI)
  note A = only_mapsD[OF assms(1)] and B = only_mapsD[OF assms(2)]
  show "fresh_tables R m m2" by (rule fresh_tables_trans[OF A(6) B(6) A(2)])
  show "lookup m2 s v = lookup m s v"
    if "s \<in> R" "va_index v Level0 \<noteq> 511" "\<And>u. (s, u) \<in> V \<union> W \<Longrightarrow> idxs v \<noteq> idxs u" for s v
    using A(1)[OF that(1,2)] B(1)[OF that(1,2)] that(3) by simp
qed (use only_mapsD[OF assms(1)] only_mapsD[OF assms(2)] in simp_all)

lemma only_maps_mono: "only_maps R m m' V \<Longrightarrow> V \<subseteq> W \<Longrightarrow> only_maps R m m' W"
  unfolding only_maps_def by blast

lemma map_page_spec:
  assumes inv: "vm_inv R m" and r: "r \<in> R" and e: "valid e" and f: "f * 4096 < 2 ^ 46"
    and v: "va_map vm (of_nat (f * 4096)) = v" "va_index v Level0 \<noteq> 511"
  obtains (ok) m' where
      "map_phys_range \<lparr>pstart = of_nat (f * 4096), pend = of_nat (f * 4096) + 4096\<rparr> vm e Page4K ty r m =
         Some (Inr \<lparr>vstart = v, vend = v + 4096\<rparr>, m')"
      and "vm_inv R m'" and "only_maps R m m' {(r, v)}"
      and "lookup m' r v = Some ((with_phys_addr e (of_nat (f * 4096)))\<lparr>page_or_table := True\<rparr>)"
      and "free_frames m \<le> free_frames m' + 3"
  | (err) x m' where
      "map_phys_range \<lparr>pstart = of_nat (f * 4096), pend = of_nat (f * 4096) + 4096\<rparr> vm e Page4K ty r m = Some (Inl x, m')"
      and "vm_inv R m'" and "only_maps R m m' {}" and "in_block m r v \<or> free_frames m < 3"
proof -
  let ?pa = "of_nat (f * 4096) :: u64"
  have un: "unat ?pa = f * 4096" by (rule frame_addr(1)) (use f in simp)
  have run: "map_phys_range \<lparr>pstart = ?pa, pend = ?pa + 4096\<rparr> vm e Page4K ty r m =
      and_then (map_to (with_phys_addr e ?pa) v Page4K ty r m) (\<lambda>_ m'. Some (Inr \<lparr>vstart = v, vend = v + 4096\<rparr>, m'))"
    using map_phys_range_page[of ?pa vm e ty r m] user_va_no_wrap[OF v(2)] un f unfolding v(1) by simp
  have e': "valid (with_phys_addr e ?pa)" using e by (simp add: with_phys_addr_def)
  from inv r e' v(2) show thesis
  proof (cases rule: map_to_spec[where ty = ty])
    case (ok m')
    show thesis
    proof (rule that(1)[OF _ ok(2) _ ok(6,10)])
      show "only_maps R m m' {(r, v)}" by (rule only_mapsI[OF ok(7,8,3,4,5,9)]) auto
    qed (simp add: run ok(1) and_then_def del: of_nat_mult)
  next
    case (err x m')
    show thesis
    proof (rule that(2)[OF _ err(2) _ err(9)])
      show "only_maps R m m' {}" by (rule only_mapsI[OF err(6,7,3,4,5,8)])
    qed (simp add: run err(1) and_then_def del: of_nat_mult)
  qed
qed

subsection \<open>A new root\<close>

lemma tbl_pt: "pt m' = pt m \<Longrightarrow> tbl m' t q = tbl m t q"
  by (induction q arbitrary: t) (simp_all add: hw_step_def split: option.split)

lemma walk_pt: "pt m' = pt m \<Longrightarrow> walk m' t q = walk m t q"
  by (induction m t q rule: walk.induct) (simp_all add: Let_def)

lemma allocated:
  assumes "vm_inv R m" and "m' = m\<lparr>pages := pages m'\<rparr>" and "pages_inv m'"
    and "\<And>t. frame_used m t \<Longrightarrow> frame_used m' t"
  shows "vm_inv R m'" and "only_maps R m m' {}" and "in_block m' r v = in_block m r v"
proof -
  have p: "pt m' = pt m" "ttbr0 m' = ttbr0 m" "ttbr1 m' = ttbr1 m" "ram m' = ram m"
    by (subst assms(2), simp)+
  have "tree_inv R m'" by (rule tree_inv_cong[OF vm_invD(2)[OF assms(1)] tbl_pt[OF p(1)] assms(4)])
  moreover have "hw_step m' t i = hw_step m t i" for t i by (simp add: hw_step_def p(1))
  ultimately show "vm_inv R m'" using assms(1,3) by (simp add: vm_inv_def self_inv_def p(2,3))
  show "only_maps R m m' {}"
    by (rule only_mapsI[OF _ assms(4)]) (simp_all add: lookup_def fresh_tables_def p tbl_pt[OF p(1)] walk_pt[OF p(1)])
  show "in_block m' r v = in_block m r v" by (simp add: in_block_def lookup_def walk_pt[OF p(1)])
qed

lemma new_root:
  assumes inv: "vm_inv R m" and f: "frame_used m f"
    and nt: "\<And>s q. s \<in> R \<Longrightarrow> ok_path q \<Longrightarrow> tbl m s q \<noteq> Some f"
    and E: "valid E" "page_or_table E" "phys_addr_of E = f"
    and m': "m' = m\<lparr>pt := (pt m)(f := (\<lambda>_. entry_empty)(511 := E))\<rparr>"
  shows "vm_inv (insert f R) m'" and "\<And>s v. s \<in> R \<Longrightarrow> va_index v Level0 \<noteq> 511 \<Longrightarrow> lookup m' s v = lookup m s v"
    and "\<And>v. va_index v Level0 \<noteq> 511 \<Longrightarrow> lookup m' f v = None"
proof -
  note D = vm_invD[OF inv]
  have sel: "frame_used m' t = frame_used m t" "pages_inv m' = pages_inv m" "ttbr0 m' = ttbr0 m" "ttbr1 m' = ttbr1 m" for t
    by (simp_all add: m' frame_used_def pages_inv_def)
  have fR: "f \<notin> R" using nt[of f "[]"] by (auto simp: ok_path_def)
  have old: "tbl m' s q = tbl m s q" if "s \<in> R" "ok_path q" for s q
    using that(2)
  proof (induction q rule: rev_induct)
    case (snoc j q)
    note okq = ok_path_snoc[OF snoc.prems]
    have "hw_step m' u j = hw_step m u j" if "tbl m s q = Some u" for u
      using nt[OF \<open>s \<in> R\<close> okq] that by (auto simp: m' hw_step_def)
    then show ?case using snoc.IH[OF okq] by (simp add: tbl_snoc split: option.splits)
  qed simp
  have new: "tbl m' f q = (if q = [] then Some f else None)" if "ok_path q" for q
    using that by (cases q) (auto simp: m' hw_step_def ok_path_def entry_empty_def)
  have tree: "tree_inv R m" by (rule D(2))
  have "r = s \<and> p = q"
    if a: "r \<in> insert f R" "s \<in> insert f R" "ok_path p" "ok_path q" "tbl m' r p = Some t" "tbl m' s q = Some t"
    for r s p q t
  proof -
    have nf: "u \<in> R \<Longrightarrow> ok_path c \<Longrightarrow> tbl m' u c \<noteq> Some f" for u c using old nt by simp
    have "p = [] \<and> t = f" if "r = f" using a(5) new[OF a(3)] that by (simp split: if_splits)
    moreover have "q = [] \<and> t = f" if "s = f" using a(6) new[OF a(4)] that by (simp split: if_splits)
    moreover have "r = s \<and> p = q" if "r \<in> R" "s \<in> R"
      using tree_invD(1)[OF tree that(1) a(3) _ that(2) a(4)] a(5,6) old that a(3,4) by simp
    ultimately show ?thesis using a nf by blast
  qed
  moreover have "frame_used m' t" if a: "r \<in> insert f R" "ok_path p" "tbl m' r p = Some t" for r p t
  proof (cases "r = f")
    case True
    then show ?thesis using a new[OF a(2)] f by (simp add: sel split: if_splits)
  next
    case False
    then show ?thesis using a old[OF _ a(2)] tree_invD(2)[OF tree _ a(2)] by (simp add: sel)
  qed
  ultimately have "tree_inv (insert f R) m'" unfolding tree_inv_def by blast
  moreover have "self_inv (insert f R) m'"
    using D(3) E fR by (auto simp: self_inv_def m' hw_step_def Let_def split: if_splits)
  ultimately show "vm_inv (insert f R) m'" using inv by (simp add: vm_inv_def sel)
  show "lookup m' s v = lookup m s v" if s: "s \<in> R" and v: "va_index v Level0 \<noteq> 511" for s v
    unfolding lookup_def
  proof (rule walk_same[where q = "[]" and s = s])
    fix q u j assume "ok_path q" "tbl m s q = Some u"
    then have "u \<noteq> f" using nt[OF s] by auto
    then show "pt m' u j = pt m u j" by (simp add: m')
  next
    show "[] = [] \<longrightarrow> hd (idxs v) \<noteq> 511" using v by (simp add: idxs_def)
  qed (simp_all add: ok_path_def idxs_def)
  show "lookup m' f v = None" if "va_index v Level0 \<noteq> 511" for v
    using that by (simp add: lookup_def idxs_def m' entry_empty_def)
qed

lemma frame_range:
  assumes "f * 4096 < 2 ^ 46"
  shows "phys_with_pa_len (of_nat (f * 4096)) (of_nat PAGE_SIZE_4K) =
      Some \<lparr>pstart = of_nat (f * 4096), pend = of_nat (f * 4096) + 4096\<rparr>"
proof -
  let ?f = "of_nat (f * 4096) :: u64"
  have un: "unat ?f = f * 4096" by (rule frame_addr(1)) (use assms in simp)
  have "f * 4096 + 4096 < 2 ^ 64" using assms by simp
  moreover have "unat (4096 :: u64) = 4096" by simp
  ultimately have "unat ?f + unat (4096 :: u64) < 2 ^ 64" by (simp only: un)
  then have "uadd ?f 4096 = Some (?f + 4096)" unfolding uadd_def by (rule if_P)
  moreover have "of_nat PAGE_SIZE_4K = (4096 :: u64)" by (simp add: PAGE_SIZE_4K_def)
  ultimately show ?thesis unfolding phys_with_pa_len_def by (simp only: bind.bind_lunit)
qed

lemma aspace_new_spec:
  assumes inv: "vm_inv R m"
  obtains (panic) "aspace_new m = None"
      and "free_frames m < 4 \<or> (\<exists>pa. unat pa < 2 ^ 46 \<and> \<not> frame_used m pa \<and> in_block m (ttbr1 m) (pa + KZERO))"
  | (new) a m' where "aspace_new m = Some (a, m')" and "vm_inv (insert (root_pa a) R) m'"
      and "\<not> frame_used m (root_pa a)" and "root_pa a \<notin> R"
      and "\<And>v. va_index v Level0 \<noteq> 511 \<Longrightarrow> lookup m' (root_pa a) v = None"
      and "\<And>s v. s \<in> R \<Longrightarrow> va_index v Level0 \<noteq> 511 \<Longrightarrow> (s = ttbr1 m \<Longrightarrow> idxs v \<noteq> idxs (root_pa a + KZERO)) \<Longrightarrow>
             lookup m' s v = lookup m s v"
      and "ttbr0 m' = ttbr0 m" "ttbr1 m' = ttbr1 m" "ram m' = ram m" "\<And>t. frame_used m t \<Longrightarrow> frame_used m' t"
      and "free_frames m \<le> free_frames m' + 4" "frame_used m' (root_pa a)" "\<not> in_block m' (ttbr1 m) (root_pa a + KZERO)"
proof -
  note D = vm_invD[OF inv]
  from D(1) show thesis
  proof (cases rule: allocate_physpage_cases)
    case full
    then show thesis by (intro panic) (simp_all add: aspace_new_def)
  next
    case (page f m1)
    let ?f = "of_nat (f * 4096) :: u64"
    have A: "vm_inv R m1" "only_maps R m m1 {}" "\<And>r v. in_block m1 r v = in_block m r v"
      using allocated[OF inv page(2,3)] page(7) by blast+
    note O1 = only_mapsD[OF A(2)]
    have fR: "tbl m s q \<noteq> Some ?f" if "s \<in> R" "ok_path q" for s q
      using tree_invD(2)[OF D(2) that] page(5) by blast
    have un: "unat ?f < 2 ^ 46" using page(4) frame_addr(1)[of f] by (simp del: of_nat_mult)
    have k: "valid rw_kernel_data" by (simp add: rw_kernel_data_def)
    have kv: "va_map (Offset KZERO) ?f = ?f + KZERO" by simp
    from A(1) vm_invD(4)[OF A(1), of Kernel] k page(4) kv kzero_index[OF un] show thesis
    proof (cases rule: map_page_spec[where ty = Kernel])
      case (err x m2)
      have rk: "root_page_table m1 Kernel = ttbr1 m" using O1(4) by (simp add: root_page_table_def)
      show thesis
      proof (rule panic)
        show "aspace_new m = None" using page(1) frame_range[OF page(4)] err(1) by (simp add: aspace_new_def del: of_nat_mult)
        show "free_frames m < 4 \<or> (\<exists>pa. unat pa < 2 ^ 46 \<and> \<not> frame_used m pa \<and> in_block m (ttbr1 m) (pa + KZERO))"
          using err(4) page(5,8) un unfolding A(3) rk by auto
      qed
    next
      case (ok m2)
      note O2 = only_mapsD[OF ok(3)]
      let ?E = "(with_phys_addr rw_kernel_data ?f)\<lparr>page_or_table := True\<rparr>"
      define m' where "m' = m2\<lparr>pt := (pt m2)(?f := (\<lambda>_. entry_empty)(511 := ?E))\<rparr>"
      have run: "aspace_new m = Some (\<lparr>root_pa = ?f\<rparr>, m')"
        using page(1) ok(1) frame_range[OF page(4)]
        by (simp add: aspace_new_def init_empty_root_page_table_def clear_page_def write_entry_def m'_def del: of_nat_mult)
      have nt: "tbl m2 s q \<noteq> Some ?f" if "s \<in> R" "ok_path q" for s q
        using O2(6) O1(6) fR[OF that] page(6) that unfolding fresh_tables_def
        by (metis page(2) tbl_pt ext memory.select_convs(1) memory.surjective memory.update_convs(3))
      have E: "valid ?E" "page_or_table ?E" "phys_addr_of ?E = ?f"
        using temp_entry[OF page(3,6)] by (simp_all add: generate_temp_recursive_address_def del: of_nat_mult)
      have N: "vm_inv (insert ?f R) m'"
          "\<And>s v. s \<in> R \<Longrightarrow> va_index v Level0 \<noteq> 511 \<Longrightarrow> lookup m' s v = lookup m2 s v"
          "\<And>v. va_index v Level0 \<noteq> 511 \<Longrightarrow> lookup m' ?f v = None"
        using new_root[OF ok(2) O2(2)[OF page(6)] _ E m'_def] nt by blast+
      have sel: "ttbr0 m' = ttbr0 m2" "ttbr1 m' = ttbr1 m2" "ram m' = ram m2" "frame_used m' t = frame_used m2 t" for t
        by (simp_all add: m'_def frame_used_def)
      have rk: "root_page_table m1 Kernel = ttbr1 m" using O1(4) by (simp add: root_page_table_def)
      have R1: "ttbr1 m \<in> R" using inv by (simp add: vm_inv_def)
      show thesis
      proof (rule new[OF run])
        show "free_frames m \<le> free_frames m' + 4" using page(8) ok(5) by (simp add: m'_def free_frames_def)
        show "frame_used m' (root_pa \<lparr>root_pa = ?f\<rparr>)" using O2(2)[OF page(6)] sel(4) by (simp del: of_nat_mult)
        have "lookup m' (ttbr1 m) (?f + KZERO) = Some ?E"
          using N(2)[OF R1 kzero_index[OF un]] ok(4) unfolding rk by (simp del: of_nat_mult)
        then show "\<not> in_block m' (ttbr1 m) (root_pa \<lparr>root_pa = ?f\<rparr> + KZERO)" by (simp add: in_block_def del: of_nat_mult)
        show "vm_inv (insert (root_pa \<lparr>root_pa = ?f\<rparr>) R) m'" using N(1) by (simp del: of_nat_mult)
        show "root_pa \<lparr>root_pa = ?f\<rparr> \<notin> R" using fR[of ?f "[]"] by (auto simp: ok_path_def simp del: of_nat_mult)
        fix s v assume a: "s \<in> R" "va_index v Level0 \<noteq> 511" "s = ttbr1 m \<Longrightarrow> idxs v \<noteq> idxs (root_pa \<lparr>root_pa = ?f\<rparr> + KZERO)"
        have "lookup m' s v = lookup m2 s v" by (rule N(2)[OF a(1,2)])
        also have "\<dots> = lookup m1 s v"
          by (rule O2(1)[OF a(1,2)]) (use a(3) O1(4) in \<open>simp add: root_page_table_def del: of_nat_mult\<close>)
        also have "\<dots> = lookup m s v" by (rule O1(1)[OF a(1,2)]) simp
        finally show "lookup m' s v = lookup m s v" .
      qed (use N(3) page(5,7) O1 O2 in \<open>simp_all add: sel del: of_nat_mult\<close>)
    qed
  qed
qed

subsection \<open>User pages\<close>

text \<open>The leaf entry of a 4 KiB page.\<close>

definition leaf :: "entry \<Rightarrow> phys_addr \<Rightarrow> entry" where
  "leaf e pa = (with_phys_addr e pa)\<lparr>page_or_table := True\<rparr>"

lemma leaf_sel [simp]:
  "valid (leaf e pa) = valid e" "access_permission (leaf e pa) = access_permission e"
  "mair_index (leaf e pa) = mair_index e" "page_or_table (leaf e pa)"
  by (simp_all add: leaf_def with_phys_addr_def)

lemma phys_addr_leaf: "pages_inv m \<Longrightarrow> frame_used m pa \<Longrightarrow> phys_addr_of (leaf e pa) = pa"
  using used_frame_addr[of m pa e] by (simp add: leaf_def phys_addr_of_def)

lemma used_lt: 
  assumes "pages_inv m" and "frame_used m pa" shows "unat pa < 2 ^ 46"
proof -
  from assms(2) obtain f where f: "f < num_pages (pages m)" "unat pa = f * 4096"
    unfolding frame_used_def by blast
  have "f * 4096 < max_bytes (pages m)"
    using f(1) assms(1) by (simp add: pages_inv_def max_bytes_eq num_pages_def)
  then show ?thesis using assms(1) f(2) by (simp add: pages_inv_def)
qed

lemma map_user_data_page_pa_spec:
  assumes inv: "vm_inv R m" and a: "root_pa a \<in> R" and va: "va_index va Level0 \<noteq> 511"
  obtains (ok) pa m' where "map_user_data_page_pa a va m = Some (Inr pa, m')" and "vm_inv R m'"
      and "only_maps R m m' {(root_pa a, va)}" and "lookup m' (root_pa a) va = Some (leaf rw_user_data pa)"
      and "\<not> frame_used m pa" and "frame_used m' pa" and "free_frames m \<le> free_frames m' + 4"
  | (err) x m' where "map_user_data_page_pa a va m = Some (Inl x, m')" and "vm_inv R m'" and "only_maps R m m' {}"
      and "in_block m (root_pa a) va \<or> free_frames m < 4"
proof -
  note D = vm_invD[OF inv]
  from D(1) show thesis
  proof (cases rule: allocate_physpage_cases)
    case full
    show thesis
    proof (rule err[OF _ inv])
      show "only_maps R m m {}" by (rule only_mapsI) (simp_all add: fresh_tables_def)
    qed (simp_all add: map_user_data_page_pa_def full)
  next
    case (page f m1)
    have A: "vm_inv R m1" "only_maps R m m1 {}" "\<And>r v. in_block m1 r v = in_block m r v"
      using allocated[OF inv page(2,3)] page(7) by blast+
    have v: "valid rw_user_data" "va_map (Addr va) (of_nat (f * 4096)) = va" by (simp_all add: rw_user_data_def)
    from A(1) a v(1) page(4) v(2) va show thesis
    proof (cases rule: map_page_spec[where ty = User])
      case (err x m2)
      show thesis
      proof (rule that(2)[OF _ err(2)])
        show "only_maps R m m2 {}" using only_maps_trans[OF A(2) err(3)] by simp
        show "in_block m (root_pa a) va \<or> free_frames m < 4" using err(4) page(8) by (auto simp: A(3))
      qed (use page(1) frame_range[OF page(4)] err(1) in
        \<open>simp add: map_user_data_page_pa_def map_err_unable_def del: of_nat_mult\<close>)
    next
      case (ok m2)
      show thesis
      proof (rule that(1)[OF _ ok(2) _ _ page(5)])
        show "only_maps R m m2 {(root_pa a, va)}" using only_maps_trans[OF A(2) ok(3)] by simp
        show "frame_used m2 (of_nat (f * 4096))" by (rule only_mapsD(2)[OF ok(3) page(6)])
        show "free_frames m \<le> free_frames m2 + 4" using ok(5) page(8) by simp
      qed (use page(1) frame_range[OF page(4)] ok(1,4) in
        \<open>simp_all add: map_user_data_page_pa_def map_err_unable_def leaf_def del: of_nat_mult\<close>)
    qed
  qed
qed

lemma map_user_page_spec:
  assumes inv: "vm_inv R m" and a: "root_pa a \<in> R" "root_pa a \<noteq> ttbr1 m"
    and e: "valid e" and va: "va_index va Level0 \<noteq> 511"
  obtains (ok) pa m' where "map_user_page a e va m = Some (Inr (pa + KZERO), m')" and "vm_inv R m'"
      and "only_maps R m m' {(root_pa a, va), (ttbr1 m, pa + KZERO)}"
      and "lookup m' (root_pa a) va = Some (leaf e pa)"
      and "lookup m' (ttbr1 m) (pa + KZERO) = Some (leaf rw_kernel_data pa)"
      and "\<not> frame_used m pa" and "frame_used m' pa" and "free_frames m \<le> free_frames m' + 7"
  | (err) x m' where "map_user_page a e va m = Some (Inl x, m')" and "vm_inv R m'"
      and "only_maps R m m' {(root_pa a, va)}"
      and "in_block m (root_pa a) va \<or> free_frames m < 7 \<or>
             (\<exists>pa. unat pa < 2 ^ 46 \<and> \<not> frame_used m pa \<and> in_block m (ttbr1 m) (pa + KZERO))"
proof -
  note D = vm_invD[OF inv]
  from D(1) show thesis
  proof (cases rule: allocate_physpage_cases)
    case full
    show thesis
    proof (rule err[OF _ inv])
      show "only_maps R m m {(root_pa a, va)}" by (rule only_mapsI) (simp_all add: fresh_tables_def)
    qed (simp_all add: map_user_page_def full)
  next
    case (page f m1)
    let ?f = "of_nat (f * 4096) :: u64"
    have A: "vm_inv R m1" "only_maps R m m1 {}" "\<And>r v. in_block m1 r v = in_block m r v"
      using allocated[OF inv page(2,3)] page(7) by blast+
    have v: "va_map (Addr va) ?f = va" by simp
    from A(1) a(1) e page(4) v va show thesis
    proof (cases rule: map_page_spec[where ty = User])
      case (err x m2)
      show thesis
      proof (rule that(2)[OF _ err(2)])
        show "only_maps R m m2 {(root_pa a, va)}"
          by (rule only_maps_mono[OF only_maps_trans[OF A(2) err(3)]]) simp
        show "in_block m (root_pa a) va \<or> free_frames m < 7 \<or>
            (\<exists>pa. unat pa < 2 ^ 46 \<and> \<not> frame_used m pa \<and> in_block m (ttbr1 m) (pa + KZERO))"
          using err(4) page(8) by (auto simp: A(3))
      qed (use page(1) frame_range[OF page(4)] err(1) in
        \<open>simp add: map_user_page_def map_err_unable_def del: of_nat_mult\<close>)
    next
      case (ok m2)
      note user = ok
      have O: "only_maps R m m2 {(root_pa a, va)}" using only_maps_trans[OF A(2) user(3)] by simp
      have T: "ttbr1 m2 = ttbr1 m" by (rule only_mapsD(4)[OF O])
      have fu: "frame_used m2 ?f" by (rule only_mapsD(2)[OF user(3) page(6)])
      have kd: "valid rw_kernel_data" "va_map (Offset KZERO) ?f = ?f + KZERO" by (simp_all add: rw_kernel_data_def)
      note kv = kzero_index[OF used_lt[OF vm_invD(1)[OF user(2)] fu]]
      have kb: "in_block m2 (ttbr1 m) (?f + KZERO) = in_block m (ttbr1 m) (?f + KZERO)"
        using only_mapsD(1)[OF O _ kv, of "ttbr1 m"] a(2) inv by (simp add: in_block_def vm_inv_def del: of_nat_mult)
      from user(2) vm_invD(4)[OF user(2), of Kernel] kd(1) page(4) kd(2) kv
      show thesis
      proof (cases rule: map_page_spec[where ty = Kernel])
        case (err x m3)
        show thesis
        proof (rule that(2)[OF _ err(2)])
          show "only_maps R m m3 {(root_pa a, va)}" using only_maps_trans[OF O err(3)] by simp
          have "root_page_table m2 Kernel = ttbr1 m" using T by (simp add: root_page_table_def)
          then show "in_block m (root_pa a) va \<or> free_frames m < 7 \<or>
              (\<exists>pa. unat pa < 2 ^ 46 \<and> \<not> frame_used m pa \<and> in_block m (ttbr1 m) (pa + KZERO))"
            using err(4) page(5,8) user(5) kb used_lt[OF vm_invD(1)[OF user(2)] fu] by auto
        qed (use page(1) frame_range[OF page(4)] user(1) err(1) in
          \<open>simp add: map_user_page_def map_err_unable_def del: of_nat_mult\<close>)
      next
        case (ok m3)
        have rk: "root_page_table m2 Kernel = ttbr1 m" using T by (simp add: root_page_table_def)
        show thesis
        proof (rule that(1)[OF _ ok(2) _ _ _ page(5)])
          show "only_maps R m m3 {(root_pa a, va), (ttbr1 m, ?f + KZERO)}"
            using only_maps_trans[OF O ok(3)] unfolding rk by (simp add: insert_commute del: of_nat_mult)
          show "frame_used m3 ?f" by (rule only_mapsD(2)[OF ok(3) fu])
          show "free_frames m \<le> free_frames m3 + 7" using page(8) user(5) ok(5) by simp
          have "lookup m3 (root_pa a) va = lookup m2 (root_pa a) va"
            by (rule only_mapsD(1)[OF ok(3) a(1) va]) (use a(2) rk in simp)
          then show "lookup m3 (root_pa a) va = Some (leaf e ?f)" using user(4) by (simp add: leaf_def)
        qed (use page(1) frame_range[OF page(4)] user(1) ok(1,4) rk in
          \<open>simp_all add: map_user_page_def map_err_unable_def leaf_def del: of_nat_mult\<close>)
      qed
    qed
  qed
qed

end
