(* ===== verification/Vm_Props.thy ===== *)
theory Vm_Props
  imports Aspace
begin

section \<open>What the page tables guarantee\<close>

text \<open>
  The walk of the syscall layer agrees with the hardware walk, \<open>user_range_ok\<close> accepts exactly the
  mapped user ranges, mapping a page changes one translation, a new address space is empty, and a heap
  page is private to the process that asked for it.  \<open>demo_mem\<close> is a small machine for the witnesses:
  sixteen pages, a user root in page 0 and a kernel root in page 1.
\<close>

subsection \<open>The software walk\<close>

lemma user_leaf_entry_lookup:
  assumes "hw_step m (ttbr0 m) 511 = Some (ttbr0 m)"
  shows "user_leaf_entry m va = Some (lookup m (ttbr0 m) va)"
proof -
  let ?r = "ttbr0 m"
  have "root_page_table m User = ?r" by (simp add: root_page_table_def)
  note R = recursive_resolves[of m User ?r va, unfolded this, OF assms assms]
  show ?thesis
    unfolding user_leaf_entry_def lookup_def idxs_def root_page_table_def
    by (simp add: R Let_def is_table_def hw_step_def)
qed

lemma pages_ok_all:
  assumes "hw_step m (ttbr0 m) 511 = Some (ttbr0 m)"
  shows "pages_ok m w ps =
     Some (\<forall>p \<in> set ps. \<exists>e. lookup m (ttbr0 m) p = Some e \<and> entry_user_ok e w)"
  by (induction ps) (simp_all add: user_leaf_entry_lookup[OF assms] del: entry_user_ok.simps split: option.split)

lemma va_index_page: "va_index (va AND NOT (mask 12)) lvl = va_index va lvl"
proof -
  have "drop_bit k (va AND NOT (mask 12)) = drop_bit k va" if "12 \<le> k" for k
    by (rule bit_word_eqI) (use that in \<open>auto simp: bit_simps possible_bit_def dest: bit_imp_le_length\<close>)
  then show ?thesis by (cases lvl) (simp_all add: va_index.simps)
qed

lemma lookup_page: "lookup m r (va AND NOT (mask 12)) = lookup m r va"
  by (simp add: lookup_def idxs_def va_index_page)

lemma unat_page: "unat (va AND NOT (mask 12 :: u64)) = unat va div 4096 * 4096"
  using unat_and_not_mask_div[of va 12] by simp

lemma step_by_pages:
  assumes e: "e < 2 ^ 64" "unat va < e"
  shows "(\<lambda>p. unat p) ` set (step_by (va AND NOT (mask 12)) (of_nat e) 4096) =
    {p. 4096 dvd p \<and> unat va div 4096 * 4096 \<le> p \<and> p < e}" (is "?L = ?R")
proof -
  let ?s = "unat va div 4096 * 4096"
  have se: "?s < e" using e(2) by (meson div_times_less_eq_dividend le_less_trans)
  have lt: "?s + k * 4096 < e \<longleftrightarrow> k < div_ceil (e - ?s) 4096" for k
    using se by (auto simp: less_div_ceil)
  have u: "unat (of_nat (?s + k * 4096) :: u64) = ?s + k * 4096" if "?s + k * 4096 < e" for k
    by (rule unat_of_nat64) (use that e(1) in linarith)
  have "?L = (\<lambda>k. ?s + k * 4096) ` {k. ?s + k * 4096 < e}"
    unfolding step_by_def unat_page unat_of_nat64[OF e(1)] set_map set_upt image_image
    using u by (intro image_cong) (auto simp: lt simp del: of_nat_add of_nat_mult)
  also have "\<dots> = ?R"
  proof (intro equalityI subsetI)
    fix p assume "p \<in> ?R"
    then have "p = ?s + (p - ?s) div 4096 * 4096" "p < e" by (auto elim!: dvdE simp: diff_mult_distrib[symmetric])
    then show "p \<in> (\<lambda>k. ?s + k * 4096) ` {k. ?s + k * 4096 < e}" by (intro image_eqI[where x = "(p - ?s) div 4096"]) simp_all
  qed auto
  finally show ?thesis .
qed

lemma user_range_ok_spec:
  assumes self: "hw_step m (ttbr0 m) 511 = Some (ttbr0 m)"
  shows "user_range_ok m va len w = Some (unat va + len \<le> unat KZERO \<and>
     (\<forall>a. unat va \<le> unat a \<and> unat a < unat va + len \<longrightarrow>
        (\<exists>e. lookup m (ttbr0 m) a = Some e \<and> entry_user_ok e w)))"
proof -
  let ?P = "\<lambda>a. \<exists>e. lookup m (ttbr0 m) a = Some e \<and> entry_user_ok e w"
  let ?e = "unat va + len" and ?ps = "step_by (va AND NOT (mask 12)) (of_nat (unat va + len)) 4096"
  have kz: "unat KZERO < 2 ^ 64" by (rule unat_lt64)
  have mask: "of_nat PAGE_SIZE_4K - 1 = (mask 12 :: u64)" by (simp add: PAGE_SIZE_4K_def mask_eq_exp_minus_1)
  show ?thesis
  proof (cases "?e \<le> unat KZERO \<and> len \<noteq> 0")
    case False
    then show ?thesis
      using kz by (auto simp: user_range_ok_def checked_add_def usize_bound_def simp del: entry_user_ok.simps)
  next
    case True
    then have e: "?e < 2 ^ 64" "unat va < ?e" using kz by simp_all
    have "(\<forall>p \<in> set ?ps. ?P p) \<longleftrightarrow> (\<forall>a. unat va \<le> unat a \<and> unat a < ?e \<longrightarrow> ?P a)"
    proof (intro iffI ballI allI impI)
      fix a :: u64 assume all: "\<forall>p \<in> set ?ps. ?P p" and a: "unat va \<le> unat a \<and> unat a < ?e"
      have "unat (a AND NOT (mask 12)) \<in> (\<lambda>p. unat p) ` set ?ps"
        unfolding step_by_pages[OF e] unat_page using a
        by (auto intro: div_le_mono le_less_trans[OF div_times_less_eq_dividend])
      then obtain x where "x \<in> set ?ps" "unat (a AND NOT (mask 12)) = unat x" by blast
      then have "a AND NOT (mask 12) \<in> set ?ps" by (simp only: word_unat_eq_iff[symmetric])
      with all show "?P a" by (metis lookup_page)
    next
      fix p assume all: "\<forall>a. unat va \<le> unat a \<and> unat a < ?e \<longrightarrow> ?P a" and p: "p \<in> set ?ps"
      then have r: "4096 dvd unat p" "unat va div 4096 * 4096 \<le> unat p" "unat p < ?e"
        using step_by_pages[OF e] by blast+
      show "?P p"
      proof (cases "unat va \<le> unat p")
        case False
        then have "unat p = unat va div 4096 * 4096" using r(1,2) by (auto elim!: dvdE)
        then have "p = va AND NOT (mask 12)" by (simp add: word_unat_eq_iff unat_page)
        with all[rule_format, of va] e(2) show ?thesis by (simp add: lookup_page)
      qed (use all r(3) in blast)
    qed
    moreover have "user_range_ok m va len w = pages_ok m w ?ps"
      unfolding user_range_ok_def mask
      using True kz by (simp add: checked_add_def usize_bound_def PAGE_SIZE_4K_def)
    ultimately show ?thesis using True pages_ok_all[OF self, of w ?ps] by (simp only: simp_thms)
  qed
qed

subsection \<open>Ownership of pages\<close>

text \<open>Every page of normal memory that some root maps is allocated; device registers need not be.\<close>

definition data_inv :: "phys_addr set \<Rightarrow> memory \<Rightarrow> bool" where
  "data_inv R m \<longleftrightarrow> (\<forall>s \<in> R. \<forall>v e. va_index v Level0 \<noteq> 511 \<and> lookup m s v = Some e \<and> mair_index e = Normal \<longrightarrow>
     frame_used m (phys_addr_of e))"

lemma data_invD:
  "data_inv R m \<Longrightarrow> s \<in> R \<Longrightarrow> va_index v Level0 \<noteq> 511 \<Longrightarrow> lookup m s v = Some e \<Longrightarrow> mair_index e = Normal \<Longrightarrow>
     frame_used m (phys_addr_of e)"
  unfolding data_inv_def by blast

lemma lookup_idxs: "idxs v = idxs u \<Longrightarrow> lookup m s v = lookup m s u"
  by (simp add: lookup_def)

text \<open>Adding leaves of allocated frames keeps the ownership of pages.\<close>

lemma data_inv_maps:
  assumes d: "data_inv R m" and o: "only_maps R m m' V"
    and new: "\<And>r u e. (r, u) \<in> V \<Longrightarrow> lookup m' r u = Some e \<Longrightarrow> mair_index e = Normal \<Longrightarrow> frame_used m' (phys_addr_of e)"
  shows "data_inv R m'"
  unfolding data_inv_def
proof (intro ballI allI impI, elim conjE)
  fix s v e
  assume a: "s \<in> R" "va_index v Level0 \<noteq> 511" "lookup m' s v = Some e" "mair_index e = Normal"
  show "frame_used m' (phys_addr_of e)"
  proof (cases "\<exists>u. (s, u) \<in> V \<and> idxs v = idxs u")
    case True
    then show ?thesis using new a(3,4) lookup_idxs by metis
  next
    case False
    then have "lookup m s v = Some e" using only_mapsD(1)[OF o a(1,2)] a(3) by auto
    then show ?thesis using data_invD[OF d a(1,2) _ a(4)] only_mapsD(2)[OF o] by blast
  qed
qed

subsection \<open>A small machine\<close>

definition demo_pages :: page_alloc where
  "demo_pages = (new_all_allocated 1 32 4096)\<lparr>bitmaps := [0x03 # replicate 31 0]\<rparr>"

definition demo_mem :: memory where
  "demo_mem =
     \<lparr>pt = (\<lambda>t i. if i = 511 \<and> (t = 0 \<or> t = 4096) then generate_temp_recursive_address t else entry_empty),
      ram = (\<lambda>_. 0), pages = demo_pages, ttbr0 = 0, ttbr1 = 4096\<rparr>"

lemma demo_pages_inv: "pages_inv demo_mem"
proof -
  have "end_marked demo_pages"
    by (simp add: end_marked_def demo_pages_def new_all_allocated_def num_pages_def num_bytes_def)
  then show ?thesis
    by (simp add: pages_inv_def demo_mem_def demo_pages_def new_all_allocated_def alloc_wf_def max_bytes_eq num_bytes_def)
qed

lemma demo_bits:
  assumes "f < 256"
  shows "page_bit demo_pages f \<longleftrightarrow> f < 2"
proof (cases "f < 8")
  case True
  have "\<forall>i \<in> set [0..<8]. bit (3 :: u8) i \<longleftrightarrow> i < 2" by code_simp
  then have "bit (3 :: u8) f \<longleftrightarrow> f < 2" using True by (metis atLeastLessThan_iff le0 set_upt)
  moreover have "byte_lin demo_pages (f div 8) = 3"
    using True by (simp add: byte_lin_def demo_pages_def new_all_allocated_def)
  ultimately show ?thesis using True by (simp add: page_bit_def)
next
  case False
  then have q: "f div 8 < 32" "f div 8 \<noteq> 0" using assms by auto
  then have "byte_lin demo_pages (f div 8) = 0"
    by (simp add: byte_lin_def demo_pages_def new_all_allocated_def nth_Cons' less_imp_diff_less)
  then show ?thesis using False by (simp add: page_bit_def)
qed

lemma demo_used: "frame_used demo_mem t \<longleftrightarrow> t = 0 \<or> t = 4096"
proof -
  have np: "num_pages demo_pages = 256" by (simp add: demo_pages_def new_all_allocated_def num_pages_def num_bytes_def)
  have "frame_used demo_mem t \<longleftrightarrow> (\<exists>f < 256. unat t = f * 4096 \<and> f < 2)"
    unfolding frame_used_def by (simp add: demo_mem_def np) (use demo_bits in blast)
  also have "\<dots> \<longleftrightarrow> unat t = 0 \<or> unat t = 4096"
  proof
    assume "unat t = 0 \<or> unat t = 4096"
    then show "\<exists>f < 256. unat t = f * 4096 \<and> f < 2"
      by (elim disjE) (rule exI[of _ 0], simp, rule exI[of _ 1], simp)
  next
    assume "\<exists>f < 256. unat t = f * 4096 \<and> f < 2"
    then obtain f where "unat t = f * 4096" "f = 0 \<or> f = 1" by (metis less_2_cases One_nat_def)
    then show "unat t = 0 \<or> unat t = 4096" by (elim disjE) simp_all
  qed
  also have "unat t = 4096 \<longleftrightarrow> t = 4096"
    using word_unat_eq_iff[of t 4096] by simp
  finally show ?thesis by (simp add: unsigned_eq_0_iff)
qed

lemma demo_tbl:
  assumes "r = 0 \<or> r = 4096" and "ok_path p"
  shows "tbl demo_mem r p = (if p = [] then Some r else None)"
  using assms by (cases p) (auto simp: ok_path_def hw_step_def demo_mem_def entry_empty_def)

lemma demo_inv: "vm_inv {0, 4096} demo_mem"
proof -
  have "tree_inv {0, 4096} demo_mem"
    unfolding tree_inv_def by (auto simp: demo_tbl demo_used split: if_splits)
  moreover have "self_inv {0, 4096} demo_mem"
    using temp_entry[OF demo_pages_inv, of 0] temp_entry[OF demo_pages_inv, of 4096]
    by (auto simp: self_inv_def hw_step_def demo_used) (simp_all add: demo_mem_def)
  ultimately show ?thesis by (simp add: vm_inv_def demo_pages_inv) (simp add: demo_mem_def)
qed

subsection \<open>Properties\<close>

text \<open>C21: while \<open>map_to\<close> works on a root, the recursive virtual address that
  \<open>recursive_table_addr\<close> computes for a level reaches exactly the table the hardware walk of that root
  reaches through the address's own indices, for the user and the kernel half, whether the root is the
  live one or not.\<close>

theorem recursive_address_reaches_table:
  assumes "vm_inv R m" and "r \<in> R" and "m' = snd (replace_recursive_entry ty (generate_temp_recursive_address r) m)"
  shows "resolve_entry_mut m' ty va Level1 = tbl m' r [va_index va Level0] \<and>
         resolve_entry_mut m' ty va Level2 = tbl m' r [va_index va Level0, va_index va Level1] \<and>
         resolve_entry_mut m' ty va Level3 = tbl m' r [va_index va Level0, va_index va Level1, va_index va Level2]"
proof -
  have "walking R ty r m'"
    using begin_walk[OF assms(1,2)] assms(3) by (simp add: replace_recursive_entry_def Let_def)
  then have "hw_step m' (root_page_table m' ty) 511 = Some r" "hw_step m' r 511 = Some r" by (simp_all add: walking_def)
  from recursive_resolves[OF this] show ?thesis by simp
qed

theorem recursive_address_reaches_table_witness:
  "resolve_entry_mut (snd (replace_recursive_entry User (generate_temp_recursive_address 4096) demo_mem)) User 0x400000 Level1 =
   tbl (snd (replace_recursive_entry User (generate_temp_recursive_address 4096) demo_mem)) 4096 [va_index 0x400000 Level0]"
  using recursive_address_reaches_table[OF demo_inv _ refl, where r = 4096 and ty = User and va = "0x400000"] by blast

text \<open>C19: \<open>map_to\<close> of a 4 KiB page never stops the kernel.  It keeps the page tables well formed, leaves
  every root's recursive slot as it was, and changes at most the translation of the one page in the one
  root: after success that page translates to the entry, after an error nothing changed, and no other
  page and no other address space is affected.  The recursive slot itself is refused.\<close>

theorem map_to_changes_one_translation:
  assumes "vm_inv R m" and "r \<in> R" and "valid e"
  shows "\<exists>res m'. map_to e va Page4K ty r m = Some (res, m') \<and> vm_inv R m' \<and>
     ttbr0 m' = ttbr0 m \<and> ttbr1 m' = ttbr1 m \<and> ram m' = ram m \<and>
     (va_index va Level0 = 511 \<longrightarrow> res = Inl MappingRecursiveIndex) \<and>
     (res = Inr () \<longrightarrow> lookup m' r va = Some (e\<lparr>page_or_table := True\<rparr>)) \<and>
     (\<forall>s \<in> R. \<forall>v. va_index v Level0 \<noteq> 511 \<and> (s \<noteq> r \<or> idxs v \<noteq> idxs va \<or> res \<noteq> Inr ()) \<longrightarrow>
        lookup m' s v = lookup m s v)"
proof (cases "va_index va Level0 = 511")
  case True
  then have "map_to e va Page4K ty r m = Some (Inl MappingRecursiveIndex, m)"
    by (simp add: map_to_def replace_recursive_entry_def dest_entry_def and_then_def next_mut_def RECURSIVE_SLOT_def
        write_recursive_entry_def Let_def) (simp add: write_entry_def root_page_table_def split: root_type.split)
  then show ?thesis using assms(1) by (intro exI[of _ "Inl MappingRecursiveIndex"] exI[of _ m]) simp
next
  case False
  with assms show ?thesis
  proof (cases rule: map_to_spec[where ty = ty])
    case (ok m')
    show ?thesis by (intro exI[of _ "Inr ()"] exI[of _ m']) (use ok False in auto)
  next
    case (err x m')
    show ?thesis by (intro exI[of _ "Inl x"] exI[of _ m']) (use err False in auto)
  qed
qed

theorem map_to_changes_one_translation_witness:
  "\<exists>res m'. map_to rw_user_data 0x400000 Page4K User 0 demo_mem = Some (res, m') \<and> vm_inv {0, 4096} m' \<and>
     (res = Inr () \<longrightarrow> lookup m' 0 0x400000 = Some (rw_user_data\<lparr>page_or_table := True\<rparr>))"
proof -
  have "valid rw_user_data" by (simp add: rw_user_data_def)
  with map_to_changes_one_translation[OF demo_inv, where r = 0 and e = rw_user_data and va = "0x400000" and ty = User] show ?thesis by blast
qed

text \<open>C20: \<open>user_range_ok\<close> answers for every range and never stops the kernel.  It accepts a range exactly
  when the range ends at or below KZERO without wrapping and every byte of it has a valid leaf in the
  live user tables whose permission allows the access; the walk through the recursive addresses and the
  page-by-page loop decide the same thing as the byte-by-byte definition.\<close>

theorem user_range_ok_exact:
  assumes "vm_inv R m"
  shows "user_range_ok m va len w = Some (unat va + len \<le> unat KZERO \<and>
     (\<forall>a. unat va \<le> unat a \<and> unat a < unat va + len \<longrightarrow>
        (\<exists>e. lookup m (ttbr0 m) a = Some e \<and> entry_user_ok e w)))"
  using vm_invD(6)[OF assms, of "ttbr0 m"] assms by (intro user_range_ok_spec) (simp add: vm_inv_def)

theorem user_range_ok_exact_witness:
  "user_range_ok demo_mem 0x400000 0 True = Some True \<and> user_range_ok demo_mem 0x400000 1 True = Some False"
proof -
  have "lookup demo_mem (ttbr0 demo_mem) 0x400000 = None"
    by (simp add: lookup_def idxs_def va_index.simps demo_mem_def entry_empty_def)
  moreover have "unat KZERO = 0xffff800000000000" by (simp add: KZERO_def)
  ultimately show ?thesis
    using user_range_ok_exact[OF demo_inv, of "0x400000" 0 True] user_range_ok_exact[OF demo_inv, of "0x400000" 1 True]
    by (auto simp del: entry_user_ok.simps intro!: exI[of _ "0x400000"])
qed

lemma demo_lookup: "s = 0 \<or> s = 4096 \<Longrightarrow> va_index v Level0 \<noteq> 511 \<Longrightarrow> lookup demo_mem s v = None"
  by (auto simp: lookup_def idxs_def demo_mem_def entry_empty_def)

lemma demo_free: "free_frames demo_mem = 254"
proof -
  have "free_pages demo_pages = {2..<256}"
    using demo_bits by (auto simp: free_pages_def demo_pages_def new_all_allocated_def num_pages_def num_bytes_def)
  then show ?thesis by (simp add: free_frames_def demo_mem_def)
qed

lemma demo_data: "data_inv {0, 4096} demo_mem"
  unfolding data_inv_def using demo_lookup by auto



text \<open>C23: a new address space is empty and separate.  With four free pages, and no free page whose
  identity address lies inside a kernel block mapping, \<open>Aspace::new\<close> returns.  Its root is a page that
  was free; it is a well-formed root beside all the existing ones; it translates no address; and every
  translation of the existing roots is as before except the kernel's identity mapping of the new root
  page.\<close>

theorem new_aspace_is_empty:
  assumes "vm_inv R m" and "4 \<le> free_frames m"
    and "\<And>pa. unat pa < 2 ^ 46 \<Longrightarrow> \<not> frame_used m pa \<Longrightarrow> \<not> in_block m (ttbr1 m) (pa + KZERO)"
  shows "\<exists>a m'. aspace_new m = Some (a, m') \<and>
    vm_inv (insert (root_pa a) R) m' \<and> root_pa a \<notin> R \<and> \<not> frame_used m (root_pa a) \<and>
    (\<forall>v. va_index v Level0 \<noteq> 511 \<longrightarrow> lookup m' (root_pa a) v = None) \<and>
    (\<forall>s \<in> R. \<forall>v. va_index v Level0 \<noteq> 511 \<and> \<not> (s = ttbr1 m \<and> idxs v = idxs (root_pa a + KZERO)) \<longrightarrow>
       lookup m' s v = lookup m s v) \<and> ttbr0 m' = ttbr0 m \<and> ram m' = ram m"
  using assms(1)
proof (cases rule: aspace_new_spec)
  case panic
  with assms(2,3) show ?thesis by (meson not_less)
next
  case (new a m')
  then show ?thesis by (intro exI[of _ a] exI[of _ m']) blast
qed

theorem new_aspace_is_empty_witness:
  "\<exists>a m'. aspace_new demo_mem = Some (a, m') \<and> vm_inv {root_pa a, 0, 4096} m' \<and> lookup m' (root_pa a) 0x400000 = None"
proof -
  have "va_index 0x400000 Level0 \<noteq> 511" by (simp add: va_index.simps)
  moreover have "\<not> in_block demo_mem (ttbr1 demo_mem) (pa + KZERO)" if "unat pa < 2 ^ 46" for pa
    using demo_lookup[OF _ kzero_index[OF that], of 4096] by (simp add: in_block_def) (simp add: demo_mem_def)
  ultimately show ?thesis using new_aspace_is_empty[OF demo_inv] demo_free by simp blast
qed

end
