(* ===== verification/Vm_Access.thy ===== *)
theory Vm_Access
  imports Vm_Props
begin

section \<open>Memory accesses through the page tables\<close>

text \<open>
  What a load or a store of the kernel at a virtual address does: the hardware picks the root by the
  sixteen top bits of the address (48-bit addresses, as \<open>vm.rs\<close> assumes), walks the tables to a leaf
  and checks its permission for a privileged access.  A fault inside the kernel is a kernel stop,
  \<open>None\<close>.  Bytes are accessed one at a time; a copy is the sequence of its bytes.
\<close>

fun hw_leaf :: "memory \<Rightarrow> u64 \<Rightarrow> level list \<Rightarrow> phys_addr \<Rightarrow> (entry \<times> level) option" where
  "hw_leaf m va [] t = None"
| "hw_leaf m va (lvl # lvls) t =
     (let e = pt m t (va_index va lvl) in
      if \<not> valid e then None
      else if lvl = Level3 then (if page_or_table e then Some (e, lvl) else None)
      else if page_or_table e then hw_leaf m va lvls (phys_addr_of e)
      else if lvl = Level0 then None else Some (e, lvl))"

fun leaf_bits :: "level \<Rightarrow> nat" where
  "leaf_bits Level0 = 39"
| "leaf_bits Level1 = 30"
| "leaf_bits Level2 = 21"
| "leaf_bits Level3 = 12"

definition hw_root :: "memory \<Rightarrow> u64 \<Rightarrow> phys_addr option" where
  "hw_root m va =
     (if drop_bit 48 va = 0 then Some (ttbr0 m) else if drop_bit 48 va = 0xffff then Some (ttbr1 m) else None)"

definition translate :: "memory \<Rightarrow> u64 \<Rightarrow> (entry \<times> phys_addr) option" where
  "translate m va =
     do { r \<leftarrow> hw_root m va;
          (e, lvl) \<leftarrow> hw_leaf m va [Level0, Level1, Level2, Level3] r;
          Some (e, (phys_addr_of e AND NOT (mask (leaf_bits lvl))) OR (va AND mask (leaf_bits lvl))) }"

definition load_byte :: "memory \<Rightarrow> u64 \<Rightarrow> u8 option" where
  "load_byte m va = do { (e, pa) \<leftarrow> translate m va; Some (ram m pa) }"

definition store_byte :: "u64 \<Rightarrow> u8 \<Rightarrow> memory \<Rightarrow> memory option" where
  "store_byte va b m =
     do { (e, pa) \<leftarrow> translate m va;
          assert_that (access_permission e = PrivRw \<or> access_permission e = AllRw);
          Some (m\<lparr>ram := (ram m)(pa := b)\<rparr>) }"

fun load_bytes :: "memory \<Rightarrow> u64 \<Rightarrow> nat \<Rightarrow> u8 list option" where
  "load_bytes m va 0 = Some []"
| "load_bytes m va (Suc n) = do { b \<leftarrow> load_byte m va; bs \<leftarrow> load_bytes m (va + 1) n; Some (b # bs) }"

fun store_bytes :: "u64 \<Rightarrow> u8 list \<Rightarrow> memory \<Rightarrow> memory option" where
  "store_bytes va [] m = Some m"
| "store_bytes va (b # bs) m = do { m1 \<leftarrow> store_byte va b m; store_bytes (va + 1) bs m1 }"

subsection \<open>Translations and lookups\<close>

lemma hw_leaf_lookup:
  assumes "lookup m r va = Some e" and "page_or_table e"
  shows "hw_leaf m va [Level0, Level1, Level2, Level3] r = Some (e, Level3)"
  using assms by (auto simp: lookup_def idxs_def Let_def split: if_splits)

lemma phys_addr_low: "phys_addr_of e AND NOT (mask 12) = phys_addr_of e"
  by (rule bit_word_eqI) (auto simp: phys_addr_of_def bit_simps possible_bit_def)

lemma translate_page:
  assumes "hw_root m va = Some r" and "lookup m r va = Some e" and "page_or_table e"
  shows "translate m va = Some (e, phys_addr_of e OR (va AND mask 12))"
  using assms by (simp add: translate_def hw_leaf_lookup phys_addr_low del: hw_leaf.simps)

text \<open>Stores change the bytes and nothing else.\<close>

lemma pt_same:
  assumes "pt m' = pt m"
  shows "lookup m' r v = lookup m r v" and "hw_leaf m' v ls t = hw_leaf m v ls t"
proof -
  show "lookup m' r v = lookup m r v" using walk_pt[OF assms] by (simp add: lookup_def)
  show "hw_leaf m' v ls t = hw_leaf m v ls t"
    by (induction ls arbitrary: t) (simp_all add: assms Let_def)
qed

lemma translate_ram [simp]: "translate (m\<lparr>ram := f\<rparr>) va = translate m va"
  by (simp add: translate_def hw_root_def pt_same(2)[of "m\<lparr>ram := f\<rparr>" m] del: hw_leaf.simps)

lemma store_bytes_only_ram: "store_bytes va bs m = Some m' \<Longrightarrow> m' = m\<lparr>ram := ram m'\<rparr>"
proof (induction bs arbitrary: va m)
  case (Cons b bs)
  then obtain m1 where m1: "store_byte va b m = Some m1" "store_bytes (va + 1) bs m1 = Some m'"
    by (auto simp: bind_eq_Some_conv)
  then have "m1 = m\<lparr>ram := ram m1\<rparr>" by (auto simp: store_byte_def bind_eq_Some_conv split: if_splits)
  with Cons.IH[OF m1(2)] show ?case by (metis (no_types, lifting) memory.simps(7) memory.surjective memory.update_convs(2))
qed simp

text \<open>A copy to or from consecutive physical addresses.\<close>

definition put_bytes :: "phys_addr \<Rightarrow> u8 list \<Rightarrow> (phys_addr \<Rightarrow> u8) \<Rightarrow> phys_addr \<Rightarrow> u8" where
  "put_bytes pa bs f = (\<lambda>a. if unat (a - pa) < length bs then bs ! unat (a - pa) else f a)"

lemma put_bytes_Cons:
  assumes "Suc (length bs) < 2 ^ 64"
  shows "put_bytes (pa + 1) bs (f(pa := b)) = put_bytes pa (b # bs) f"
proof
  fix a
  show "put_bytes (pa + 1) bs (f(pa := b)) a = put_bytes pa (b # bs) f a"
  proof (cases "a = pa")
    case True
    have "unat (-1 :: u64) = 2 ^ 64 - 1" unfolding unsigned_minus_1_eq_mask mask_eq_exp_minus_1 by simp
    moreover have "a - (pa + 1) = -1" using True by simp
    ultimately have "unat (a - (pa + 1)) = 2 ^ 64 - 1" by (simp only:)
    then have "\<not> unat (a - (pa + 1)) < length bs" using assms by linarith
    with True show ?thesis by (simp add: put_bytes_def)
  next
    case False
    then have "a - pa \<noteq> 0" by simp
    then have "unat (a - pa) = Suc (unat (a - pa - 1))"
      using unat_minus_one[of "a - pa"] unat_gt_0[of "a - pa"] by linarith
    then have "unat (a - pa) = Suc (unat (a - (pa + 1)))" by (simp only: diff_diff_eq)
    then show ?thesis using False by (simp add: put_bytes_def)
  qed
qed

lemma store_bytes_eq:
  assumes "length bs < 2 ^ 64"
    and "\<And>i. i < length bs \<Longrightarrow> \<exists>e. translate m (va + of_nat i) = Some (e, pa + of_nat i) \<and>
           (access_permission e = PrivRw \<or> access_permission e = AllRw)"
  shows "store_bytes va bs m = Some (m\<lparr>ram := put_bytes pa bs (ram m)\<rparr>)"
  using assms
proof (induction bs arbitrary: va pa m)
  case Nil
  then show ?case by (simp add: put_bytes_def)
next
  case (Cons b bs)
  let ?m1 = "m\<lparr>ram := (ram m)(pa := b)\<rparr>"
  from Cons.prems(2)[of 0] obtain e where "translate m va = Some (e, pa)"
    "access_permission e = PrivRw \<or> access_permission e = AllRw" by auto
  then have "store_byte va b m = Some ?m1" by (simp add: store_byte_def)
  moreover have "store_bytes (va + 1) bs ?m1 = Some (?m1\<lparr>ram := put_bytes (pa + 1) bs (ram ?m1)\<rparr>)"
  proof (rule Cons.IH)
    fix i assume "i < length bs"
    then show "\<exists>e. translate ?m1 (va + 1 + of_nat i) = Some (e, pa + 1 + of_nat i) \<and>
        (access_permission e = PrivRw \<or> access_permission e = AllRw)"
      using Cons.prems(2)[of "Suc i"] by (simp add: add.assoc)
  qed (use Cons.prems(1) in simp)
  ultimately show ?case using put_bytes_Cons[of bs pa "ram m" b] Cons.prems(1) by simp
qed

lemma load_bytes_eq:
  assumes "\<And>i. i < n \<Longrightarrow> \<exists>e. translate m (va + of_nat i) = Some (e, pa i)"
  shows "load_bytes m va n = Some (map (\<lambda>i. ram m (pa i)) [0..<n])"
  using assms
proof (induction n arbitrary: va pa)
  case (Suc n)
  from Suc.prems[of 0] have "load_byte m va = Some (ram m (pa 0))" by (auto simp: load_byte_def)
  moreover have "load_bytes m (va + 1) n = Some (map (\<lambda>i. ram m (pa (Suc i))) [0..<n])"
    by (rule Suc.IH) (use Suc.prems[of "Suc _"] in \<open>simp add: add.assoc\<close>)
  ultimately show ?case by (simp add: map_upt_Suc del: upt_Suc)
qed simp

text \<open>The bytes of one page.\<close>

lemma page_offset:
  assumes "va AND mask 12 = 0" and "i < 4096"
  shows "va_index (va + of_nat i) lvl = va_index va lvl" and "(va + of_nat i) AND mask 12 = of_nat i"
    and "drop_bit 48 (va + of_nat i) = drop_bit 48 va"
proof -
  have ti: "take_bit 12 (of_nat i :: u64) = of_nat i"
    unfolding word_unat_eq_iff unsigned_take_bit_eq using assms(2) by (simp add: unat_of_nat64 take_bit_eq_mod)
  have b: "bit (of_nat i :: u64) n \<Longrightarrow> n < 12" for n using ti by (metis bit_take_bit_iff)
  have lo: "\<not> bit va n" if "n < 12" for n
    using assms(1) that by (metis bit_0_eq bit_and_iff bit_mask_iff bot_apply bot_bool_def bit_imp_le_length possible_bit_word)
  have "va AND of_nat i = 0" by (rule bit_word_eqI) (use lo b in \<open>auto simp: bit_simps\<close>)
  then have eq: "va + of_nat i = va OR of_nat i" by (metis disjunctive_add bit_and_iff bit_0_eq bot_apply bot_bool_def)
  have "(va + of_nat i) AND NOT (mask 12) = va AND NOT (mask 12)"
    unfolding eq by (rule bit_word_eqI) (use b in \<open>auto simp: bit_simps\<close>)
  then show "va_index (va + of_nat i) lvl = va_index va lvl" by (metis va_index_page)
  show "(va + of_nat i) AND mask 12 = of_nat i"
    unfolding eq by (rule bit_word_eqI) (use lo b in \<open>auto simp: bit_simps possible_bit_def\<close>)
  show "drop_bit 48 (va + of_nat i) = drop_bit 48 va"
    unfolding eq
  proof (rule bit_word_eqI)
    fix n
    have "\<not> bit (of_nat i :: u64) (48 + n)" using b[of "48 + n"] by auto
    then show "bit (drop_bit 48 (va OR of_nat i)) n = bit (drop_bit 48 va) n"
      by (simp add: bit_drop_bit_eq bit_or_iff)
  qed
qed

end
