(* ===== verification/Abi.thy ===== *)
theory Abi
  imports R9_Prelude
begin

section \<open>The binary-format and system-call ABI (\<open>abi/src/lib.rs\<close>)\<close>

text \<open>
  The constants the kernel, the loader and the servers share: the layout of a user image, the trap
  numbers and the result codes.  \<open>MSG_MAX\<close> and \<open>RECEIVE_TIMEOUT\<close> are declared with the channels that
  use them.
\<close>

definition IMAGE_BASE :: nat where "IMAGE_BASE = 0x100000"
definition HANDLES_VA :: nat where "HANDLES_VA = 0x1000000"
definition PAGE_SIZE :: nat where "PAGE_SIZE = 4096"
definition SYSEXIT :: u64 where "SYSEXIT = 0"
definition SYSYIELD :: u64 where "SYSYIELD = 1"
definition SYCSEND :: u64 where "SYCSEND = 16"
definition SYCRECEIVE :: u64 where "SYCRECEIVE = 17"
definition SYCREPLY :: u64 where "SYCREPLY = 18"
definition SYSIRQCLAIM :: u64 where "SYSIRQCLAIM = 19"
definition SYSMAPMMIO :: u64 where "SYSMAPMMIO = 20"
definition SYCCREATECHAN :: u64 where "SYCCREATECHAN = 21"
definition SYS_ALLOC :: u64 where "SYS_ALLOC = 22"
definition SYS_FREE :: u64 where "SYS_FREE = 23"
definition SYS_SPAWN :: u64 where "SYS_SPAWN = 24"
definition SYS_CLOCK :: u64 where "SYS_CLOCK = 25"
definition SYS_RECEIVE_AT :: u64 where "SYS_RECEIVE_AT = 26"
definition SYS_ALLOC_PAGE :: u64 where "SYS_ALLOC_PAGE = 27"
definition SYS_WAIT :: u64 where "SYS_WAIT = 28"
definition WAIT_TIMEOUT :: u64 where "WAIT_TIMEOUT = 0xffffffff"
definition WAIT_BAD_ID :: u64 where "WAIT_BAD_ID = 0xfffffffe"
definition SYS_KILL :: u64 where "SYS_KILL = 29"
definition KILL_BAD_ID :: u64 where "KILL_BAD_ID = 1"
definition SYS_SETPRIO :: u64 where "SYS_SETPRIO = 30"
definition SETPRIO_BAD_ID :: u64 where "SETPRIO_BAD_ID = 1"
definition SETPRIO_BAD_PRIO :: u64 where "SETPRIO_BAD_PRIO = 2"
definition SYS_PRINT :: u64 where "SYS_PRINT = 31"
definition SPAWN_ERR_MIN :: u64 where "SPAWN_ERR_MIN = 128"
definition SPAWN_BAD_INDEX :: u64 where "SPAWN_BAD_INDEX = 128"
definition SPAWN_NO_SLOT :: u64 where "SPAWN_NO_SLOT = 129"
definition SPAWN_BAD_STATE :: u64 where "SPAWN_BAD_STATE = 130"
definition RECEIVE_CLOSED :: u16 where "RECEIVE_CLOSED = 2"
definition SPAWN_MAX_HANDLES :: nat where "SPAWN_MAX_HANDLES = 512"

text \<open>The trap numbers are pairwise different, so the dispatch on the number is unambiguous.\<close>

lemma trap_numbers_distinct:
  "distinct [SYSEXIT, SYSYIELD, SYCSEND, SYCRECEIVE, SYCREPLY, SYSIRQCLAIM, SYSMAPMMIO, SYCCREATECHAN, SYS_ALLOC,
     SYS_FREE, SYS_SPAWN, SYS_CLOCK, SYS_RECEIVE_AT, SYS_ALLOC_PAGE, SYS_WAIT, SYS_KILL, SYS_SETPRIO, SYS_PRINT]"
  by (simp add: SYSEXIT_def SYSYIELD_def SYCSEND_def SYCRECEIVE_def SYCREPLY_def SYSIRQCLAIM_def SYSMAPMMIO_def
      SYCCREATECHAN_def SYS_ALLOC_def SYS_FREE_def SYS_SPAWN_def SYS_CLOCK_def SYS_RECEIVE_AT_def SYS_ALLOC_PAGE_def
      SYS_WAIT_def SYS_KILL_def SYS_SETPRIO_def SYS_PRINT_def)

end
