(* ===== verification/Elf_Loader.thy ===== *)
theory Elf_Loader
  imports Elf_Reader Vm_Access Abi
begin

section \<open>Loading a program (\<open>aarch64/src/process.rs\<close>, \<open>load_elf\<close>)\<close>

text \<open>
  The placement checks, the mapping and filling of the segments' pages, and the stack.  Every panic of
  the source is \<open>None\<close>.  The kernel writes the pages through the identity address \<open>map_user_page\<close>
  returns, so the copy goes through the kernel's own translation.
\<close>

definition ELF_BASE :: nat where "ELF_BASE = IMAGE_BASE"
definition STACK_PAGES :: nat where "STACK_PAGES = 16"

definition page_down :: "nat \<Rightarrow> nat" where
  "page_down n = n div PAGE_SIZE_4K * PAGE_SIZE_4K"

definition page_up :: "nat \<Rightarrow> nat option" where
  "page_up n = do { e \<leftarrow> checked_add n PAGE_SIZE_4K; Some ((e - 1) div PAGE_SIZE_4K * PAGE_SIZE_4K) }"

record loaded_elf =
  ld_aspace :: aspace
  ld_entry :: u64
  ld_user_sp :: nat
  ld_heap_base :: nat
  ld_symtab :: "sym_table option"

definition seg_end :: "segment \<Rightarrow> nat" where
  "seg_end s = unat (seg_vaddr s) + unat (seg_memsz s)"

text \<open>The inner loop: the pages of this segment against those of every earlier one.\<close>

fun no_overlap :: "nat \<Rightarrow> nat \<Rightarrow> segment list \<Rightarrow> unit option" where
  "no_overlap page_lo page_hi [] = Some ()"
| "no_overlap page_lo page_hi (prev # ps) =
     do {
       pend \<leftarrow> checked_add (unat (seg_vaddr prev)) (unat (seg_memsz prev));
       p_hi \<leftarrow> page_up pend;
       let p_lo = page_down (unat (seg_vaddr prev));
       assert_that (\<not> (page_lo < p_hi \<and> p_lo < page_hi));
       no_overlap page_lo page_hi ps
     }"

fun placement :: "segment list \<Rightarrow> segment list \<Rightarrow> nat \<Rightarrow> nat option" where
  "placement prevs [] tp = Some tp"
| "placement prevs (s # ss) tp =
     do {
       let vaddr = unat (seg_vaddr s);
       assert_that (ELF_BASE \<le> vaddr);
       e \<leftarrow> checked_add vaddr (unat (seg_memsz s));
       let page_lo = page_down vaddr;
       page_hi \<leftarrow> page_up e;
       assert_that (page_hi < unat KZERO);
       no_overlap page_lo page_hi prevs;
       placement (prevs @ [s]) ss (if tp < page_hi then page_hi else tp)
     }"

definition entry_in_segment :: "u64 \<Rightarrow> segment list \<Rightarrow> bool" where
  "entry_in_segment entry segs \<longleftrightarrow>
     (\<exists>s \<in> set segs. seg_exec s \<and> seg_vaddr s \<le> entry \<and> unat entry < seg_end s)"

definition load_page :: "aspace \<Rightarrow> u8 list \<Rightarrow> segment \<Rightarrow> nat \<Rightarrow> memory \<Rightarrow> memory option" where
  "load_page a bytes s page m =
     (let e = (if seg_exec s then ro_user_text else rw_user_data);
          vaddr = unat (seg_vaddr s); filesz = unat (seg_filesz s); offset = unat (seg_offset s)
      in do {
        (r, m1) \<leftarrow> map_user_page a e (of_nat page) m;
        (case r of
           Inl _ \<Rightarrow> None
         | Inr kptr \<Rightarrow>
             do {
               m2 \<leftarrow> store_bytes kptr (replicate PAGE_SIZE_4K 0) m1;
               let va_lo = max page vaddr;
               let va_hi = min (page + PAGE_SIZE_4K) (vaddr + filesz);
               if va_lo < va_hi then
                 do {
                   let lo = offset + (va_lo - vaddr);
                   let hi = offset + (va_hi - vaddr);
                   assert_that (hi \<le> length bytes);
                   store_bytes (kptr + of_nat (va_lo - page)) (take (hi - lo) (drop lo bytes)) m2
                 }
               else Some m2
             })
      })"

fun load_pages :: "aspace \<Rightarrow> u8 list \<Rightarrow> segment \<Rightarrow> nat list \<Rightarrow> memory \<Rightarrow> memory option" where
  "load_pages a bytes s [] m = Some m"
| "load_pages a bytes s (p # ps) m = do { m1 \<leftarrow> load_page a bytes s p m; load_pages a bytes s ps m1 }"

definition pages_between :: "nat \<Rightarrow> nat \<Rightarrow> nat list" where
  "pages_between lo hi = map (\<lambda>k. lo + k * PAGE_SIZE_4K) [0..<div_ceil (hi - lo) PAGE_SIZE_4K]"

definition load_segment :: "aspace \<Rightarrow> u8 list \<Rightarrow> segment \<Rightarrow> memory \<Rightarrow> memory option" where
  "load_segment a bytes s m =
     do {
       page_hi \<leftarrow> page_up (seg_end s);
       load_pages a bytes s (pages_between (page_down (unat (seg_vaddr s))) page_hi) m
     }"

fun load_segments :: "aspace \<Rightarrow> u8 list \<Rightarrow> segment list \<Rightarrow> memory \<Rightarrow> memory option" where
  "load_segments a bytes [] m = Some m"
| "load_segments a bytes (s # ss) m = do { m1 \<leftarrow> load_segment a bytes s m; load_segments a bytes ss m1 }"

fun map_stack :: "aspace \<Rightarrow> nat \<Rightarrow> nat list \<Rightarrow> memory \<Rightarrow> memory option" where
  "map_stack a base [] m = Some m"
| "map_stack a base (k # ks) m =
     do {
       (r, m1) \<leftarrow> map_user_page a rw_user_data (of_nat (base + k * PAGE_SIZE_4K)) m;
       (case r of Inl _ \<Rightarrow> None | Inr _ \<Rightarrow> map_stack a base ks m1)
     }"

definition load_elf :: "u8 list \<Rightarrow> memory \<Rightarrow> (loaded_elf \<times> memory) option" where
  "load_elf bytes m =
     do {
       parsed \<leftarrow> parse bytes;
       (case parsed of
          Inl _ \<Rightarrow> None
        | Inr img \<Rightarrow>
            do {
              let segs = elf_segments img;
              tp \<leftarrow> placement [] segs 0;
              assert_that (entry_in_segment (elf_entry img) segs);
              (a, m1) \<leftarrow> aspace_new m;
              m2 \<leftarrow> load_segments a bytes segs m1;
              stack_base \<leftarrow> page_up tp;
              m3 \<leftarrow> map_stack a stack_base [0..<STACK_PAGES] m2;
              Some (\<lparr>ld_aspace = a, ld_entry = elf_entry img,
                     ld_user_sp = stack_base + STACK_PAGES * PAGE_SIZE_4K - 16,
                     ld_heap_base = stack_base + STACK_PAGES * PAGE_SIZE_4K,
                     ld_symtab = elf_symtab img\<rparr>, m3)
            })
     }"

subsection \<open>The kernel's view of a page\<close>

lemma page_aligned:
  assumes "frame_used m pa" shows "pa AND mask 12 = 0"
proof -
  from assms obtain f where "unat pa = f * 4096" by (auto simp: frame_used_def)
  then have "take_bit 12 pa = 0" unfolding word_unat_eq_iff unsigned_take_bit_eq by (simp add: take_bit_eq_mod)
  then show ?thesis by (simp add: take_bit_eq_mask)
qed

lemma kzero_page:
  assumes "unat pa < 2 ^ 46"
  shows "pa AND mask 12 = 0 \<Longrightarrow> (pa + KZERO) AND mask 12 = 0" and "drop_bit 48 (pa + KZERO) = 0xffff"
proof -
  have k: "unat KZERO = 0xffff800000000000" by (simp add: KZERO_def)
  have sum: "unat (pa + KZERO) = unat pa + 0xffff800000000000" using unat_add_lem[of pa KZERO] assms k by simp
  show "(pa + KZERO) AND mask 12 = 0" if "pa AND mask 12 = 0"
  proof -
    from that have "take_bit 12 pa = 0" by (simp add: take_bit_eq_mask)
    then have "unat pa mod 4096 = 0"
      unfolding word_unat_eq_iff unsigned_take_bit_eq by (simp add: take_bit_eq_mod)
    then have "(unat pa + 0xffff800000000000) mod 4096 = 0" by (simp add: mod_add_eq[of "unat pa", symmetric])
    then have "take_bit 12 (pa + KZERO) = 0"
      unfolding word_unat_eq_iff unsigned_take_bit_eq sum by (simp add: take_bit_eq_mod)
    then show ?thesis by (simp add: take_bit_eq_mask)
  qed
  have "unat (drop_bit 48 (pa + KZERO)) = (unat pa + 0xffff800000000000) div 2 ^ 48"
    unfolding unsigned_drop_bit_eq sum using assms by (simp add: drop_bit_eq_div take_bit_nat_eq_self)
  also have "\<dots> = 0xffff" using assms by simp
  finally show "drop_bit 48 (pa + KZERO) = 0xffff" by (simp add: word_unat_eq_iff)
qed

lemma or_offset:
  assumes "pa AND mask 12 = 0" and "i < 4096"
  shows "pa OR of_nat i = (pa + of_nat i :: u64)"
proof -
  have "\<not> (bit pa n \<and> bit (of_nat i :: u64) n)" for n
  proof
    assume b: "bit pa n \<and> bit (of_nat i :: u64) n"
    have "take_bit 12 (of_nat i :: u64) = of_nat i"
      unfolding word_unat_eq_iff unsigned_take_bit_eq using assms(2) by (simp add: unat_of_nat64 take_bit_eq_mod)
    then have "n < 12" using b by (metis bit_take_bit_iff)
    then have "bit (pa AND mask 12) n" using b by (simp only: bit_and_iff bit_mask_iff possible_bit_word) simp
    with assms(1) show False by simp
  qed
  then show ?thesis by (metis disjunctive_add)
qed

lemma kernel_page_translate:
  assumes inv: "pages_inv m" and used: "frame_used m pa"
    and lk: "lookup m (ttbr1 m) (pa + KZERO) = Some (leaf rw_kernel_data pa)" and i: "i < 4096"
  shows "translate m (pa + KZERO + of_nat i) = Some (leaf rw_kernel_data pa, pa + of_nat i)"
proof -
  note lt = used_lt[OF inv used] and al = page_aligned[OF used]
  note k = kzero_page(1)[OF lt al] kzero_page(2)[OF lt]
  have "hw_root m (pa + KZERO + of_nat i) = Some (ttbr1 m)"
    using page_offset(3)[OF k(1) i] k(2) by (simp add: hw_root_def)
  moreover have "lookup m (ttbr1 m) (pa + KZERO + of_nat i) = Some (leaf rw_kernel_data pa)"
    using lk page_offset(1)[OF k(1) i] by (simp add: lookup_def idxs_def)
  ultimately have "translate m (pa + KZERO + of_nat i) =
      Some (leaf rw_kernel_data pa, phys_addr_of (leaf rw_kernel_data pa) OR ((pa + KZERO + of_nat i) AND mask 12))"
    by (rule translate_page) simp
  then show ?thesis
    unfolding page_offset(2)[OF k(1) i] phys_addr_leaf[OF inv used] or_offset[OF al i] .
qed

lemma kernel_page_store:
  assumes inv: "pages_inv m" and used: "frame_used m pa"
    and lk: "lookup m (ttbr1 m) (pa + KZERO) = Some (leaf rw_kernel_data pa)" and n: "k + length bs \<le> 4096"
  shows "store_bytes (pa + KZERO + of_nat k) bs m = Some (m\<lparr>ram := put_bytes (pa + of_nat k) bs (ram m)\<rparr>)"
proof (rule store_bytes_eq)
  fix i assume "i < length bs"
  then have "translate m (pa + KZERO + of_nat (k + i)) = Some (leaf rw_kernel_data pa, pa + of_nat (k + i))"
    using n by (intro kernel_page_translate[OF inv used lk]) simp
  then show "\<exists>e. translate m (pa + KZERO + of_nat k + of_nat i) = Some (e, pa + of_nat k + of_nat i) \<and>
      (access_permission e = PrivRw \<or> access_permission e = AllRw)"
    by (simp add: add.assoc rw_kernel_data_def)
qed (use n in simp)

lemma put_bytes_at:
  assumes "k + length bs \<le> 4096" and "i < 4096"
  shows "put_bytes (pa + of_nat k) bs f (pa + of_nat i) =
    (if k \<le> i \<and> i < k + length bs then bs ! (i - k) else f (pa + of_nat i))"
proof (cases "k \<le> i")
  case True
  have "unat (of_nat i - of_nat k :: u64) = i - k"
    using True assms(2) by (simp add: of_nat_diff[symmetric] unat_of_nat64 del: of_nat_diff)
  then show ?thesis using True by (auto simp: put_bytes_def)
next
  case False
  then have "unat (of_nat i - of_nat k :: u64) = i + 2 ^ 64 - k"
    using assms by (simp add: unat_sub_if_size word_size unat_of_nat64)
  then have "unat (pa + of_nat i - (pa + of_nat k)) = i + 2 ^ 64 - k" by simp
  then have "\<not> unat (pa + of_nat i - (pa + of_nat k)) < length bs" using assms(1) by simp
  then show ?thesis using False by (simp add: put_bytes_def)
qed

lemma put_bytes_outside:
  assumes "k + length bs \<le> 4096" and "\<And>i. i < 4096 \<Longrightarrow> x \<noteq> pa + of_nat i"
  shows "put_bytes (pa + of_nat k) bs f x = f x"
proof -
  have "\<not> unat (x - (pa + of_nat k)) < length bs"
  proof
    assume a: "unat (x - (pa + of_nat k)) < length bs"
    have "x = pa + of_nat (k + unat (x - (pa + of_nat k)))" by simp
    with assms(2)[of "k + unat (x - (pa + of_nat k))"] a assms(1) show False by simp
  qed
  then show ?thesis by (simp add: put_bytes_def)
qed

end
