(* ===== verification/Load_Pages.thy ===== *)
theory Load_Pages
  imports Elf_Loader
begin

section \<open>Loading pages and placing segments\<close>

text \<open>
  The loader's pages against the image: every page of a segment is a fresh frame holding the file bytes
  and zeros of that page, with the permission of the segment, and nothing else changes.
\<close>

subsection \<open>Growth of the translations, whatever the bytes\<close>

lemma ram_update [simp]:
  "lookup (m\<lparr>ram := f\<rparr>) r v = lookup m r v" "frame_used (m\<lparr>ram := f\<rparr>) t = frame_used m t"
  "tbl (m\<lparr>ram := f\<rparr>) r q = tbl m r q" "pages_inv (m\<lparr>ram := f\<rparr>) = pages_inv m"
  "free_frames (m\<lparr>ram := f\<rparr>) = free_frames m" "in_block (m\<lparr>ram := f\<rparr>) r v = in_block m r v"
  "vm_inv R (m\<lparr>ram := f\<rparr>) = vm_inv R m"
proof -
  have p: "pt (m\<lparr>ram := f\<rparr>) = pt m" by simp
  show l: "lookup (m\<lparr>ram := f\<rparr>) r v = lookup m r v" for r v by (rule pt_same(1)[OF p])
  show u: "frame_used (m\<lparr>ram := f\<rparr>) t = frame_used m t" for t by (simp add: frame_used_def)
  show t: "tbl (m\<lparr>ram := f\<rparr>) r q = tbl m r q" for r q by (rule tbl_pt[OF p])
  show i: "pages_inv (m\<lparr>ram := f\<rparr>) = pages_inv m" by (simp add: pages_inv_def)
  show "free_frames (m\<lparr>ram := f\<rparr>) = free_frames m" by (simp add: free_frames_def)
  show "in_block (m\<lparr>ram := f\<rparr>) r v = in_block m r v" by (simp add: in_block_def l)
  show "vm_inv R (m\<lparr>ram := f\<rparr>) = vm_inv R m"
    by (simp add: vm_inv_def i tree_inv_def self_inv_def t u hw_step_def)
qed

definition grows :: "phys_addr set \<Rightarrow> memory \<Rightarrow> memory \<Rightarrow> (phys_addr \<times> u64) set \<Rightarrow> bool" where
  "grows R m m' V \<longleftrightarrow> only_maps R m (m'\<lparr>ram := ram m\<rparr>) V"

lemma growsD:
  assumes "grows R m m' V"
  shows "s \<in> R \<Longrightarrow> va_index v Level0 \<noteq> 511 \<Longrightarrow> (\<And>u. (s, u) \<in> V \<Longrightarrow> idxs v \<noteq> idxs u) \<Longrightarrow> lookup m' s v = lookup m s v"
    and "frame_used m t \<Longrightarrow> frame_used m' t" and "ttbr0 m' = ttbr0 m" "ttbr1 m' = ttbr1 m" and "fresh_tables R m m'"
proof -
  note D = only_mapsD[OF assms[unfolded grows_def]]
  show "s \<in> R \<Longrightarrow> va_index v Level0 \<noteq> 511 \<Longrightarrow> (\<And>u. (s, u) \<in> V \<Longrightarrow> idxs v \<noteq> idxs u) \<Longrightarrow> lookup m' s v = lookup m s v"
    using D(1) by simp
  show "frame_used m t \<Longrightarrow> frame_used m' t" "ttbr0 m' = ttbr0 m" "ttbr1 m' = ttbr1 m"
    using D(2-4) by simp_all
  show "fresh_tables R m m'" using D(6) by (simp add: fresh_tables_def)
qed

lemma growsI:
  assumes "\<And>s v. s \<in> R \<Longrightarrow> va_index v Level0 \<noteq> 511 \<Longrightarrow> (\<And>u. (s, u) \<in> V \<Longrightarrow> idxs v \<noteq> idxs u) \<Longrightarrow> lookup m' s v = lookup m s v"
    and "\<And>t. frame_used m t \<Longrightarrow> frame_used m' t" and "ttbr0 m' = ttbr0 m" "ttbr1 m' = ttbr1 m" and "fresh_tables R m m'"
  shows "grows R m m' V"
  unfolding grows_def by (rule only_mapsI) (use assms in \<open>simp_all add: fresh_tables_def\<close>)

lemma grows_only_maps:
  assumes "only_maps R m m1 V"
  shows "grows R m (m1\<lparr>ram := f\<rparr>) V"
proof (rule growsI)
  note D = only_mapsD[OF assms]
  show "lookup (m1\<lparr>ram := f\<rparr>) s v = lookup m s v"
    if "s \<in> R" "va_index v Level0 \<noteq> 511" "\<And>u. (s, u) \<in> V \<Longrightarrow> idxs v \<noteq> idxs u" for s v
    unfolding ram_update by (rule D(1)[OF that])
  show "frame_used (m1\<lparr>ram := f\<rparr>) t" if "frame_used m t" for t unfolding ram_update by (rule D(2)[OF that])
  show "fresh_tables R m (m1\<lparr>ram := f\<rparr>)" using D(6) unfolding fresh_tables_def ram_update .
qed (use only_mapsD(3,4)[OF assms] in simp_all)

lemma grows_trans:
  assumes "grows R m m1 V" and "grows R m1 m2 W"
  shows "grows R m m2 (V \<union> W)"
proof (rule growsI)
  note A = growsD[OF assms(1)] and B = growsD[OF assms(2)]
  show "fresh_tables R m m2" by (rule fresh_tables_trans[OF A(5) B(5) A(2)])
  show "lookup m2 s v = lookup m s v"
    if "s \<in> R" "va_index v Level0 \<noteq> 511" "\<And>u. (s, u) \<in> V \<union> W \<Longrightarrow> idxs v \<noteq> idxs u" for s v
    using A(1)[OF that(1,2)] B(1)[OF that(1,2)] that(3) by simp
qed (use growsD[OF assms(1)] growsD[OF assms(2)] in simp_all)

lemma grows_refl: "grows R m m V"
  by (rule growsI) (simp_all add: fresh_tables_def)

lemma grows_mono: "grows R m m' V \<Longrightarrow> V \<subseteq> W \<Longrightarrow> grows R m m' W"
  unfolding grows_def by (rule only_maps_mono)

text \<open>No free page has an identity address inside a kernel block mapping; mapping pages keeps this.\<close>

definition kernel_room :: "memory \<Rightarrow> bool" where
  "kernel_room m \<longleftrightarrow> (\<forall>pa. unat pa < 2 ^ 46 \<and> \<not> frame_used m pa \<longrightarrow> \<not> in_block m (ttbr1 m) (pa + KZERO))"

text \<open>The byte an address of a segment holds when the program starts.\<close>

definition seg_byte :: "u8 list \<Rightarrow> segment \<Rightarrow> nat \<Rightarrow> u8" where
  "seg_byte bytes s va =
     (if unat (seg_vaddr s) \<le> va \<and> va < unat (seg_vaddr s) + unat (seg_filesz s)
      then bytes ! (unat (seg_offset s) + (va - unat (seg_vaddr s))) else 0)"

definition seg_entry :: "segment \<Rightarrow> entry" where
  "seg_entry s = (if seg_exec s then ro_user_text else rw_user_data)"

lemma seg_entry_valid [simp]: "valid (seg_entry s)"
  by (simp add: seg_entry_def ro_user_text_def rw_user_data_def)

subsection \<open>Pages of the user half\<close>

text \<open>Addresses below the recursive slot of the user root.\<close>

definition USER_TOP :: nat where "USER_TOP = 511 * 2 ^ 39"

definition user_page :: "nat \<Rightarrow> bool" where
  "user_page p \<longleftrightarrow> p mod 4096 = 0 \<and> p < USER_TOP"

lemma va_index_of_nat:
  assumes "n < 2 ^ 64"
  shows "va_index (of_nat n) Level0 = n div 2 ^ 39 mod 512" "va_index (of_nat n) Level1 = n div 2 ^ 30 mod 512"
    "va_index (of_nat n) Level2 = n div 2 ^ 21 mod 512" "va_index (of_nat n) Level3 = n div 2 ^ 12 mod 512"
proof -
  have "unat (drop_bit k (of_nat n :: u64) AND 0x1ff) = n div 2 ^ k mod 512" for k
  proof -
    have "drop_bit k (of_nat n :: u64) AND 0x1ff = take_bit 9 (drop_bit k (of_nat n))"
      unfolding take_bit_eq_mask by (simp add: mask_eq_exp_minus_1)
    then have "unat (drop_bit k (of_nat n :: u64) AND 0x1ff) = unat (take_bit 9 (drop_bit k (of_nat n :: u64)))" by (simp only:)
    also have "\<dots> = take_bit 9 (drop_bit k (take_bit 64 (unat (of_nat n :: u64))))"
      by (simp only: unsigned_take_bit_eq unsigned_drop_bit_eq) simp
    also have "\<dots> = n div 2 ^ k mod 512"
      using assms by (simp add: unat_of_nat64 take_bit_eq_mod drop_bit_eq_div)
    finally show ?thesis .
  qed
  then show "va_index (of_nat n) Level0 = n div 2 ^ 39 mod 512" "va_index (of_nat n) Level1 = n div 2 ^ 30 mod 512"
    "va_index (of_nat n) Level2 = n div 2 ^ 21 mod 512" "va_index (of_nat n) Level3 = n div 2 ^ 12 mod 512"
    by (simp_all only: va_index.simps)
qed

lemma user_top_index: "n < USER_TOP \<Longrightarrow> va_index (of_nat n) Level0 \<noteq> 511"
  using va_index_of_nat(1)[of n] by (simp add: USER_TOP_def)

lemma idxs_inj:
  assumes "p < USER_TOP" "q < USER_TOP" and "idxs (of_nat p) = idxs (of_nat q)"
  shows "p div 4096 = q div 4096"
proof -
  have lt: "p < 2 ^ 48" "q < 2 ^ 48" using assms(1,2) by (simp_all add: USER_TOP_def)
  have lt': "p < 2 ^ 64" "q < 2 ^ 64" using lt by simp_all
  have i: "va_index (of_nat p) l = va_index (of_nat q) l" for l
    using assms(3) unfolding idxs_def by (cases l) (simp_all only: list.inject)
  note e = i[of Level0, unfolded va_index_of_nat[OF lt'(1)] va_index_of_nat[OF lt'(2)]]
    i[of Level1, unfolded va_index_of_nat[OF lt'(1)] va_index_of_nat[OF lt'(2)]]
    i[of Level2, unfolded va_index_of_nat[OF lt'(1)] va_index_of_nat[OF lt'(2)]]
    i[of Level3, unfolded va_index_of_nat[OF lt'(1)] va_index_of_nat[OF lt'(2)]]
  have step: "p div k = q div k" if "p div (k * 512) = q div (k * 512)" "p div k mod 512 = q div k mod 512" for k
  proof -
    have "p div k = p div k div 512 * 512 + p div k mod 512" by simp
    also have "\<dots> = q div k div 512 * 512 + q div k mod 512" using that unfolding div_mult2_eq by (simp only:)
    finally show ?thesis by simp
  qed
  have s: "(2 :: nat) ^ 30 * 512 = 2 ^ 39" "(2 :: nat) ^ 21 * 512 = 2 ^ 30" "(2 :: nat) ^ 12 * 512 = 2 ^ 21" by simp_all
  have "p div 2 ^ 39 < 512" "q div 2 ^ 39 < 512" using lt by simp_all
  then have "p div 2 ^ 39 = q div 2 ^ 39" using e(1) by (simp only: mod_less)
  then have "p div 2 ^ 30 = q div 2 ^ 30" using step[OF _ e(2)] unfolding s by (simp only:)
  then have "p div 2 ^ 21 = q div 2 ^ 21" using step[OF _ e(3)] unfolding s by (simp only:)
  then have "p div 2 ^ 12 = q div 2 ^ 12" using step[OF _ e(4)] unfolding s by (simp only:)
  then show ?thesis by simp
qed

lemma user_page_inj: "user_page p \<Longrightarrow> user_page q \<Longrightarrow> idxs (of_nat p) = idxs (of_nat q) \<Longrightarrow> p = q"
  using idxs_inj[of p q] unfolding user_page_def by (metis mod_0_imp_dvd dvd_div_mult_self)

lemma user_page_index [simp]: "user_page p \<Longrightarrow> va_index (of_nat p) Level0 \<noteq> 511"
  by (rule user_top_index) (simp add: user_page_def)

subsection \<open>Loading pages into a root\<close>

text \<open>
  A machine ready to map user pages into \<open>root\<close>, with at least \<open>n\<close> free frames; and what loading the
  pages \<open>W\<close> (address, permission, known bytes) makes of it: page \<open>p\<close> is the frame \<open>fr p\<close>.
\<close>

type_synonym new_page = "nat \<times> entry \<times> (nat \<Rightarrow> u8 option)"

definition ready :: "phys_addr set \<Rightarrow> phys_addr \<Rightarrow> nat \<Rightarrow> memory \<Rightarrow> bool" where
  "ready R root n m \<longleftrightarrow> vm_inv R m \<and> root \<in> R \<and> root \<noteq> ttbr1 m \<and> kernel_room m \<and>
     (\<forall>v. va_index v Level0 \<noteq> 511 \<longrightarrow> \<not> in_block m root v) \<and> n \<le> free_frames m"

definition page_holds :: "phys_addr \<Rightarrow> memory \<Rightarrow> memory \<Rightarrow> (nat \<Rightarrow> phys_addr) \<Rightarrow> new_page \<Rightarrow> bool" where
  "page_holds root m m' fr w = (case w of (p, e, f) \<Rightarrow>
     lookup m' root (of_nat p) = Some (leaf e (fr p)) \<and> \<not> frame_used m (fr p) \<and> frame_used m' (fr p) \<and>
     (\<forall>i b. i < 4096 \<and> f i = Some b \<longrightarrow> ram m' (fr p + of_nat i) = b))"

definition touched :: "phys_addr \<Rightarrow> memory \<Rightarrow> memory \<Rightarrow> nat set \<Rightarrow> (phys_addr \<times> u64) set" where
  "touched root m m' P = {(root, of_nat p) | p. p \<in> P} \<union> {(ttbr1 m, pa + KZERO) | pa. \<not> frame_used m pa \<and> frame_used m' pa}"

definition loaded :: "phys_addr set \<Rightarrow> phys_addr \<Rightarrow> memory \<Rightarrow> memory \<Rightarrow> new_page set \<Rightarrow> (nat \<Rightarrow> phys_addr) \<Rightarrow> bool" where
  "loaded R root m m' W fr \<longleftrightarrow> grows R m m' (touched root m m' (fst ` W)) \<and>
     (\<forall>pa i. frame_used m pa \<and> i < 4096 \<longrightarrow> ram m' (pa + of_nat i) = ram m (pa + of_nat i)) \<and>
     inj_on fr (fst ` W) \<and> (\<forall>w \<in> W. page_holds root m m' fr w)"

lemma loadedD:
  assumes "loaded R root m m' W fr"
  shows "grows R m m' (touched root m m' (fst ` W))"
    and "frame_used m pa \<Longrightarrow> i < 4096 \<Longrightarrow> ram m' (pa + of_nat i) = ram m (pa + of_nat i)"
    and "inj_on fr (fst ` W)" and "(p, e, f) \<in> W \<Longrightarrow> page_holds root m m' fr (p, e, f)"
  using assms unfolding loaded_def by blast+

lemma page_holds_later:
  assumes h: "page_holds root m m1 fr (p, e, f)" and l: "loaded R root m1 m2 W fr'"
    and r: "root \<in> R" "root \<noteq> ttbr1 m1" and p: "user_page p" "p \<notin> fst ` W" "\<And>q. q \<in> fst ` W \<Longrightarrow> user_page q"
  shows "page_holds root m m2 fr (p, e, f)"
proof -
  note L = loadedD[OF l] and G = growsD[OF loadedD(1)[OF l]]
  have "lookup m2 root (of_nat p) = lookup m1 root (of_nat p)"
  proof (rule G(1)[OF r(1)])
    fix u assume "(root, u) \<in> touched root m1 m2 (fst ` W)"
    then obtain q where q: "u = of_nat q" "q \<in> fst ` W" using r(2) unfolding touched_def by blast
    then show "idxs (of_nat p) \<noteq> idxs u" using user_page_inj[OF p(1) p(3)[OF q(2)]] p(2) by blast
  qed (use p(1) in \<open>simp del: va_index.simps\<close>)
  moreover have "ram m2 (fr p + of_nat i) = ram m1 (fr p + of_nat i)" if "i < 4096" for i
    by (rule L(2)[OF _ that]) (use h in \<open>simp add: page_holds_def\<close>)
  ultimately show ?thesis using h G(2) unfolding page_holds_def by simp
qed

lemma page_holds_earlier:
  assumes "page_holds root m1 m2 fr w" and "\<And>t. frame_used m t \<Longrightarrow> frame_used m1 t"
  shows "page_holds root m m2 fr w"
  using assms unfolding page_holds_def by auto

lemma page_holds_cong:
  assumes "page_holds root m m' fr (p, e, f)" and "fr' p = fr p"
  shows "page_holds root m m' fr' (p, e, f)"
  using assms unfolding page_holds_def by simp

lemma loaded_trans:
  assumes l1: "loaded R root m m1 W1 fr1" and l2: "loaded R root m1 m2 W2 fr2"
    and r: "root \<in> R" "root \<noteq> ttbr1 m" and d: "fst ` W1 \<inter> fst ` W2 = {}"
    and u: "\<And>p. p \<in> fst ` W1 \<union> fst ` W2 \<Longrightarrow> user_page p"
  shows "loaded R root m m2 (W1 \<union> W2) (\<lambda>p. if p \<in> fst ` W1 then fr1 p else fr2 p)"
proof -
  note L1 = loadedD[OF l1] and L2 = loadedD[OF l2] and G1 = growsD[OF loadedD(1)[OF l1]] and G2 = growsD[OF loadedD(1)[OF l2]]
  let ?fr = "\<lambda>p. if p \<in> fst ` W1 then fr1 p else fr2 p"
  have h1: "page_holds root m m1 fr1 w" if "w \<in> W1" for w using L1(4) that by (cases w) blast
  have h2: "page_holds root m1 m2 fr2 w" if "w \<in> W2" for w using L2(4) that by (cases w) blast
  have f1: "frame_used m1 (fr1 p)" if "p \<in> fst ` W1" for p using h1 that unfolding page_holds_def by fastforce
  have f2: "\<not> frame_used m1 (fr2 p)" if "p \<in> fst ` W2" for p using h2 that unfolding page_holds_def by fastforce
  have "inj_on ?fr (fst ` W1 \<union> fst ` W2)"
  proof (rule inj_onI)
    fix p q assume a: "p \<in> fst ` W1 \<union> fst ` W2" "q \<in> fst ` W1 \<union> fst ` W2" "?fr p = ?fr q"
    then show "p = q"
      using f1[of p] f1[of q] f2[of p] f2[of q] inj_onD[OF L1(3), of p q] inj_onD[OF L2(3), of p q]
      by (cases "p \<in> fst ` W1"; cases "q \<in> fst ` W1") auto
  qed
  moreover have "page_holds root m m2 ?fr w" if "w \<in> W1 \<union> W2" for w
  proof (cases w)
    case (fields p e f)
    show ?thesis
    proof (cases "w \<in> W1")
      case True
      then have p: "p \<in> fst ` W1" using fields by force
      then have np: "p \<notin> fst ` W2" using d by blast
      have r1: "root \<noteq> ttbr1 m1" using r(2) G1(4) by simp
      have "page_holds root m m2 fr1 (p, e, f)"
        by (rule page_holds_later[OF _ l2 r(1) r1 u np u]) (use h1[OF True] fields p in auto)
      then show ?thesis unfolding fields by (rule page_holds_cong) (simp add: p)
    next
      case False
      then have p: "w \<in> W2" "p \<in> fst ` W2" using that fields by force+
      then have np: "p \<notin> fst ` W1" using d by blast
      have "page_holds root m m2 fr2 (p, e, f)"
        by (rule page_holds_earlier[OF _ G1(2)]) (use h2[OF p(1)] fields in simp_all)
      then show ?thesis unfolding fields by (rule page_holds_cong) (simp add: np)
    qed
  qed
  moreover have "grows R m m2 (touched root m m2 (fst ` (W1 \<union> W2)))"
  proof (rule grows_mono[OF grows_trans[OF L1(1) L2(1)]])
    show "touched root m m1 (fst ` W1) \<union> touched root m1 m2 (fst ` W2) \<subseteq> touched root m m2 (fst ` (W1 \<union> W2))"
      unfolding touched_def image_Un G1(4) using G1(2) G2(2) by blast
  qed
  moreover have "ram m2 (pa + of_nat i) = ram m (pa + of_nat i)" if "frame_used m pa" "i < 4096" for pa i
    using L1(2)[OF that] L2(2)[OF G1(2)[OF that(1)] that(2)] by simp
  ultimately show ?thesis unfolding loaded_def image_Un by blast
qed

lemma loaded_empty: "loaded R root m m {} fr"
  unfolding loaded_def by (simp add: grows_refl)

lemma frame_of_offset:
  assumes "pa AND mask 12 = 0" and "i < 4096"
  shows "(pa + of_nat i) AND NOT (mask 12) = (pa :: u64)"
proof -
  have "(pa + of_nat i) AND NOT (mask 12) = (pa + of_nat i) - ((pa + of_nat i) AND mask 12)"
    using disjunctive_add[of "(pa + of_nat i) AND NOT (mask 12)" "(pa + of_nat i) AND mask 12"]
    by (simp add: bit_simps eq_diff_eq flip: bit.conj_disj_distrib)
  then show ?thesis using page_offset(2)[OF assms] by simp
qed

lemma ready_grows:
  assumes rd: "ready R root (n + 7) m" and g: "grows R m m' {(root, va), (ttbr1 m, pa + KZERO)}" and inv: "vm_inv R m'"
    and l: "lookup m' root va = Some (leaf e pa)" "lookup m' (ttbr1 m) (pa + KZERO) = Some (leaf e' pa)"
    and fr: "free_frames m \<le> free_frames m' + 7"
  shows "ready R root n m'"
proof -
  note G = growsD[OF g]
  have D: "root \<in> R" "root \<noteq> ttbr1 m" "kernel_room m" "\<And>v. va_index v Level0 \<noteq> 511 \<Longrightarrow> \<not> in_block m root v"
    "n + 7 \<le> free_frames m" "ttbr1 m \<in> R"
    using rd unfolding ready_def vm_inv_def by blast+
  have nb: "\<not> in_block m' s v" if "s \<in> R" "va_index v Level0 \<noteq> 511" "\<not> in_block m s v"
    "\<And>u. (s, u) \<in> {(root, va), (ttbr1 m, pa + KZERO)} \<Longrightarrow> \<not> in_block m' s u" for s v
  proof (cases "\<exists>u. (s, u) \<in> {(root, va), (ttbr1 m, pa + KZERO)} \<and> idxs v = idxs u")
    case True
    then obtain u where "(s, u) \<in> {(root, va), (ttbr1 m, pa + KZERO)}" "idxs v = idxs u" by blast
    then show ?thesis using that(4) lookup_idxs[of v u m' s] unfolding in_block_def by metis
  next
    case False
    then have "lookup m' s v = lookup m s v" by (intro G(1)[OF that(1,2)]) blast
    then show ?thesis using that(3) unfolding in_block_def by simp
  qed
  have nl: "\<not> in_block m' root va" "\<not> in_block m' (ttbr1 m) (pa + KZERO)" using l unfolding in_block_def by auto
  have new: "\<not> in_block m' s u" if "(s, u) \<in> {(root, va), (ttbr1 m, pa + KZERO)}" for s u using that nl by auto
  have "kernel_room m'" unfolding kernel_room_def
  proof (intro allI impI, elim conjE)
    fix pa' :: phys_addr assume a: "unat pa' < 2 ^ 46" "\<not> frame_used m' pa'"
    have "\<not> in_block m (ttbr1 m) (pa' + KZERO)" using D(3) a G(2) unfolding kernel_room_def by blast
    then show "\<not> in_block m' (ttbr1 m') (pa' + KZERO)" unfolding G(4) by (rule nb[OF D(6) kzero_index[OF a(1)] _ new])
  qed
  moreover have "\<not> in_block m' root v" if "va_index v Level0 \<noteq> 511" for v by (rule nb[OF D(1) that D(4)[OF that] new])
  ultimately show ?thesis using D(1,2,5) inv fr G(4) unfolding ready_def by simp
qed

lemma user_page_mapped:
  assumes rd: "ready R (root_pa a) (n + 7) m" and p: "user_page p" and e: "valid e"
  obtains pa m' where "map_user_page a e (of_nat p) m = Some (Inr (pa + KZERO), m')" and "vm_inv R m'"
    and "only_maps R m m' {(root_pa a, of_nat p), (ttbr1 m, pa + KZERO)}"
    and "lookup m' (root_pa a) (of_nat p) = Some (leaf e pa)"
    and "lookup m' (ttbr1 m) (pa + KZERO) = Some (leaf rw_kernel_data pa)"
    and "\<not> frame_used m pa" and "frame_used m' pa" and "free_frames m \<le> free_frames m' + 7"
proof -
  have D: "vm_inv R m" "root_pa a \<in> R" "root_pa a \<noteq> ttbr1 m" "kernel_room m"
    "\<And>v. va_index v Level0 \<noteq> 511 \<Longrightarrow> \<not> in_block m (root_pa a) v" "n + 7 \<le> free_frames m"
    using rd unfolding ready_def by blast+
  have v: "va_index (of_nat p) Level0 \<noteq> 511" using p by (rule user_page_index)
  from D(1-3) e v show thesis
  proof (cases rule: map_user_page_spec)
    case (ok pa m')
    then show thesis by (rule that)
  next
    case (err x m')
    then show thesis using D(4) D(5)[OF v] D(6) unfolding kernel_room_def by auto
  qed
qed

text \<open>One mapped page whose frame then receives bytes.\<close>

lemma loaded_page:
  assumes o: "only_maps R m m1 {(root, of_nat p), (ttbr1 m, pa + KZERO)}" and inv: "vm_inv R m1"
    and l: "lookup m1 root (of_nat p) = Some (leaf e pa)"
    and fr: "\<not> frame_used m pa" "frame_used m1 pa"
    and b: "\<And>i c. i < 4096 \<Longrightarrow> f i = Some c \<Longrightarrow> g (pa + of_nat i) = c"
    and k: "\<And>x. (\<And>i. i < 4096 \<Longrightarrow> x \<noteq> pa + of_nat i) \<Longrightarrow> g x = ram m x"
  shows "loaded R root m (m1\<lparr>ram := g\<rparr>) {(p, e, f)} (\<lambda>_. pa)"
proof -
  note O = only_mapsD[OF o]
  have "grows R m (m1\<lparr>ram := g\<rparr>) (touched root m (m1\<lparr>ram := g\<rparr>) (fst ` {(p, e, f)}))"
    by (rule grows_mono[OF grows_only_maps[OF o]]) (use fr in \<open>auto simp: touched_def\<close>)
  moreover have "g (q + of_nat i) = ram m (q + of_nat i)" if "frame_used m q" "i < 4096" for q i
  proof (rule k)
    fix j :: nat assume j: "j < 4096"
    note al = page_aligned[OF O(2)[OF that(1)]] page_aligned[OF fr(2)]
    show "q + of_nat i \<noteq> pa + of_nat j"
    proof
      assume eq: "q + of_nat i = pa + of_nat j"
      have "(q + of_nat i) AND NOT (mask 12) = q" "(pa + of_nat j) AND NOT (mask 12) = pa"
        using frame_of_offset[OF al(1) that(2)] frame_of_offset[OF al(2) j] by blast+
      then have "q = pa" using eq by metis
      with that(1) fr(1) show False by simp
    qed
  qed
  ultimately show ?thesis
    unfolding loaded_def page_holds_def using l fr b by simp
qed

subsection \<open>The page loop, the segment loop and the stack\<close>

definition page_content :: "u8 list \<Rightarrow> segment \<Rightarrow> nat \<Rightarrow> new_page" where
  "page_content bytes s p = (p, seg_entry s, \<lambda>i. Some (seg_byte bytes s (p + i)))"

lemma seg_byte_in_page:
  fixes s bytes p
  defines "vaddr \<equiv> unat (seg_vaddr s)" and "filesz \<equiv> unat (seg_filesz s)" and "offset \<equiv> unat (seg_offset s)"
  defines "lo \<equiv> max p vaddr" and "hi \<equiv> min (p + 4096) (vaddr + filesz)"
  assumes len: "offset + filesz \<le> length bytes" and i: "i < 4096" and ne: "lo < hi"
    and bs: "bs = take (offset + (hi - vaddr) - (offset + (lo - vaddr))) (drop (offset + (lo - vaddr)) bytes)"
  shows "length bs = hi - lo" and "offset + (hi - vaddr) \<le> length bytes" and "lo - p + (hi - lo) \<le> 4096"
    and "(if lo - p \<le> i \<and> i < lo - p + (hi - lo) then bs ! (i - (lo - p)) else 0) = seg_byte bytes s (p + i)"
proof -
  have o: "p \<le> lo" "vaddr \<le> lo" "hi \<le> p + 4096" "hi \<le> vaddr + filesz" by (simp_all add: lo_def hi_def)
  show "offset + (hi - vaddr) \<le> length bytes" using len o by linarith
  then show n: "length bs = hi - lo" using o ne by (simp add: bs)
  show "lo - p + (hi - lo) \<le> 4096" using o ne by linarith
  have c: "lo - p \<le> i \<and> i < lo - p + (hi - lo) \<longleftrightarrow> vaddr \<le> p + i \<and> p + i < vaddr + filesz"
    using i ne by (auto simp: lo_def hi_def)
  show "(if lo - p \<le> i \<and> i < lo - p + (hi - lo) then bs ! (i - (lo - p)) else 0) = seg_byte bytes s (p + i)"
  proof (cases "lo - p \<le> i \<and> i < lo - p + (hi - lo)")
    case True
    have "offset + (lo - vaddr) + (i - (lo - p)) = offset + (p + i - vaddr)" using True o by linarith
    moreover have "bs ! (i - (lo - p)) = bytes ! (offset + (lo - vaddr) + (i - (lo - p)))"
      unfolding bs by (subst nth_take, use True o in linarith, subst nth_drop, use len True o in linarith, rule refl)
    ultimately show ?thesis using True c by (simp add: seg_byte_def vaddr_def filesz_def offset_def)
  next
    case False
    then show ?thesis using c by (auto simp: seg_byte_def vaddr_def filesz_def)
  qed
qed

lemma load_page_loaded:
  assumes rd: "ready R (root_pa a) (n + 7) m" and p: "user_page p"
    and len: "unat (seg_offset s) + unat (seg_filesz s) \<le> length bytes"
  obtains m' pa where "load_page a bytes s p m = Some m'" and "ready R (root_pa a) n m'"
    and "loaded R (root_pa a) m m' {page_content bytes s p} (\<lambda>_. pa)"
proof -
  let ?v = "unat (seg_vaddr s)" and ?n = "unat (seg_filesz s)" and ?o = "unat (seg_offset s)"
  let ?lo = "max p ?v" and ?hi = "min (p + 4096) (?v + ?n)"
  from user_page_mapped[OF rd p seg_entry_valid[of s]] obtain pa m1 where
    M: "map_user_page a (seg_entry s) (of_nat p) m = Some (Inr (pa + KZERO), m1)" "vm_inv R m1"
      "only_maps R m m1 {(root_pa a, of_nat p), (ttbr1 m, pa + KZERO)}"
      "lookup m1 (root_pa a) (of_nat p) = Some (leaf (seg_entry s) pa)"
      "lookup m1 (ttbr1 m) (pa + KZERO) = Some (leaf rw_kernel_data pa)"
      "\<not> frame_used m pa" "frame_used m1 pa" "free_frames m \<le> free_frames m1 + 7" .
  note O = only_mapsD[OF M(3)]
  have inv: "pages_inv m1" and lk: "lookup m1 (ttbr1 m1) (pa + KZERO) = Some (leaf rw_kernel_data pa)"
    using M(2,5) O(4) by (simp_all add: vm_inv_def)
  define g0 where "g0 = put_bytes pa (replicate 4096 0) (ram m1)"
  define bs where "bs = take (?o + (?hi - ?v) - (?o + (?lo - ?v))) (drop (?o + (?lo - ?v)) bytes)"
  define g where "g = (if ?lo < ?hi then put_bytes (pa + of_nat (?lo - p)) bs g0 else g0)"
  note B = seg_byte_in_page[OF len _ _ bs_def]
  have z: "store_bytes (pa + KZERO) (replicate 4096 0) m1 = Some (m1\<lparr>ram := g0\<rparr>)"
    using kernel_page_store[OF inv M(7) lk, of 0 "replicate 4096 0"] by (simp add: g0_def)
  have st: "store_bytes (pa + KZERO + of_nat (?lo - p)) bs (m1\<lparr>ram := g0\<rparr>) = Some (m1\<lparr>ram := g\<rparr>)" if "?lo < ?hi"
    using kernel_page_store[of "m1\<lparr>ram := g0\<rparr>" pa "?lo - p" bs] inv M(7) lk B(1,3)[of 0, OF _ that] that by (simp add: g_def)
  have run: "load_page a bytes s p m = Some (m1\<lparr>ram := g\<rparr>)"
  proof (cases "?lo < ?hi")
    case True
    have "load_page a bytes s p m = store_bytes (pa + KZERO + of_nat (?lo - p)) bs (m1\<lparr>ram := g0\<rparr>)"
      using True M(1) z B(2)[of 0, OF _ True]
      unfolding load_page_def Let_def seg_entry_def[symmetric] PAGE_SIZE_4K_def bs_def by (simp add: assert_that_def)
    then show ?thesis using st[OF True] by simp
  next
    case False
    then have "g = g0" by (simp only: g_def if_False)
    then show ?thesis using False M(1) z unfolding load_page_def Let_def seg_entry_def[symmetric] PAGE_SIZE_4K_def
      by (simp del: max_less_iff_conj min_less_iff_conj)
  qed
  have zero: "g0 (pa + of_nat i) = 0" if "i < 4096" for i
    using put_bytes_at[of 0 "replicate 4096 0" i pa "ram m1"] that by (simp add: g0_def)
  have at: "g (pa + of_nat i) = seg_byte bytes s (p + i)" if "i < 4096" for i
  proof (cases "?lo < ?hi")
    case True
    have n: "length bs = ?hi - ?lo" "?lo - p + length bs \<le> 4096" using B(1,3)[of 0, OF _ True] by simp_all
    have "g (pa + of_nat i) = put_bytes (pa + of_nat (?lo - p)) bs g0 (pa + of_nat i)" using True by (simp only: g_def if_True)
    also have "\<dots> = seg_byte bytes s (p + i)"
      unfolding put_bytes_at[OF n(2) that] zero[OF that] n(1) by (rule B(4)[OF that True])
    finally show ?thesis .
  next
    case False
    then have "\<not> (?v \<le> p + i \<and> p + i < ?v + ?n)" using that by auto
    then have "seg_byte bytes s (p + i) = 0" by (auto simp: seg_byte_def)
    moreover have "g = g0" using False by (simp only: g_def if_False)
    ultimately show ?thesis using zero[OF that] by simp
  qed
  have out: "g x = ram m x" if "\<And>i. i < 4096 \<Longrightarrow> x \<noteq> pa + of_nat i" for x
  proof -
    have "g0 x = ram m x" using put_bytes_outside[of 0 "replicate 4096 0" x pa "ram m1"] that O(5) by (simp add: g0_def)
    moreover have "g x = g0 x"
    proof (cases "?lo < ?hi")
      case True
      have "?lo - p + length bs \<le> 4096" using B(1,3)[of 0, OF _ True] by simp
      from put_bytes_outside[OF this that] show ?thesis using True by (simp only: g_def if_True)
    qed (simp only: g_def if_False)
    ultimately show ?thesis by simp
  qed
  have "ready R (root_pa a) n (m1\<lparr>ram := g\<rparr>)"
    by (rule ready_grows[OF rd grows_only_maps[OF M(3)]]) (use M(2,4,5,8) in simp_all)
  moreover have "loaded R (root_pa a) m (m1\<lparr>ram := g\<rparr>) {page_content bytes s p} (\<lambda>_. pa)"
    unfolding page_content_def by (rule loaded_page[OF M(3,2,4,6,7)]) (use at out in auto)
  ultimately show thesis using run that by blast
qed

lemma readyD:
  assumes "ready R root n m"
  shows "vm_inv R m" "root \<in> R" "root \<noteq> ttbr1 m" "n \<le> free_frames m"
  using assms unfolding ready_def by blast+

lemma fst_page_content [simp]: "fst ` page_content bytes s ` P = P"
  by (simp add: page_content_def image_image)

lemma load_pages_loaded:
  assumes "ready R (root_pa a) (n + 7 * length ps) m" and "\<And>p. p \<in> set ps \<Longrightarrow> user_page p" and "distinct ps"
    and len: "unat (seg_offset s) + unat (seg_filesz s) \<le> length bytes"
  shows "\<exists>m' fr. load_pages a bytes s ps m = Some m' \<and> ready R (root_pa a) n m' \<and>
    loaded R (root_pa a) m m' (page_content bytes s ` set ps) fr"
  using assms(1-3)
proof (induction ps arbitrary: m)
  case Nil
  then show ?case by (auto intro: loaded_empty)
next
  case (Cons p ps)
  have rd: "ready R (root_pa a) (n + 7 * length ps + 7) m" using Cons.prems(1) by (simp add: algebra_simps)
  have up: "user_page p" using Cons.prems(2) by simp
  from load_page_loaded[OF rd up len] obtain m1 pa where 1: "load_page a bytes s p m = Some m1"
    "ready R (root_pa a) (n + 7 * length ps) m1" "loaded R (root_pa a) m m1 {page_content bytes s p} (\<lambda>_. pa)" .
  from Cons.IH[OF 1(2)] Cons.prems(2,3) obtain m' fr where 2: "load_pages a bytes s ps m1 = Some m'"
    "ready R (root_pa a) n m'" "loaded R (root_pa a) m1 m' (page_content bytes s ` set ps) fr" by auto
  have f: "fst ` {page_content bytes s p} = {p}" by (simp add: page_content_def)
  note T = loaded_trans[OF 1(3) 2(3) readyD(2,3)[OF rd], unfolded f fst_page_content]
  have "loaded R (root_pa a) m m' ({page_content bytes s p} \<union> page_content bytes s ` set ps)
      (\<lambda>q. if q \<in> {p} then pa else fr q)"
    by (rule T) (use Cons.prems(2,3) in auto)
  then show ?case using 1(1) 2(1,2) by auto
qed

text \<open>The pages of a segment.\<close>

definition seg_pages :: "segment \<Rightarrow> nat list" where
  "seg_pages s = pages_between (page_down (unat (seg_vaddr s))) ((seg_end s + 4095) div 4096 * 4096)"

lemma page_up_eq: "n + 4096 < usize_bound \<Longrightarrow> page_up n = Some ((n + 4095) div 4096 * 4096)"
  by (simp add: page_up_def checked_add_def PAGE_SIZE_4K_def)

lemma load_segment_eq:
  "seg_end s + 4096 < usize_bound \<Longrightarrow> load_segment a bytes s m = load_pages a bytes s (seg_pages s) m"
  by (simp add: load_segment_def page_up_eq seg_pages_def)

lemma pages_between_distinct: "distinct (pages_between lo hi)"
  by (simp add: pages_between_def distinct_map inj_on_def PAGE_SIZE_4K_def)

definition image_pages :: "u8 list \<Rightarrow> segment list \<Rightarrow> new_page set" where
  "image_pages bytes segs = (\<Union>s \<in> set segs. page_content bytes s ` set (seg_pages s))"

lemma fst_image_pages [simp]: "fst ` image_pages bytes segs = (\<Union>s \<in> set segs. set (seg_pages s))"
  by (simp add: image_pages_def image_UN)

lemma load_segments_loaded:
  assumes "ready R (root_pa a) (n + 7 * (\<Sum>s\<leftarrow>segs. length (seg_pages s))) m"
    and "\<And>s p. s \<in> set segs \<Longrightarrow> p \<in> set (seg_pages s) \<Longrightarrow> user_page p"
    and "sorted_wrt (\<lambda>s t. set (seg_pages s) \<inter> set (seg_pages t) = {}) segs"
    and "\<And>s. s \<in> set segs \<Longrightarrow> unat (seg_offset s) + unat (seg_filesz s) \<le> length bytes \<and> seg_end s + 4096 < usize_bound"
  shows "\<exists>m' fr. load_segments a bytes segs m = Some m' \<and> ready R (root_pa a) n m' \<and>
    loaded R (root_pa a) m m' (image_pages bytes segs) fr"
  using assms
proof (induction segs arbitrary: m)
  case Nil
  then show ?case by (auto simp: image_pages_def intro: loaded_empty)
next
  case (Cons s segs)
  let ?n = "n + 7 * (\<Sum>s\<leftarrow>segs. length (seg_pages s))"
  have rd: "ready R (root_pa a) (?n + 7 * length (seg_pages s)) m" using Cons.prems(1) by (simp add: algebra_simps)
  have s: "unat (seg_offset s) + unat (seg_filesz s) \<le> length bytes" "seg_end s + 4096 < usize_bound" using Cons.prems(4)[of s] by auto
  from load_pages_loaded[OF rd _ _ s(1)] Cons.prems(2) pages_between_distinct obtain m1 fr1 where
    1: "load_pages a bytes s (seg_pages s) m = Some m1" "ready R (root_pa a) ?n m1"
      "loaded R (root_pa a) m m1 (page_content bytes s ` set (seg_pages s)) fr1" by (metis list.set_intros(1) seg_pages_def)
  from Cons.IH[OF 1(2)] Cons.prems(2-4) obtain m' fr where 2: "load_segments a bytes segs m1 = Some m'"
    "ready R (root_pa a) n m'" "loaded R (root_pa a) m1 m' (image_pages bytes segs) fr" by auto
  note T = loaded_trans[OF 1(3) 2(3) readyD(2,3)[OF rd], unfolded fst_page_content fst_image_pages]
  have "loaded R (root_pa a) m m' (page_content bytes s ` set (seg_pages s) \<union> image_pages bytes segs)
      (\<lambda>q. if q \<in> set (seg_pages s) then fr1 q else fr q)"
    by (rule T) (use Cons.prems(2,3) in auto)
  then show ?case using 1(1) 2(1,2) load_segment_eq[OF s(2)] by (auto simp: image_pages_def)
qed

definition stack_pages :: "nat \<Rightarrow> nat list \<Rightarrow> new_page set" where
  "stack_pages base ks = (\<lambda>k. (base + k * 4096, rw_user_data, \<lambda>_. None)) ` set ks"

lemma fst_stack_pages [simp]: "fst ` stack_pages base ks = (\<lambda>k. base + k * 4096) ` set ks"
  by (simp add: stack_pages_def image_image)

lemma map_stack_loaded:
  assumes "ready R (root_pa a) (n + 7 * length ks) m" and "\<And>k. k \<in> set ks \<Longrightarrow> user_page (base + k * 4096)" and "distinct ks"
  shows "\<exists>m' fr. map_stack a base ks m = Some m' \<and> ready R (root_pa a) n m' \<and>
    loaded R (root_pa a) m m' (stack_pages base ks) fr"
  using assms
proof (induction ks arbitrary: m)
  case Nil
  then show ?case by (auto simp: stack_pages_def intro: loaded_empty)
next
  case (Cons k ks)
  let ?p = "base + k * 4096"
  have rd: "ready R (root_pa a) (n + 7 * length ks + 7) m" using Cons.prems(1) by (simp add: algebra_simps)
  have up: "user_page ?p" using Cons.prems(2) by simp
  have "valid rw_user_data" by (simp add: rw_user_data_def)
  from user_page_mapped[OF rd up this] obtain pa m1 where
    M: "map_user_page a rw_user_data (of_nat ?p) m = Some (Inr (pa + KZERO), m1)" "vm_inv R m1"
      "only_maps R m m1 {(root_pa a, of_nat ?p), (ttbr1 m, pa + KZERO)}"
      "lookup m1 (root_pa a) (of_nat ?p) = Some (leaf rw_user_data pa)"
      "lookup m1 (ttbr1 m) (pa + KZERO) = Some (leaf rw_kernel_data pa)"
      "\<not> frame_used m pa" "frame_used m1 pa" "free_frames m \<le> free_frames m1 + 7" .
  have g: "m1\<lparr>ram := ram m\<rparr> = m1" using only_mapsD(5)[OF M(3)] by simp
  have r1: "ready R (root_pa a) (n + 7 * length ks) m1"
    using ready_grows[OF rd grows_only_maps[OF M(3), of "ram m", unfolded g] M(2,4,5,8)] .
  have 1: "loaded R (root_pa a) m m1 {(?p, rw_user_data, \<lambda>_. None)} (\<lambda>_. pa)"
    using loaded_page[OF M(3,2,4,6,7), of "\<lambda>_. None" "ram m", unfolded g] by simp
  from Cons.IH[OF r1] Cons.prems(2,3) obtain m' fr where 2: "map_stack a base ks m1 = Some m'"
    "ready R (root_pa a) n m'" "loaded R (root_pa a) m1 m' (stack_pages base ks) fr" by auto
  have f: "fst ` {(?p, rw_user_data, \<lambda>_. None)} = {?p}" by simp
  note T = loaded_trans[OF 1 2(3) readyD(2,3)[OF rd], unfolded f fst_stack_pages]
  have "loaded R (root_pa a) m m' ({(?p, rw_user_data, \<lambda>_. None)} \<union> stack_pages base ks)
      (\<lambda>q. if q \<in> {?p} then pa else fr q)"
    by (rule T) (use Cons.prems(2,3) in auto)
  moreover have "{(?p, rw_user_data, \<lambda>_. None)} \<union> stack_pages base ks = stack_pages base (k # ks)"
    by (simp add: stack_pages_def)
  ultimately show ?case using M(1) 2(1,2) by (auto simp: PAGE_SIZE_4K_def)
qed

subsection \<open>Placement\<close>

definition span_lo :: "segment \<Rightarrow> nat" where "span_lo s = unat (seg_vaddr s) div 4096 * 4096"
definition span_hi :: "segment \<Rightarrow> nat" where "span_hi s = (seg_end s + 4095) div 4096 * 4096"

definition apart :: "segment \<Rightarrow> segment \<Rightarrow> bool" where
  "apart s t \<longleftrightarrow> span_hi t \<le> span_lo s \<or> span_hi s \<le> span_lo t"

definition placed :: "segment \<Rightarrow> bool" where
  "placed s \<longleftrightarrow> ELF_BASE \<le> unat (seg_vaddr s) \<and> seg_end s + 4096 < usize_bound \<and> span_hi s < unat KZERO"

lemma page_up_None: "page_up n = None \<longleftrightarrow> usize_bound \<le> n + 4096"
  by (simp add: page_up_def checked_add_def PAGE_SIZE_4K_def)

lemma no_overlap_iff:
  "(\<And>p. p \<in> set ps \<Longrightarrow> seg_end p + 4096 < usize_bound) \<Longrightarrow>
   no_overlap (span_lo s) (span_hi s) ps = Some () \<longleftrightarrow> (\<forall>p \<in> set ps. apart p s)"
proof (induction ps)
  case (Cons p ps)
  have e: "seg_end p + 4096 < usize_bound" using Cons.prems by simp
  then have "checked_add (unat (seg_vaddr p)) (unat (seg_memsz p)) = Some (seg_end p)"
    by (simp add: checked_add_def seg_end_def)
  then show ?case
    using Cons page_up_eq[OF e] by (auto simp: apart_def span_lo_def span_hi_def page_down_def PAGE_SIZE_4K_def not_less Let_def)
qed simp

lemma placement_iff:
  assumes "\<And>p. p \<in> set prevs \<Longrightarrow> seg_end p + 4096 < usize_bound"
  shows "placement prevs segs tp = Some tp' \<longleftrightarrow>
    (\<forall>s \<in> set segs. placed s) \<and> sorted_wrt apart segs \<and> (\<forall>p \<in> set prevs. \<forall>s \<in> set segs. apart p s) \<and>
    tp' = fold (\<lambda>s t. max t (span_hi s)) segs tp"
  using assms
proof (induction segs arbitrary: prevs tp)
  case Nil
  then show ?case by auto
next
  case (Cons s segs)
  show ?case
  proof (cases "placed s")
    case False
    have "placement prevs (s # segs) tp = None"
    proof (cases "seg_end s + 4096 < usize_bound")
      case True
      then show ?thesis using False page_up_eq[OF True]
        by (auto simp: placed_def Let_def checked_add_def seg_end_def span_hi_def assert_that_def)
    next
      case F: False
      then show ?thesis using page_up_None[of "seg_end s"]
        by (cases "ELF_BASE \<le> unat (seg_vaddr s)") (auto simp: Let_def checked_add_def seg_end_def assert_that_def)
    qed
    then show ?thesis using False by simp
  next
    case True
    then have e: "seg_end s + 4096 < usize_bound" by (simp add: placed_def)
    have run: "placement prevs (s # segs) tp =
        do { no_overlap (span_lo s) (span_hi s) prevs; placement (prevs @ [s]) segs (max tp (span_hi s)) }"
      using True page_up_eq[OF e]
      by (simp add: placed_def Let_def checked_add_def seg_end_def span_hi_def span_lo_def page_down_def PAGE_SIZE_4K_def max_def)
    have IH: "placement (prevs @ [s]) segs (max tp (span_hi s)) = Some tp' \<longleftrightarrow>
        (\<forall>s \<in> set segs. placed s) \<and> sorted_wrt apart segs \<and> (\<forall>p \<in> set (prevs @ [s]). \<forall>s \<in> set segs. apart p s) \<and>
        tp' = fold (\<lambda>s t. max t (span_hi s)) segs (max tp (span_hi s))"
      by (rule Cons.IH) (use Cons.prems e in auto)
    show ?thesis
    proof (cases "no_overlap (span_lo s) (span_hi s) prevs")
      case None
      then have "\<not> (\<forall>p \<in> set prevs. apart p s)" using no_overlap_iff[of prevs s] Cons.prems by simp
      then show ?thesis using None run by auto
    next
      case (Some u)
      then have "\<forall>p \<in> set prevs. apart p s" using no_overlap_iff[of prevs s] Cons.prems by simp
      then show ?thesis using Some run IH True by auto
    qed
  qed
qed

lemma set_seg_pages: "p \<in> set (seg_pages s) \<longleftrightarrow> p mod 4096 = 0 \<and> span_lo s \<le> p \<and> p < span_hi s"
proof -
  have "p \<in> set (seg_pages s) \<longleftrightarrow> (\<exists>k. p = span_lo s + k * 4096 \<and> k * 4096 < span_hi s - span_lo s)"
    by (auto simp: seg_pages_def pages_between_def span_lo_def span_hi_def page_down_def PAGE_SIZE_4K_def less_div_ceil)
  also have "\<dots> \<longleftrightarrow> p mod 4096 = 0 \<and> span_lo s \<le> p \<and> p < span_hi s"
  proof
    assume "p mod 4096 = 0 \<and> span_lo s \<le> p \<and> p < span_hi s"
    then show "\<exists>k. p = span_lo s + k * 4096 \<and> k * 4096 < span_hi s - span_lo s"
      by (intro exI[of _ "(p - span_lo s) div 4096"]) (auto simp: span_lo_def dvd_diff_nat)
  qed (auto simp: span_lo_def)
  finally show ?thesis .
qed

lemma placement_top:
  assumes "tp' = fold (\<lambda>s t. max t (span_hi s)) segs tp" and "tp mod 4096 = 0"
  shows "tp \<le> tp' \<and> tp' mod 4096 = 0 \<and> (\<forall>s \<in> set segs. span_hi s \<le> tp')"
  using assms
proof (induction segs arbitrary: tp)
  case (Cons s segs)
  have "max tp (span_hi s) mod 4096 = 0" using Cons.prems(2) by (auto simp: max_def span_hi_def)
  then show ?case using Cons.IH[of "max tp (span_hi s)"] Cons.prems(1) by auto
qed simp

lemma apart_pages: "apart s t \<Longrightarrow> set (seg_pages s) \<inter> set (seg_pages t) = {}"
  by (auto simp: apart_def set_seg_pages)

text \<open>A page of an installed address space, as the processor sees it.\<close>

lemma page_translate:
  assumes inv: "pages_inv m" and l: "lookup m (root_pa a) (of_nat p) = Some (leaf e pa)" and used: "frame_used m pa"
    and p: "user_page p" and i: "i < 4096"
  shows "translate (aspace_install a m) (of_nat (p + i)) = Some (leaf e pa, pa + of_nat i)"
    and "load_byte (aspace_install a m) (of_nat (p + i)) = Some (ram m (pa + of_nat i))"
proof -
  have lt: "p < 2 ^ 48" "p mod 4096 = 0" using p by (simp_all add: user_page_def USER_TOP_def)
  have "take_bit 12 (of_nat p :: u64) = 0"
    unfolding word_unat_eq_iff unsigned_take_bit_eq using lt by (simp add: unat_of_nat64 take_bit_eq_mod)
  then have al: "(of_nat p :: u64) AND mask 12 = 0" by (simp add: take_bit_eq_mask)
  have "unat (drop_bit 48 (of_nat p :: u64)) = 0"
    unfolding unsigned_drop_bit_eq using lt by (simp add: unat_of_nat64 drop_bit_eq_div take_bit_eq_mod)
  then have d: "drop_bit 48 (of_nat p + of_nat i :: u64) = 0" unfolding page_offset(3)[OF al i] by (simp add: unsigned_eq_0_iff)
  have ins: "pt (aspace_install a m) = pt m" "ram (aspace_install a m) = ram m" "ttbr0 (aspace_install a m) = root_pa a"
    by (simp_all add: aspace_install_def switch_def)
  have r: "hw_root (aspace_install a m) (of_nat p + of_nat i) = Some (root_pa a)" using d by (simp add: hw_root_def ins(3))
  have "lookup (aspace_install a m) (root_pa a) (of_nat p + of_nat i) = Some (leaf e pa)"
    using l page_offset(1)[OF al i] pt_same(1)[OF ins(1)] by (simp add: lookup_def idxs_def)
  from translate_page[OF r this] show t: "translate (aspace_install a m) (of_nat (p + i)) = Some (leaf e pa, pa + of_nat i)"
    unfolding page_offset(2)[OF al i] phys_addr_leaf[OF inv used] or_offset[OF page_aligned[OF used] i] by simp
  show "load_byte (aspace_install a m) (of_nat (p + i)) = Some (ram m (pa + of_nat i))"
    using t by (simp add: load_byte_def ins(2))
qed

lemma aspace_new_ready:
  assumes inv: "vm_inv R m" and k: "kernel_room m" and n: "n + 4 \<le> free_frames m"
  obtains a m1 where "aspace_new m = Some (a, m1)" and "ready (insert (root_pa a) R) (root_pa a) n m1"
    and "root_pa a \<notin> R" and "\<And>v. va_index v Level0 \<noteq> 511 \<Longrightarrow> lookup m1 (root_pa a) v = None"
    and "\<And>s v. s \<in> R \<Longrightarrow> s \<noteq> ttbr1 m \<Longrightarrow> va_index v Level0 \<noteq> 511 \<Longrightarrow> lookup m1 s v = lookup m s v"
    and "ttbr1 m1 = ttbr1 m" "ram m1 = ram m" "\<And>t. frame_used m t \<Longrightarrow> frame_used m1 t"
  using inv
proof (cases rule: aspace_new_spec)
  case panic
  then show thesis using k n unfolding kernel_room_def by auto
next
  case (new a m1)
  have R1: "ttbr1 m \<in> R" using inv by (simp add: vm_inv_def)
  have "kernel_room m1" unfolding kernel_room_def
  proof (intro allI impI, elim conjE)
    fix pa assume pa: "unat pa < 2 ^ 46" "\<not> frame_used m1 pa"
    then have nb: "\<not> in_block m (ttbr1 m) (pa + KZERO)" using k new(10) unfolding kernel_room_def by blast
    show "\<not> in_block m1 (ttbr1 m1) (pa + KZERO)"
    proof (cases "idxs (pa + KZERO) = idxs (root_pa a + KZERO)")
      case True
      then show ?thesis using new(13) lookup_idxs[OF True] unfolding in_block_def new(8) by metis
    next
      case False
      then show ?thesis using nb new(6)[OF R1 kzero_index[OF pa(1)]] unfolding in_block_def new(8) by simp
    qed
  qed
  moreover have "\<not> in_block m1 (root_pa a) v" if "va_index v Level0 \<noteq> 511" for v
    using new(5)[OF that] by (simp add: in_block_def)
  ultimately have "ready (insert (root_pa a) R) (root_pa a) n m1"
    unfolding ready_def using new(2,4,8,11) n R1 by auto
  then show thesis using that new by blast
qed

end
