(* ===== verification/Load_Props.thy ===== *)
theory Load_Props
  imports Load_Pages
begin

section \<open>What the loader builds\<close>

text \<open>
  The whole of \<open>load_elf\<close>: the placement check is exact, and an accepted image with room for its pages is
  loaded as the file says.
\<close>

subsection \<open>Properties\<close>

text \<open>C30: the placement loop accepts a segment list exactly when every segment starts at or above the image
  base, its pages end below \<open>KZERO\<close> without wrapping, and the page spans of any two segments are disjoint;
  it then returns the end of the highest page span.\<close>

theorem placement_accepts_exactly:
  "placement [] segs 0 = Some tp \<longleftrightarrow>
     (\<forall>s \<in> set segs. ELF_BASE \<le> unat (seg_vaddr s) \<and> seg_end s + 4096 < usize_bound \<and> span_hi s < unat KZERO) \<and>
     sorted_wrt (\<lambda>s t. span_hi t \<le> span_lo s \<or> span_hi s \<le> span_lo t) segs \<and>
     tp = fold (\<lambda>s t. max t (span_hi s)) segs 0"
  using placement_iff[of "[]" segs 0 tp] unfolding placed_def apart_def[abs_def] by simp

theorem placement_accepts_exactly_witness:
  "placement [] [demo_segment, demo_segment\<lparr>seg_vaddr := 0x201000\<rparr>] 0 = Some 0x202000 \<and>
   placement [] [demo_segment, demo_segment\<lparr>seg_vaddr := 0x200ff0\<rparr>] 0 \<noteq> Some 0x201000"
  unfolding placement_accepts_exactly
  by (simp add: demo_segment_def ELF_BASE_def IMAGE_BASE_def seg_end_def usize_bound_def span_hi_def span_lo_def KZERO_def)

lemma load_elf_spec:
  fixes R m bytes img tp
  defines "segs \<equiv> elf_segments img"
  assumes inv: "vm_inv R m" "kernel_room m" and parsed: "parse bytes = Some (Inr img)" "length bytes < usize_bound"
    and pl: "placement [] segs 0 = Some tp" and en: "entry_in_segment (elf_entry img) segs"
    and top: "tp + STACK_PAGES * PAGE_SIZE_4K \<le> USER_TOP"
    and room: "4 + 7 * ((\<Sum>s\<leftarrow>segs. length (seg_pages s)) + STACK_PAGES) \<le> free_frames m"
  obtains a m1 m' fr where "aspace_new m = Some (a, m1)"
    and "load_elf bytes m = Some (\<lparr>ld_aspace = a, ld_entry = elf_entry img,
           ld_user_sp = tp + STACK_PAGES * PAGE_SIZE_4K - 16, ld_heap_base = tp + STACK_PAGES * PAGE_SIZE_4K,
           ld_symtab = elf_symtab img\<rparr>, m')"
    and "root_pa a \<notin> R" and "vm_inv (insert (root_pa a) R) m'" and "root_pa a \<noteq> ttbr1 m1"
    and "\<And>v. va_index v Level0 \<noteq> 511 \<Longrightarrow> lookup m1 (root_pa a) v = None"
    and "\<And>s v. s \<in> R \<Longrightarrow> s \<noteq> ttbr1 m \<Longrightarrow> va_index v Level0 \<noteq> 511 \<Longrightarrow> lookup m1 s v = lookup m s v"
    and "ttbr1 m1 = ttbr1 m" "ram m1 = ram m" "\<And>t. frame_used m t \<Longrightarrow> frame_used m1 t"
    and "loaded (insert (root_pa a) R) (root_pa a) m1 m' (image_pages bytes segs \<union> stack_pages tp [0..<STACK_PAGES]) fr"
proof -
  let ?k = "\<Sum>s\<leftarrow>segs. length (seg_pages s)"
  have P: "\<forall>s \<in> set segs. placed s" "sorted_wrt apart segs" "tp = fold (\<lambda>s t. max t (span_hi s)) segs 0"
    using pl placement_iff[of "[]" segs 0 tp] by simp_all
  have T: "tp mod 4096 = 0" "\<And>s. s \<in> set segs \<Longrightarrow> span_hi s \<le> tp" using placement_top[OF P(3)] by simp_all
  have up: "user_page p" if "s \<in> set segs" "p \<in> set (seg_pages s)" for s p
    using T(2)[OF that(1)] that(2) top by (auto simp: user_page_def set_seg_pages)
  have dj: "sorted_wrt (\<lambda>s t. set (seg_pages s) \<inter> set (seg_pages t) = {}) segs"
    by (rule sorted_wrt_mono_rel[OF _ P(2)]) (rule apart_pages)
  have sane: "unat (seg_offset s) + unat (seg_filesz s) \<le> length bytes \<and> seg_end s + 4096 < usize_bound"
    if "s \<in> set segs" for s
    using parse_ok_iff[OF parsed(2), of img] parsed(1) that P(1) by (auto simp: segs_def segment_sane_def placed_def)
  have stk: "user_page (tp + k * 4096)" if "k \<in> set [0..<STACK_PAGES]" for k
    using that T(1) top by (auto simp: user_page_def STACK_PAGES_def PAGE_SIZE_4K_def mod_add_left_eq)
  have n: "(7 * STACK_PAGES + 7 * ?k) + 4 \<le> free_frames m" using room by simp
  obtain a m1 where
    A: "aspace_new m = Some (a, m1)" "ready (insert (root_pa a) R) (root_pa a) (7 * STACK_PAGES + 7 * ?k) m1"
      "root_pa a \<notin> R" "\<And>v. va_index v Level0 \<noteq> 511 \<Longrightarrow> lookup m1 (root_pa a) v = None"
      "\<And>s v. s \<in> R \<Longrightarrow> s \<noteq> ttbr1 m \<Longrightarrow> va_index v Level0 \<noteq> 511 \<Longrightarrow> lookup m1 s v = lookup m s v"
      "ttbr1 m1 = ttbr1 m" "ram m1 = ram m" "\<And>t. frame_used m t \<Longrightarrow> frame_used m1 t"
    using aspace_new_ready[OF inv n] by metis
  have "\<exists>m' fr. load_segments a bytes segs m1 = Some m' \<and> ready (insert (root_pa a) R) (root_pa a) (7 * STACK_PAGES) m' \<and>
      loaded (insert (root_pa a) R) (root_pa a) m1 m' (image_pages bytes segs) fr"
    by (rule load_segments_loaded[OF A(2) _ dj]) (use up sane in blast)+
  then obtain m2 fr2 where
    S: "load_segments a bytes segs m1 = Some m2" "ready (insert (root_pa a) R) (root_pa a) (7 * STACK_PAGES) m2"
      "loaded (insert (root_pa a) R) (root_pa a) m1 m2 (image_pages bytes segs) fr2" by blast
  have "ready (insert (root_pa a) R) (root_pa a) (0 + 7 * length [0..<STACK_PAGES]) m2" using S(2) by simp
  then have "\<exists>m' fr. map_stack a tp [0..<STACK_PAGES] m2 = Some m' \<and> ready (insert (root_pa a) R) (root_pa a) 0 m' \<and>
      loaded (insert (root_pa a) R) (root_pa a) m2 m' (stack_pages tp [0..<STACK_PAGES]) fr"
    by (rule map_stack_loaded) (use stk in simp_all)
  then obtain m' fr3 where
    K: "map_stack a tp [0..<STACK_PAGES] m2 = Some m'" "ready (insert (root_pa a) R) (root_pa a) 0 m'"
      "loaded (insert (root_pa a) R) (root_pa a) m2 m' (stack_pages tp [0..<STACK_PAGES]) fr3" by blast
  obtain q where "tp = q * 4096" using T(1) by (metis mod_0_imp_dvd dvd_div_mult_self)
  then have "page_up tp = Some tp" using page_up_eq[of tp] top by (simp add: USER_TOP_def usize_bound_def)
  then have run: "load_elf bytes m = Some (\<lparr>ld_aspace = a, ld_entry = elf_entry img,
      ld_user_sp = tp + STACK_PAGES * PAGE_SIZE_4K - 16, ld_heap_base = tp + STACK_PAGES * PAGE_SIZE_4K,
      ld_symtab = elf_symtab img\<rparr>, m')"
    using parsed(1) pl en A(1) S(1) K(1) unfolding load_elf_def segs_def by (simp add: Let_def)
  have f: "fst ` image_pages bytes segs \<inter> fst ` stack_pages tp [0..<STACK_PAGES] = {}"
    unfolding fst_image_pages fst_stack_pages using T(2) by (fastforce simp: set_seg_pages)
  have L: "loaded (insert (root_pa a) R) (root_pa a) m1 m' (image_pages bytes segs \<union> stack_pages tp [0..<STACK_PAGES])
      (\<lambda>p. if p \<in> fst ` image_pages bytes segs then fr2 p else fr3 p)"
    by (rule loaded_trans[OF S(3) K(3) readyD(2,3)[OF A(2)] f]) (use up stk in auto)
  show thesis by (rule that[OF A(1) run A(3) readyD(1)[OF K(2)] readyD(3)[OF A(2)] A(4-8) L])
qed

lemma page_of_le:
  fixes va lo :: nat
  assumes "lo mod 4096 = 0" shows "lo \<le> va div 4096 * 4096 \<longleftrightarrow> lo \<le> va"
proof -
  obtain k where "lo = k * 4096" using assms by (metis mod_0_imp_dvd dvd_div_mult_self)
  then show ?thesis by (simp add: less_eq_div_iff_mult_less_eq)
qed

lemma loaded_image:
  assumes inv: "pages_inv m'" and r: "root_pa a \<in> Q" "root_pa a \<noteq> ttbr1 m1"
    and none: "\<forall>v. va_index v Level0 \<noteq> 511 \<longrightarrow> lookup m1 (root_pa a) v = None"
    and l: "loaded Q (root_pa a) m1 m' (image_pages bytes segs \<union> stack_pages tp [0..<16]) fr"
    and T: "tp mod 4096 = 0" "tp + 0x10000 \<le> USER_TOP" "\<forall>s \<in> set segs. span_hi s \<le> tp"
  shows "s \<in> set segs \<Longrightarrow> span_lo s \<le> va \<Longrightarrow> va < span_hi s \<Longrightarrow>
      translate (aspace_install a m') (of_nat va) =
        Some (leaf (seg_entry s) (fr (va div 4096 * 4096)), fr (va div 4096 * 4096) + of_nat (va mod 4096)) \<and>
      load_byte (aspace_install a m') (of_nat va) = Some (seg_byte bytes s va)"
    and "tp \<le> va \<Longrightarrow> va < tp + 0x10000 \<Longrightarrow>
      translate (aspace_install a m') (of_nat va) =
        Some (leaf rw_user_data (fr (va div 4096 * 4096)), fr (va div 4096 * 4096) + of_nat (va mod 4096))"
    and "va < USER_TOP \<Longrightarrow> (\<And>s. s \<in> set segs \<Longrightarrow> \<not> (span_lo s \<le> va \<and> va < span_hi s)) \<Longrightarrow> \<not> (tp \<le> va \<and> va < tp + 0x10000) \<Longrightarrow>
      lookup m' (root_pa a) (of_nat va) = None"
proof -
  let ?p = "va div 4096 * 4096" and ?i = "va mod 4096"
  let ?W = "image_pages bytes segs \<union> stack_pages tp [0..<16]"
  have pi: "?p + ?i = va" "?i < 4096" "?p mod 4096 = 0" "?p \<le> va" by simp_all
  have lo: "span_lo s mod 4096 = 0" "span_hi s mod 4096 = 0" for s by (simp_all add: span_lo_def span_hi_def)
  have up: "lo \<le> ?p \<longleftrightarrow> lo \<le> va" "?p < lo \<longleftrightarrow> va < lo" if "lo mod 4096 = 0" for lo
    using page_of_le[OF that, of va] by (simp_all only: not_le[symmetric])
  have tr: "translate (aspace_install a m') (of_nat va) = Some (leaf e (fr ?p), fr ?p + of_nat ?i)"
      "load_byte (aspace_install a m') (of_nat va) = Some (ram m' (fr ?p + of_nat ?i))"
      "f ?i = Some b \<Longrightarrow> ram m' (fr ?p + of_nat ?i) = b"
    if "(?p, e, f) \<in> ?W" "va < USER_TOP" for e f b
  proof -
    have h: "page_holds (root_pa a) m1 m' fr (?p, e, f)" by (rule loadedD(4)[OF l that(1)])
    have u: "user_page ?p" using pi(3,4) that(2) by (simp add: user_page_def)
    have hh: "lookup m' (root_pa a) (of_nat ?p) = Some (leaf e (fr ?p))" "frame_used m' (fr ?p)"
      "f ?i = Some b \<Longrightarrow> ram m' (fr ?p + of_nat ?i) = b" using h pi(2) unfolding page_holds_def by blast+
    note t = page_translate[OF inv hh(1,2) u pi(2), unfolded pi(1)]
    show "translate (aspace_install a m') (of_nat va) = Some (leaf e (fr ?p), fr ?p + of_nat ?i)" by (rule t(1))
    show "load_byte (aspace_install a m') (of_nat va) = Some (ram m' (fr ?p + of_nat ?i))" by (rule t(2))
    show "f ?i = Some b \<Longrightarrow> ram m' (fr ?p + of_nat ?i) = b" by (rule hh(3))
  qed
  show "translate (aspace_install a m') (of_nat va) = Some (leaf (seg_entry s) (fr ?p), fr ?p + of_nat ?i) \<and>
      load_byte (aspace_install a m') (of_nat va) = Some (seg_byte bytes s va)"
    if "s \<in> set segs" "span_lo s \<le> va" "va < span_hi s"
  proof -
    have "?p \<in> set (seg_pages s)" using up[OF lo(1)] up[OF lo(2)] that(2,3) pi(3) by (simp add: set_seg_pages)
    then have w: "(?p, seg_entry s, \<lambda>i. Some (seg_byte bytes s (?p + i))) \<in> ?W"
      using that(1) unfolding image_pages_def page_content_def by blast
    have "va < USER_TOP" using that(3) T(2) T(3)[rule_format, OF that(1)] by linarith
    from tr(1,2)[OF w this] tr(3)[OF w this refl] show ?thesis by simp
  qed
  show "translate (aspace_install a m') (of_nat va) = Some (leaf rw_user_data (fr ?p), fr ?p + of_nat ?i)"
    if "tp \<le> va" "va < tp + 0x10000"
  proof -
    have tp: "tp div 4096 * 4096 = tp" using T(1) by (metis mod_0_imp_dvd dvd_div_mult_self)
    have "tp \<le> ?p" using up[OF T(1)] that(1) by simp
    then have le: "tp div 4096 \<le> va div 4096" by (metis tp mult_le_cancel2 zero_less_numeral)
    have "?p < tp + 16 * 4096" using that(2) pi(4) by linarith
    then have "va div 4096 * 4096 < (tp div 4096 + 16) * 4096" unfolding add_mult_distrib tp .
    then have "va div 4096 < tp div 4096 + 16" by (simp only: mult_less_cancel2)
    then have "va div 4096 - tp div 4096 \<in> set [0..<16]" using le by simp
    moreover have "?p = tp + (va div 4096 - tp div 4096) * 4096" using le tp by (simp add: diff_mult_distrib)
    ultimately have w: "(?p, rw_user_data, \<lambda>_. None) \<in> ?W" unfolding stack_pages_def by (intro UnI2 image_eqI[where x = "va div 4096 - tp div 4096"]) simp_all
    have "va < USER_TOP" using that(2) T(2) by linarith
    from tr(1)[OF w this] show ?thesis .
  qed
  show "lookup m' (root_pa a) (of_nat va) = None"
    if "va < USER_TOP" "\<And>s. s \<in> set segs \<Longrightarrow> \<not> (span_lo s \<le> va \<and> va < span_hi s)" "\<not> (tp \<le> va \<and> va < tp + 0x10000)"
  proof -
    have v: "va_index (of_nat va) Level0 \<noteq> 511" by (rule user_top_index[OF that(1)])
    have "lookup m' (root_pa a) (of_nat va) = lookup m1 (root_pa a) (of_nat va)"
    proof (rule growsD(1)[OF loadedD(1)[OF l] r(1) v])
      fix u assume "(root_pa a, u) \<in> touched (root_pa a) m1 m' (fst ` ?W)"
      then obtain p where p: "u = of_nat p" "p \<in> fst ` ?W" using r(2) unfolding touched_def by blast
      show "idxs (of_nat va) \<noteq> idxs u"
      proof
        assume i: "idxs (of_nat va) = idxs u"
        from p(2) have c: "(\<exists>s \<in> set segs. p \<in> set (seg_pages s)) \<or> (\<exists>k < 16. p = tp + k * 4096)"
          unfolding image_Un fst_image_pages fst_stack_pages by auto
        then have q: "p mod 4096 = 0" "p < USER_TOP"
          using T by (fastforce simp: set_seg_pages mod_add_left_eq)+
        have "va div 4096 = p div 4096" by (rule idxs_inj[OF that(1) q(2)]) (use i p(1) in simp)
        then have "?p = p" using q(1) by (metis mod_0_imp_dvd dvd_div_mult_self)
        with c show False
          using that(2,3) up[OF lo(1)] up[OF lo(2)] up[OF T(1)] up(2)[of "tp + 0x10000"] T(1)
          by (auto simp: set_seg_pages mod_add_left_eq)
      qed
    qed
    then show ?thesis using none[rule_format, OF v] by simp
  qed
qed

text \<open>The addresses of an image: the page spans of its segments and its stack.\<close>

definition in_image :: "segment list \<Rightarrow> nat \<Rightarrow> nat \<Rightarrow> bool" where
  "in_image segs tp va \<longleftrightarrow> (\<exists>s \<in> set segs. span_lo s \<le> va \<and> va < span_hi s) \<or> tp \<le> va \<and> va < tp + 0x10000"

lemma in_image_page:
  assumes "in_image segs tp (n * 4096)" and "tp mod 4096 = 0"
  shows "n * 4096 \<in> fst ` (image_pages bytes segs \<union> stack_pages tp [0..<16])"
proof -
  obtain k where k: "tp = k * 4096" using assms(2) by (metis mod_0_imp_dvd dvd_div_mult_self)
  have "n * 4096 = tp + (n - k) * 4096 \<and> n - k < 16" if "tp \<le> n * 4096" "n * 4096 < tp + 0x10000"
    using that unfolding k by (auto simp: diff_mult_distrib)
  then show ?thesis
    using assms(1) unfolding in_image_def image_Un fst_image_pages fst_stack_pages
    by (elim disjE) (auto simp: set_seg_pages intro!: image_eqI[where x = "n - k"])
qed

text \<open>C24: \<open>load_elf\<close> builds the process image.  For an image the reader accepts, whose segments the placement
  check accepts and whose entry point lies in an executable segment, with room for its pages, their
  tables and their kernel mappings, it returns.  The new address space is a well-formed root beside
  the existing ones.  Once installed, every address of a segment's pages reads the file's byte, or zero
  outside the file part, with the permission of the segment; the sixteen pages from the top of the
  image are the read-write stack that ends at the returned stack pointer and heap base; no other address
  below the recursive slot is mapped.  The pages are distinct frames that were free, and the other
  address spaces and the bytes of every frame in use are unchanged.\<close>

theorem load_elf_loads_image:
  assumes "vm_inv R m" and "kernel_room m" and "parse bytes = Some (Inr img)" and "length bytes < usize_bound"
    and "elf_segments img = segs" and "placement [] segs 0 = Some tp" and "entry_in_segment (elf_entry img) segs"
    and "tp + 0x10000 \<le> USER_TOP" and "4 + 7 * ((\<Sum>s\<leftarrow>segs. length (seg_pages s)) + 16) \<le> free_frames m"
  shows "\<exists>a m' fr. load_elf bytes m = Some (\<lparr>ld_aspace = a, ld_entry = elf_entry img, ld_user_sp = tp + 0x10000 - 16,
             ld_heap_base = tp + 0x10000, ld_symtab = elf_symtab img\<rparr>, m') \<and>
     root_pa a \<notin> R \<and> vm_inv (insert (root_pa a) R) m' \<and>
     (\<forall>s \<in> set segs. \<forall>va. span_lo s \<le> va \<and> va < span_hi s \<longrightarrow>
        translate (aspace_install a m') (of_nat va) = Some (leaf (seg_entry s) (fr (va div 4096)), fr (va div 4096) + of_nat (va mod 4096)) \<and>
        load_byte (aspace_install a m') (of_nat va) = Some (seg_byte bytes s va)) \<and>
     (\<forall>va. tp \<le> va \<and> va < tp + 0x10000 \<longrightarrow>
        translate (aspace_install a m') (of_nat va) = Some (leaf rw_user_data (fr (va div 4096)), fr (va div 4096) + of_nat (va mod 4096))) \<and>
     (\<forall>va < USER_TOP. \<not> in_image segs tp va \<longrightarrow> lookup m' (root_pa a) (of_nat va) = None) \<and>
     inj_on fr {n. in_image segs tp (n * 4096)} \<and>
     (\<forall>n. in_image segs tp (n * 4096) \<longrightarrow> \<not> frame_used m (fr n) \<and> frame_used m' (fr n)) \<and>
     (\<forall>s \<in> R. \<forall>v. s \<noteq> ttbr1 m \<and> va_index v Level0 \<noteq> 511 \<longrightarrow> lookup m' s v = lookup m s v) \<and>
     (\<forall>pa i. frame_used m pa \<and> i < 4096 \<longrightarrow> ram m' (pa + of_nat i) = ram m (pa + of_nat i))"
proof -
  have st: "STACK_PAGES = 16" "16 * PAGE_SIZE_4K = 0x10000" by (simp_all add: STACK_PAGES_def PAGE_SIZE_4K_def)
  note spec = load_elf_spec[OF assms(1-4), of tp, unfolded assms(5) st, OF assms(6-9)]
  have "tp = fold (\<lambda>s t. max t (span_hi s)) segs 0" using assms(6) placement_iff[of "[]" segs 0 tp] by simp
  then have T: "tp mod 4096 = 0" "\<forall>s \<in> set segs. span_hi s \<le> tp" using placement_top[of tp segs 0] by simp_all
  show ?thesis
  proof (rule spec)
    fix a m1 m' fr
    let ?W = "image_pages bytes segs \<union> stack_pages tp [0..<16]"
    assume run: "load_elf bytes m = Some (\<lparr>ld_aspace = a, ld_entry = elf_entry img, ld_user_sp = tp + 0x10000 - 16,
          ld_heap_base = tp + 0x10000, ld_symtab = elf_symtab img\<rparr>, m')"
      and r: "root_pa a \<notin> R" "vm_inv (insert (root_pa a) R) m'" "root_pa a \<noteq> ttbr1 m1"
      and e: "\<And>v. va_index v Level0 \<noteq> 511 \<Longrightarrow> lookup m1 (root_pa a) v = None"
      and o: "\<And>s v. s \<in> R \<Longrightarrow> s \<noteq> ttbr1 m \<Longrightarrow> va_index v Level0 \<noteq> 511 \<Longrightarrow> lookup m1 s v = lookup m s v"
      and k: "ttbr1 m1 = ttbr1 m" "ram m1 = ram m" "\<And>t. frame_used m t \<Longrightarrow> frame_used m1 t"
      and l: "loaded (insert (root_pa a) R) (root_pa a) m1 m' ?W fr"
    have inv: "pages_inv m'" using r(2) by (simp add: vm_inv_def)
    have e': "\<forall>v. va_index v Level0 \<noteq> 511 \<longrightarrow> lookup m1 (root_pa a) v = None" using e by blast
    note I = loaded_image[OF inv insertI1 r(3) e' l T(1) assms(8) T(2)]
    have inj: "inj_on (\<lambda>n. fr (n * 4096)) {n. in_image segs tp (n * 4096)}"
    proof (rule inj_onI)
      fix x y assume a: "x \<in> {n. in_image segs tp (n * 4096)}" "y \<in> {n. in_image segs tp (n * 4096)}" "fr (x * 4096) = fr (y * 4096)"
      have "x * 4096 = y * 4096"
        by (rule inj_onD[OF loadedD(3)[OF l] a(3)]; rule in_image_page[OF _ T(1)]) (use a(1,2) in simp_all)
      then show "x = y" by simp
    qed
    have fresh: "\<not> frame_used m (fr (n * 4096)) \<and> frame_used m' (fr (n * 4096))" if "in_image segs tp (n * 4096)" for n
    proof -
      from in_image_page[OF that T(1), of bytes] obtain en f where "(n * 4096, en, f) \<in> ?W" by fastforce
      from loadedD(4)[OF l this] k(3) show ?thesis unfolding page_holds_def by blast
    qed
    have other: "lookup m' s v = lookup m s v" if "s \<in> R" "s \<noteq> ttbr1 m" "va_index v Level0 \<noteq> 511" for s v
    proof -
      have "lookup m' s v = lookup m1 s v"
        by (rule growsD(1)[OF loadedD(1)[OF l]]) (use that r(1) k(1) in \<open>auto simp: touched_def simp del: va_index.simps\<close>)
      then show ?thesis using o[OF that] by simp
    qed
    have bytes: "ram m' (pa + of_nat i) = ram m (pa + of_nat i)" if "frame_used m pa" "i < 4096" for pa i
      using loadedD(2)[OF l k(3)[OF that(1)] that(2)] k(2) by simp
    have none: "lookup m' (root_pa a) (of_nat va) = None" if "va < USER_TOP" "\<not> in_image segs tp va" for va
      using I(3)[OF that(1)] that(2) unfolding in_image_def by blast
    show ?thesis
    proof (rule exI[of _ a], rule exI[of _ m'], rule exI[of _ "\<lambda>n. fr (n * 4096)"], intro conjI ballI allI impI; (elim conjE)?)
    qed (fact run r I(1)[THEN conjunct1] I(1)[THEN conjunct2] I(2) none inj fresh[THEN conjunct1] fresh[THEN conjunct2] other bytes)+
  qed
qed

lemma demo_room: "kernel_room demo_mem"
  unfolding kernel_room_def using demo_lookup[of 4096, OF _ kzero_index] by (simp add: in_block_def demo_mem_def)

lemma demo_span: "span_lo demo_segment = 0x200000" "span_hi demo_segment = 0x201000" "length (seg_pages demo_segment) = 1"
  by (simp_all add: span_lo_def span_hi_def demo_segment_def seg_end_def seg_pages_def pages_between_def page_down_def
      PAGE_SIZE_4K_def div_ceil_def)

lemma demo_placement: "placement [] [demo_segment] 0 = Some 0x201000"
  using placement_iff[of "[]" "[demo_segment]" 0 "0x201000"]
  by (simp add: placed_def demo_span(2)) (simp add: demo_segment_def ELF_BASE_def IMAGE_BASE_def seg_end_def usize_bound_def KZERO_def)

lemma demo_bytes:
  "seg_byte (elf_image 0x200000 [demo_segment] [1, 2, 3, 4]) demo_segment 0x200002 = 3"
  "seg_byte (elf_image 0x200000 [demo_segment] [1, 2, 3, 4]) demo_segment 0x200004 = 0"
proof -
  have "length (image_header 0x200000 1) = 64" "length (image_phdr demo_segment) = 56"
    by (simp_all add: image_header_def image_phdr_def to_le_def)
  then have "elf_image 0x200000 [demo_segment] [1, 2, 3, 4] ! (120 + 2) = 3"
    unfolding elf_image_def by (simp add: nth_append)
  then show "seg_byte (elf_image 0x200000 [demo_segment] [1, 2, 3, 4]) demo_segment 0x200002 = 3"
    by (simp add: seg_byte_def demo_segment_def)
qed (simp add: seg_byte_def demo_segment_def)

theorem load_elf_loads_image_witness:
  "\<exists>a m'. load_elf (elf_image 0x200000 [demo_segment] [1, 2, 3, 4]) demo_mem = Some (\<lparr>ld_aspace = a, ld_entry = 0x200000,
       ld_user_sp = 0x210ff0, ld_heap_base = 0x211000, ld_symtab = None\<rparr>, m') \<and>
     load_byte (aspace_install a m') 0x200002 = Some 3 \<and> load_byte (aspace_install a m') 0x200004 = Some 0"
proof -
  let ?b = "elf_image 0x200000 [demo_segment] [1, 2, 3, 4]"
  have p: "parse ?b = Some (Inr \<lparr>elf_entry = 0x200000, elf_segments = [demo_segment], elf_symtab = None\<rparr>)"
    by (rule parse_image) (use demo_sane in simp_all)
  have e: "entry_in_segment 0x200000 [demo_segment]"
    by (simp add: entry_in_segment_def seg_end_def demo_segment_def)
  have t: "0x201000 + 0x10000 \<le> USER_TOP" by (simp add: USER_TOP_def)
  have f: "4 + 7 * ((\<Sum>s\<leftarrow>[demo_segment]. length (seg_pages s)) + 16) \<le> free_frames demo_mem"
    by (simp add: demo_span(3) demo_free)
  have main: ?thesis
    if run: "load_elf ?b demo_mem = Some (\<lparr>ld_aspace = a, ld_entry = 0x200000,
       ld_user_sp = 0x201000 + 0x10000 - 16, ld_heap_base = 0x201000 + 0x10000, ld_symtab = None\<rparr>, m')"
    and l: "\<forall>s \<in> set [demo_segment]. \<forall>va. span_lo s \<le> va \<and> va < span_hi s \<longrightarrow> P s va \<and>
        load_byte (aspace_install a m') (of_nat va) = Some (seg_byte ?b s va)" for a m' P
  proof -
    have "load_byte (aspace_install a m') 0x200002 = Some 3" "load_byte (aspace_install a m') 0x200004 = Some 0"
      using l[rule_format, of demo_segment "0x200002"] l[rule_format, of demo_segment "0x200004"] demo_bytes
      by (simp_all add: demo_span)
    moreover have "load_elf ?b demo_mem = Some (\<lparr>ld_aspace = a, ld_entry = 0x200000,
       ld_user_sp = 0x210ff0, ld_heap_base = 0x211000, ld_symtab = None\<rparr>, m')" using run by simp
    ultimately show ?thesis by blast
  qed
  have s: "elf_segments \<lparr>elf_entry = 0x200000, elf_segments = [demo_segment], elf_symtab = None\<rparr> = [demo_segment]"
    "entry_in_segment (elf_entry \<lparr>elf_entry = 0x200000, elf_segments = [demo_segment], elf_symtab = None\<rparr>) [demo_segment]"
    using e by simp_all
  note m = load_elf_loads_image[OF demo_inv demo_room p demo_sane(2) s(1) demo_placement s(2) t f, unfolded elf.select_convs]
  show ?thesis by (rule exE[OF m], elim exE conjE) (rule main)
qed

end
