(* ===== verification/Proc_Table.thy ===== *)
theory Proc_Table
  imports Load_Props Ipc_Channel
begin

section \<open>The process table (\<open>aarch64/src/process.rs\<close>)\<close>

text \<open>
  Processes, their priorities and states, the choice of the next process, and the operations on the
  table that do not switch: waking, priorities, exit status, reaping, and installing a new process in
  a free slot.  A pointer to a process is the index of its slot.  What a suspended process does when it
  is resumed, its \<open>Context\<close> and the call chain below it, is a value of \<open>cont\<close>: one constructor for each
  place of the kernel that calls \<open>swtch\<close>.
\<close>

subsection \<open>Priorities\<close>

definition PRIO_MIN :: u8 where "PRIO_MIN = 0"
definition PRIO_IDLE :: u8 where "PRIO_IDLE = 255"
definition DEFAULT_PRIORITY :: u8 where "DEFAULT_PRIORITY = 128"

record priority_state =
  prio_base :: u8
  prio_effective :: u8

definition priority_state_new :: "u8 \<Rightarrow> priority_state" where
  "priority_state_new b = \<lparr>prio_base = b, prio_effective = b\<rparr>"

definition is_boosted :: "priority_state \<Rightarrow> bool" where
  "is_boosted p \<longleftrightarrow> prio_effective p < prio_base p"

definition prio_boost :: "u8 \<Rightarrow> priority_state \<Rightarrow> priority_state" where
  "prio_boost to p = (if is_boosted p then p else p\<lparr>prio_effective := to\<rparr>)"

definition prio_unboost :: "priority_state \<Rightarrow> priority_state" where
  "prio_unboost p = p\<lparr>prio_effective := prio_base p\<rparr>"

text \<open>The base write and the boosted test after it, as \<open>set_priority\<close> and \<open>sys_setprio\<close> do them.\<close>

definition prio_set_base :: "u8 \<Rightarrow> priority_state \<Rightarrow> priority_state" where
  "prio_set_base b p =
     (let p1 = p\<lparr>prio_base := b\<rparr> in if is_boosted p1 then p1 else p1\<lparr>prio_effective := b\<rparr>)"

subsection \<open>Processes\<close>

datatype pstate = Running | Runnable | Blocked | Exited

datatype cont =
    ForkRet
  | Yielded
  | Preempted
  | Exiting
  | InSend usize message
  | InReceive usize u64 u64
  | InReceiveAt usize u64 u64 u64

record process =
  pstate :: pstate
  pcontext :: cont
  kstack :: usize
  exit_status :: u64
  prio :: priority_state
  paspace :: aspace
  heap_base :: usize
  heap_brk :: usize
  heap_hwm :: usize
  deadline :: "u64 option"
  sym :: "(u8 list \<times> sym_table) option"

definition NPROCS :: usize where "NPROCS = 8"
definition FAULT_STATUS :: u64 where "FAULT_STATUS = 0xff"
definition KILL_STATUS :: u64 where "KILL_STATUS = 0x7f"

type_synonym ptable = "process option list"

definition EMPTY_TABLE :: ptable where "EMPTY_TABLE = replicate NPROCS None"

definition in_state :: "pstate \<Rightarrow> process option \<Rightarrow> bool" where
  "in_state s slot = (case slot of None \<Rightarrow> False | Some p \<Rightarrow> pstate p = s)"

text \<open>\<open>table.get_mut(id)\<close> with a live slot: an index past the table or an empty slot is left alone.\<close>

definition with_slot :: "usize \<Rightarrow> (process \<Rightarrow> process) \<Rightarrow> ptable \<Rightarrow> ptable" where
  "with_slot i f t = (if i < length t then t[i := map_option f (t ! i)] else t)"

definition slot_at :: "ptable \<Rightarrow> usize \<Rightarrow> process option" where
  "slot_at t i = (if i < length t then t ! i else None)"

subsection \<open>Selection\<close>

definition pick_next :: "(pstate \<times> u8) list \<Rightarrow> usize \<Rightarrow> usize \<Rightarrow> usize option" where
  "pick_next view cur cursor =
     (let n = length view;
          cand = [i \<leftarrow> [0..<n]. i \<noteq> cur \<and> fst (view ! i) = Runnable]
      in case map (\<lambda>i. snd (view ! i)) cand of
           [] \<Rightarrow> None
         | p # ps \<Rightarrow>
             let best = fold min ps p in
             find (\<lambda>i. i \<noteq> cur \<and> fst (view ! i) = Runnable \<and> snd (view ! i) = best)
               (map (\<lambda>off. (cursor + off) mod n) [1..<Suc n]))"

definition slot_view :: "process option \<Rightarrow> pstate \<times> u8" where
  "slot_view slot = (case slot of Some p \<Rightarrow> (pstate p, prio_effective (prio p)) | None \<Rightarrow> (Exited, PRIO_IDLE))"

subsection \<open>Operations on the table\<close>

definition expire :: "u64 \<Rightarrow> process option \<Rightarrow> process option" where
  "expire tm slot =
     (case slot of
        None \<Rightarrow> None
      | Some p \<Rightarrow>
          (case deadline p of
             None \<Rightarrow> Some p
           | Some d \<Rightarrow>
               if pstate p = Blocked \<and> d \<le> tm then Some (p\<lparr>pstate := Runnable, deadline := None\<rparr>) else Some p))"

definition check_deadlines :: "u64 \<Rightarrow> ptable \<Rightarrow> ptable" where
  "check_deadlines tm t = map (expire tm) t"

definition wake_slot :: "usize \<Rightarrow> ptable \<Rightarrow> ptable" where
  "wake_slot i = with_slot i (\<lambda>p. if pstate p = Blocked then p\<lparr>pstate := Runnable, deadline := None\<rparr> else p)"

definition set_priority :: "usize \<Rightarrow> u8 \<Rightarrow> ptable \<Rightarrow> ptable" where
  "set_priority i b = with_slot i (\<lambda>p. p\<lparr>prio := prio_set_base b (prio p)\<rparr>)"

definition boost_slot :: "usize \<Rightarrow> u8 \<Rightarrow> ptable \<Rightarrow> ptable" where
  "boost_slot i to = with_slot i (\<lambda>p. p\<lparr>prio := prio_boost to (prio p)\<rparr>)"

definition unboost_slot :: "usize \<Rightarrow> ptable \<Rightarrow> ptable" where
  "unboost_slot i = with_slot i (\<lambda>p. p\<lparr>prio := prio_unboost (prio p)\<rparr>)"

definition effective_priority :: "usize \<Rightarrow> ptable \<Rightarrow> u8 option" where
  "effective_priority i t = map_option (\<lambda>p. prio_effective (prio p)) (slot_at t i)"

definition status :: "usize \<Rightarrow> ptable \<Rightarrow> u64 option" where
  "status i t =
     (case slot_at t i of Some p \<Rightarrow> if pstate p = Exited then Some (exit_status p) else None | None \<Rightarrow> None)"

definition any_exited :: "ptable \<Rightarrow> bool" where
  "any_exited t = list_ex (in_state Exited) t"

definition mark_exited :: "u64 \<Rightarrow> process \<Rightarrow> process" where
  "mark_exited st p = p\<lparr>exit_status := st, pstate := Exited\<rparr>"

definition sys_wait :: "u64 \<Rightarrow> ptable \<Rightarrow> (u64 \<times> u64) \<times> ptable" where
  "sys_wait child_id t =
     (let i = unat child_id in
      if i \<noteq> 0 \<and> (length t \<le> i \<or> \<not> in_state Exited (slot_at t i)) then ((WAIT_BAD_ID, 0), t)
      else
        (case (if i = 0 then position (in_state Exited) t else Some i) of
           None \<Rightarrow> ((WAIT_TIMEOUT, 0), t)
         | Some k \<Rightarrow> (case t ! k of None \<Rightarrow> ((WAIT_TIMEOUT, 0), t) | Some p \<Rightarrow> ((of_nat k, exit_status p), t[k := None]))))"

definition kill_slot :: "usize \<Rightarrow> ptable \<Rightarrow> bool \<times> ptable" where
  "kill_slot i t =
     (case slot_at t i of
        Some p \<Rightarrow> if pstate p \<noteq> Exited then (True, t[i := Some (mark_exited KILL_STATUS p)]) else (False, t)
      | None \<Rightarrow> (False, t))"

definition is_free :: "process option \<Rightarrow> bool" where
  "is_free slot = (case slot of None \<Rightarrow> True | Some p \<Rightarrow> pstate p = Exited)"

definition new_process :: "aspace \<Rightarrow> usize \<Rightarrow> usize \<Rightarrow> u8 \<Rightarrow> (u8 list \<times> sym_table) option \<Rightarrow> process" where
  "new_process a i hb pr sy =
     \<lparr>pstate = Runnable, pcontext = ForkRet, kstack = i, exit_status = 0, prio = priority_state_new pr, paspace = a,
      heap_base = hb, heap_brk = hb, heap_hwm = hb, deadline = None, sym = sy\<rparr>"

subsection \<open>The heap watermarks\<close>

definition brk_grow :: "usize \<Rightarrow> usize \<Rightarrow> usize \<Rightarrow> usize option" where
  "brk_grow brk count bound =
     do {
       let pages = div_ceil count PAGE_SIZE_4K;
       add \<leftarrow> checked_mul pages PAGE_SIZE_4K;
       new_brk \<leftarrow> checked_add brk add;
       if new_brk \<le> bound then Some new_brk else None
     }"

definition brk_shrink :: "usize \<Rightarrow> usize \<Rightarrow> usize \<Rightarrow> usize option" where
  "brk_shrink base brk va = (if va mod PAGE_SIZE_4K = 0 \<and> base \<le> va \<and> va \<le> brk then Some va else None)"

subsection \<open>The selected process\<close>

definition ready_at :: "(pstate \<times> u8) list \<Rightarrow> usize \<Rightarrow> usize \<Rightarrow> bool" where
  "ready_at view cur i \<longleftrightarrow> i < length view \<and> i \<noteq> cur \<and> fst (view ! i) = Runnable"

text \<open>How many slots after the cursor, wrapping, slot \<open>i\<close> comes.\<close>

definition rr_dist :: "usize \<Rightarrow> usize \<Rightarrow> usize \<Rightarrow> usize" where
  "rr_dist n c i = (i + (n - 1 - c)) mod n"

lemma fold_min: "fold min ps (p :: 'a :: linorder) \<in> insert p (set ps) \<and> (\<forall>x \<in> insert p (set ps). fold min ps p \<le> x)"
  using Min_in[of "set (p # ps)"] Min_le[of "set (p # ps)"] unfolding Min.set_eq_fold by simp

lemma rr_slot:
  assumes "c < n" and "i < n" and "k < n"
  shows "(c + Suc k) mod n = i \<longleftrightarrow> k = rr_dist n c i"
proof
  have e: "c + Suc k + (n - 1 - c) = k + n" using assms by linarith
  assume "(c + Suc k) mod n = i"
  then have "(i + (n - 1 - c)) mod n = (c + Suc k + (n - 1 - c)) mod n" by (metis mod_add_left_eq)
  then show "k = rr_dist n c i" unfolding rr_dist_def e using assms(3) by simp
next
  have e: "i + (n - 1 - c) + Suc c = i + n" using assms by linarith
  assume "k = rr_dist n c i"
  then have "(k + Suc c) mod n = (i + (n - 1 - c) + Suc c) mod n" unfolding rr_dist_def by (metis mod_add_left_eq)
  then show "(c + Suc k) mod n = i" unfolding e using assms(2) by (simp add: add.commute)
qed

lemma pick_next_None: "pick_next view cur c = None \<longleftrightarrow> (\<forall>i. \<not> ready_at view cur i)"
  (is "?l \<longleftrightarrow> ?r")
proof -
  let ?n = "length view" and ?cand = "[i \<leftarrow> [0..<length view]. i \<noteq> cur \<and> fst (view ! i) = Runnable]"
  have cand: "set ?cand = {i. ready_at view cur i}" by (auto simp: ready_at_def)
  show ?thesis
  proof (cases ?cand)
    case Nil
    then have "\<And>i. \<not> ready_at view cur i" using cand by (metis empty_iff empty_set mem_Collect_eq)
    then show ?thesis using Nil by (simp add: pick_next_def)
  next
    case (Cons a as)
    let ?best = "fold min (map (\<lambda>i. snd (view ! i)) as) (snd (view ! a))"
    have "?best \<in> (\<lambda>i. snd (view ! i)) ` set ?cand" using fold_min[of "map (\<lambda>i. snd (view ! i)) as" "snd (view ! a)"] Cons by auto
    then obtain i where i: "ready_at view cur i" "snd (view ! i) = ?best" using cand by auto
    then have n: "i < ?n" by (simp add: ready_at_def)
    have "i \<in> set (map (\<lambda>off. (c + off) mod ?n) [1..<Suc ?n])"
    proof -
      have m: "c mod ?n < ?n" using n by (intro mod_less_divisor) linarith
      have d: "rr_dist ?n (c mod ?n) i < ?n" unfolding rr_dist_def using n by (intro mod_less_divisor) linarith
      have "(c mod ?n + Suc (rr_dist ?n (c mod ?n) i)) mod ?n = i"
        by (rule rr_slot[OF m n, THEN iffD2, OF _ refl]) (rule d)
      then have "(c + Suc (rr_dist ?n (c mod ?n) i)) mod ?n = i" by (metis mod_add_left_eq)
      moreover note d
      ultimately show ?thesis by (auto simp del: upt_Suc intro!: image_eqI[where x = "Suc (rr_dist ?n (c mod ?n) i)"])
    qed
    then have "pick_next view cur c \<noteq> None"
      using i Cons unfolding pick_next_def Let_def by (auto simp: find_None_iff ready_at_def simp del: upt_Suc)
    then show ?thesis using i(1) by blast
  qed
qed

lemma pick_next_Some:
  assumes "pick_next view cur c = Some i" and c: "c < length view"
  shows "ready_at view cur i" and "\<And>j. ready_at view cur j \<Longrightarrow> snd (view ! i) \<le> snd (view ! j)"
    and "\<And>j. ready_at view cur j \<Longrightarrow> snd (view ! j) = snd (view ! i) \<Longrightarrow> rr_dist (length view) c i \<le> rr_dist (length view) c j"
proof -
  let ?n = "length view" and ?cand = "[i \<leftarrow> [0..<length view]. i \<noteq> cur \<and> fst (view ! i) = Runnable]"
  have cand: "set ?cand = {i. ready_at view cur i}" by (auto simp: ready_at_def)
  obtain a as where as: "?cand = a # as" using assms(1) unfolding pick_next_def Let_def by (cases ?cand) auto
  let ?best = "fold min (map (\<lambda>i. snd (view ! i)) as) (snd (view ! a))"
  have best: "?best \<le> snd (view ! j)" if "ready_at view cur j" for j
    using fold_min[of "map (\<lambda>i. snd (view ! i)) as" "snd (view ! a)"] that cand as by auto
  let ?P = "\<lambda>i. i \<noteq> cur \<and> fst (view ! i) = Runnable \<and> snd (view ! i) = ?best"
  let ?xs = "map (\<lambda>off. (c + off) mod ?n) [1..<Suc ?n]"
  have "find ?P ?xs = Some i" using assms(1) as unfolding pick_next_def Let_def by (simp del: upt_Suc)
  then obtain k where k: "k < length ?xs" "?P (?xs ! k)" "i = ?xs ! k" "\<forall>j < k. \<not> ?P (?xs ! j)"
    unfolding find_Some_iff by auto
  have nth: "?xs ! j = (c + Suc j) mod ?n" if "j < ?n" for j using that by (simp del: upt_Suc)
  have n: "k < ?n" using k(1) by (simp del: upt_Suc)
  have i2: "i = (c + Suc k) mod ?n" using k(3) nth[OF n] by simp
  moreover have "(c + Suc k) mod ?n < ?n" using c by (intro mod_less_divisor) linarith
  ultimately have i: "i < ?n" "i = (c + Suc k) mod ?n" by simp_all
  show ready: "ready_at view cur i" using k(2,3) i(1) by (simp add: ready_at_def)
  have eq: "snd (view ! i) = ?best" using k(2,3) by simp
  show "snd (view ! i) \<le> snd (view ! j)" if "ready_at view cur j" for j using best[OF that] eq by simp
  show "rr_dist ?n c i \<le> rr_dist ?n c j" if "ready_at view cur j" "snd (view ! j) = snd (view ! i)" for j
  proof (rule ccontr)
    assume "\<not> rr_dist ?n c i \<le> rr_dist ?n c j"
    moreover have "rr_dist ?n c i = k" using rr_slot[OF c i(1) n] i(2) by simp
    ultimately have lt: "rr_dist ?n c j < k" by simp
    have j: "j < ?n" using that(1) by (simp add: ready_at_def)
    have "?xs ! rr_dist ?n c j = j" using nth[of "rr_dist ?n c j"] rr_slot[OF c j, of "rr_dist ?n c j"] lt n by simp
    then show False using k(4)[rule_format, OF lt] that eq by (simp add: ready_at_def)
  qed
qed

end
