(* ===== verification/Timer.thy ===== *)
theory Timer
  imports Mem_Addr
begin

section \<open>Timers (\<open>aarch64/src/timer.rs\<close>)\<close>

text \<open>
  The table of caller-owned timers, starting and cancelling them, the interrupt handler that fires the
  due ones, and the comparator register it arms.  Timers are addressed by a number; the counter and its
  frequency are arguments, read once by each operation.  A callback is a function of the whole state, so
  that it may start and cancel timers; \<open>None\<close> is a kernel stop.
\<close>

record timer =
  t_duration :: nat
  t_repeat :: bool
  t_deadline :: u64
  t_period :: u64
  t_active :: bool

definition MAX_TIMERS :: usize where "MAX_TIMERS = 8"

definition timer_new :: "nat \<Rightarrow> timer" where
  "timer_new nanos = \<lparr>t_duration = nanos, t_repeat = False, t_deadline = 0, t_period = 0, t_active = False\<rparr>"

definition timer_periodic :: "nat \<Rightarrow> timer" where
  "timer_periodic nanos = (timer_new nanos)\<lparr>t_repeat := True\<rparr>"

record timer_state =
  tmr :: "usize \<Rightarrow> timer"
  timers :: "usize option list"
  cval :: u64
  timer_on :: bool

fun flatten :: "'a option list \<Rightarrow> 'a list" where
  "flatten [] = []"
| "flatten (None # xs) = flatten xs"
| "flatten (Some x # xs) = x # flatten xs"

definition duration_to_ticks :: "u64 \<Rightarrow> nat \<Rightarrow> u64 option" where
  "duration_to_ticks freq nanos =
     do { assert_that (freq \<noteq> 0); Some (of_nat (nanos * unat freq div 1000000000)) }"

definition upd_timer :: "usize \<Rightarrow> (timer \<Rightarrow> timer) \<Rightarrow> 'z timer_state_scheme \<Rightarrow> 'z timer_state_scheme" where
  "upd_timer i f st = st\<lparr>tmr := (tmr st)(i := f (tmr st i))\<rparr>"

definition register_timer :: "usize \<Rightarrow> 'z timer_state_scheme \<Rightarrow> bool \<times> 'z timer_state_scheme" where
  "register_timer i st =
     (if Some i \<in> set (timers st) then (True, st)
      else
        (case position (\<lambda>slot. case slot of None \<Rightarrow> True | Some t \<Rightarrow> \<not> t_active (tmr st t)) (timers st) of
           Some k \<Rightarrow> (True, st\<lparr>timers := (timers st)[k := Some i]\<rparr>)
         | None \<Rightarrow> (False, st)))"

definition active_deadlines :: "'z timer_state_scheme \<Rightarrow> u64 list" where
  "active_deadlines st = map (\<lambda>t. t_deadline (tmr st t)) (filter (\<lambda>t. t_active (tmr st t)) (flatten (timers st)))"

definition arm_hardware :: "'z timer_state_scheme \<Rightarrow> 'z timer_state_scheme" where
  "arm_hardware st =
     (case active_deadlines st of
        [] \<Rightarrow> st\<lparr>timer_on := False\<rparr>
      | d # ds \<Rightarrow> st\<lparr>cval := fold min ds d, timer_on := True\<rparr>)"

definition timer_start :: "u64 \<Rightarrow> u64 \<Rightarrow> usize \<Rightarrow> 'z timer_state_scheme \<Rightarrow> (bool \<times> 'z timer_state_scheme) option" where
  "timer_start freq tm i st =
     do {
       n \<leftarrow> duration_to_ticks freq (t_duration (tmr st i));
       assert_that (\<not> t_repeat (tmr st i) \<or> 0 < n);
       d \<leftarrow> uadd tm n;
       let st1 = upd_timer i (\<lambda>t. t\<lparr>t_period := n, t_deadline := d, t_active := True\<rparr>) st;
       (case register_timer i st1 of
          (False, st2) \<Rightarrow> Some (False, upd_timer i (\<lambda>t. t\<lparr>t_active := False\<rparr>) st2)
        | (True, st2) \<Rightarrow> Some (True, arm_hardware st2))
     }"

definition timer_cancel :: "usize \<Rightarrow> 'z timer_state_scheme \<Rightarrow> 'z timer_state_scheme" where
  "timer_cancel i = upd_timer i (\<lambda>t. t\<lparr>t_active := False\<rparr>)"

text \<open>The next expiry of a periodic timer: the first one after now on its own grid.\<close>

definition next_deadline :: "u64 \<Rightarrow> u64 \<Rightarrow> u64 \<Rightarrow> u64 option" where
  "next_deadline deadline tm period =
     do {
       gap \<leftarrow> usub tm deadline;
       assert_that (period \<noteq> 0);
       k \<leftarrow> uadd (gap div period) 1;
       add \<leftarrow> (if unat k * unat period < 2 ^ 64 then Some (k * period) else None);
       uadd deadline add
     }"

type_synonym 'z callback = "usize \<Rightarrow> 'z timer_state_scheme \<Rightarrow> (bool \<times> 'z timer_state_scheme) option"

definition fire_timer :: "'z callback \<Rightarrow> u64 \<Rightarrow> usize \<Rightarrow> 'z timer_state_scheme \<Rightarrow> 'z timer_state_scheme option" where
  "fire_timer fire tm i st =
     (let t = tmr st i in
      if \<not> t_active t \<or> tm < t_deadline t then Some st
      else if \<not> t_repeat t then
        do { (keep, st1) \<leftarrow> fire i (upd_timer i (\<lambda>t. t\<lparr>t_active := False\<rparr>) st); Some st1 }
      else
        do {
          nxt \<leftarrow> next_deadline (t_deadline t) tm (t_period t);
          (keep, st1) \<leftarrow> fire i (upd_timer i (\<lambda>t. t\<lparr>t_deadline := nxt\<rparr>) st);
          Some (if keep then st1 else upd_timer i (\<lambda>t. t\<lparr>t_active := False\<rparr>) st1)
        })"

fun fire_due :: "'z callback \<Rightarrow> u64 \<Rightarrow> usize option list \<Rightarrow> 'z timer_state_scheme \<Rightarrow> 'z timer_state_scheme option" where
  "fire_due fire tm [] st = Some st"
| "fire_due fire tm (None # ts) st = fire_due fire tm ts st"
| "fire_due fire tm (Some i # ts) st = do { st1 \<leftarrow> fire_timer fire tm i st; fire_due fire tm ts st1 }"

definition timer_interrupt_handler :: "'z callback \<Rightarrow> u64 \<Rightarrow> 'z timer_state_scheme \<Rightarrow> 'z timer_state_scheme option" where
  "timer_interrupt_handler fire tm st = do { st1 \<leftarrow> fire_due fire tm (timers st) st; Some (arm_hardware st1) }"

lemma set_flatten [simp]: "x \<in> set (flatten xs) \<longleftrightarrow> Some x \<in> set xs"
  by (induction xs rule: flatten.induct) auto

subsection \<open>The next expiry\<close>

lemma next_deadline_spec:
  assumes "d \<le> tm" and "0 < p" and "unat tm + unat p < 2 ^ 64"
  obtains d' where "next_deadline d tm p = Some d'" and "unat d' = unat d + ((unat tm - unat d) div unat p + 1) * unat p"
    and "tm < d'" and "unat d' \<le> unat tm + unat p"
proof -
  let ?g = "unat tm - unat d" and ?p = "unat p"
  have p: "0 < ?p" using assms(2) by (simp add: word_less_nat_alt)
  have le: "unat d \<le> unat tm" using assms(1) by (simp add: word_le_nat_alt)
  have split: "?g div ?p * ?p + ?g mod ?p = ?g" "?g mod ?p < ?p" using p by simp_all
  have lo: "unat tm < unat d + (?g div ?p + 1) * ?p" and hi: "unat d + (?g div ?p + 1) * ?p \<le> unat tm + ?p"
    unfolding add_mult_distrib mult_1 using split le by linarith+
  have q: "?g div ?p + 1 < 2 ^ 64"
  proof -
    have "?g div ?p * 1 \<le> ?g div ?p * ?p" using p by (intro mult_le_mono2) simp
    then have "?g div ?p \<le> unat tm" using split(1) by linarith
    then show ?thesis using assms(3) p by linarith
  qed
  have k: "unat ((tm - d) div p + 1) = ?g div ?p + 1"
  proof -
    have "unat (tm - d) = ?g" using assms(1) by (simp add: unat_sub word_le_nat_alt)
    then have "unat ((tm - d) div p) = ?g div ?p" by (simp add: unat_div)
    then show ?thesis using q by (simp add: unat_word_ariths)
  qed
  have m: "unat (((tm - d) div p + 1) * p) = (?g div ?p + 1) * ?p"
    using hi assms(3) k by (subst unat_word_ariths) simp
  have gap: "usub tm d = Some (tm - d)" using assms(1) by (simp add: usub_def)
  have one: "uadd ((tm - d) div p) 1 = Some ((tm - d) div p + 1)"
  proof -
    have "unat ((tm - d) div p) = ?g div ?p" using assms(1) by (simp add: unat_div unat_sub word_le_nat_alt)
    then show ?thesis using q by (simp add: uadd_def)
  qed
  have s: "uadd d (((tm - d) div p + 1) * p) = Some (d + ((tm - d) div p + 1) * p)"
    using hi assms(3) m by (simp add: uadd_def)
  have v: "unat (d + ((tm - d) div p + 1) * p) = unat d + (?g div ?p + 1) * ?p"
    using hi assms(3) m by (subst unat_word_ariths) simp
  show thesis
  proof (rule that)
    show "next_deadline d tm p = Some (d + ((tm - d) div p + 1) * p)"
      using gap one s k hi assms(2,3) by (simp add: next_deadline_def)
    show "unat (d + ((tm - d) div p + 1) * p) = unat d + (?g div ?p + 1) * ?p" by (rule v)
    show "tm < d + ((tm - d) div p + 1) * p" using lo v by (simp add: word_less_nat_alt)
    show "unat (d + ((tm - d) div p + 1) * p) \<le> unat tm + ?p" using hi v by simp
  qed
qed

subsection \<open>Firing\<close>

text \<open>A state that logs the fires, for callbacks that only answer whether to keep a periodic timer.\<close>

record timer_log = timer_state + fired :: "usize list"

definition log_fire :: "(usize \<Rightarrow> bool) \<Rightarrow> usize \<Rightarrow> timer_log \<Rightarrow> (bool \<times> timer_log) option" where
  "log_fire keep i st = Some (keep i, st\<lparr>fired := fired st @ [i]\<rparr>)"

definition due :: "u64 \<Rightarrow> timer \<Rightarrow> bool" where
  "due tm t \<longleftrightarrow> t_active t \<and> t_deadline t \<le> tm"

definition expired :: "bool \<Rightarrow> u64 \<Rightarrow> timer \<Rightarrow> timer \<Rightarrow> bool" where
  "expired keep tm t t' \<longleftrightarrow>
     (if \<not> due tm t then t' = t
      else if \<not> t_repeat t then t' = t\<lparr>t_active := False\<rparr>
      else \<exists>d. t' = t\<lparr>t_deadline := d, t_active := keep\<rparr> \<and> tm < d \<and> unat d \<le> unat tm + unat (t_period t) \<and>
             (unat d - unat (t_deadline t)) mod unat (t_period t) = 0)"

definition can_rearm :: "u64 \<Rightarrow> timer \<Rightarrow> bool" where
  "can_rearm tm t \<longleftrightarrow> (t_repeat t \<longrightarrow> 0 < t_period t \<and> unat tm + unat (t_period t) < 2 ^ 64)"

lemma upd_timer_sel [simp]:
  "tmr (upd_timer i f st) = (tmr st)(i := f (tmr st i))" "timers (upd_timer i f st) = timers st"
  "cval (upd_timer i f st) = cval st" "timer_on (upd_timer i f st) = timer_on st"
  by (simp_all add: upd_timer_def)

lemma upd_timer_fired [simp]: "fired (upd_timer i f st) = fired st"
  by (simp add: upd_timer_def)

lemma fire_timer_spec:
  fixes st :: timer_log
  assumes "can_rearm tm (tmr st i)"
  shows "\<exists>t'. fire_timer (log_fire keep) tm i st =
      Some (st\<lparr>tmr := (tmr st)(i := t'), fired := fired st @ (if due tm (tmr st i) then [i] else [])\<rparr>) \<and>
    expired (keep i) tm (tmr st i) t'"
proof (cases "due tm (tmr st i)")
  case False
  then have "fire_timer (log_fire keep) tm i st = Some st" by (auto simp: fire_timer_def due_def Let_def)
  then show ?thesis using False by (intro exI[of _ "tmr st i"]) (simp add: expired_def)
next
  case True
  then have d: "t_active (tmr st i)" "t_deadline (tmr st i) \<le> tm" "\<not> tm < t_deadline (tmr st i)" by (auto simp: due_def)
  show ?thesis
  proof (cases "t_repeat (tmr st i)")
    case False
    then show ?thesis using True d
      by (intro exI[of _ "(tmr st i)\<lparr>t_active := False\<rparr>"]) (simp add: fire_timer_def log_fire_def upd_timer_def expired_def Let_def)
  next
    case r: True
    let ?t = "tmr st i"
    have p: "0 < t_period ?t" "unat tm + unat (t_period ?t) < 2 ^ 64" using assms r by (simp_all add: can_rearm_def)
    from next_deadline_spec[OF d(2) p] obtain d' where n: "next_deadline (t_deadline ?t) tm (t_period ?t) = Some d'"
      "unat d' = unat (t_deadline ?t) + ((unat tm - unat (t_deadline ?t)) div unat (t_period ?t) + 1) * unat (t_period ?t)"
      "tm < d'" "unat d' \<le> unat tm + unat (t_period ?t)" .
    have "(unat d' - unat (t_deadline ?t)) mod unat (t_period ?t) = 0" unfolding n(2) by simp
    then have "expired (keep i) tm ?t (?t\<lparr>t_deadline := d', t_active := keep i\<rparr>)" using True r n(3,4) by (auto simp: expired_def)
    moreover have "?t\<lparr>t_deadline := d', t_active := True\<rparr> = ?t\<lparr>t_deadline := d'\<rparr>" using d(1) by (cases ?t) simp
    moreover have "fire_timer (log_fire keep) tm i st =
        Some (st\<lparr>tmr := (tmr st)(i := ?t\<lparr>t_deadline := d', t_active := keep i\<rparr>), fired := fired st @ [i]\<rparr>)"
    proof (cases "keep i")
      case k: True
      have "fire_timer (log_fire keep) tm i st = Some (st\<lparr>tmr := (tmr st)(i := ?t\<lparr>t_deadline := d'\<rparr>), fired := fired st @ [i]\<rparr>)"
        using d r n(1) k by (simp add: fire_timer_def log_fire_def upd_timer_def Let_def)
      then show ?thesis using k calculation(2) by simp
    next
      case False
      then show ?thesis using d r n(1) by (simp add: fire_timer_def log_fire_def upd_timer_def Let_def)
    qed
    ultimately show ?thesis using True by auto
  qed
qed

lemma fire_due_spec:
  fixes st :: timer_log
  assumes "distinct (flatten ts)" and "\<And>i. Some i \<in> set ts \<Longrightarrow> can_rearm tm (tmr st i)"
  shows "\<exists>f. fire_due (log_fire keep) tm ts st =
      Some (st\<lparr>tmr := f, fired := fired st @ filter (\<lambda>i. due tm (tmr st i)) (flatten ts)\<rparr>) \<and>
    (\<forall>i. Some i \<in> set ts \<longrightarrow> expired (keep i) tm (tmr st i) (f i)) \<and> (\<forall>i. Some i \<notin> set ts \<longrightarrow> f i = tmr st i)"
  using assms
proof (induction ts arbitrary: st)
  case Nil
  show ?case by (intro exI[of _ "tmr st"]) simp
next
  case (Cons x ts)
  show ?case
  proof (cases x)
    case None
    then show ?thesis using Cons.IH[of st] Cons.prems by auto
  next
    case (Some i)
    have ni: "Some i \<notin> set ts" using Cons.prems(1) Some by simp
    from fire_timer_spec[OF Cons.prems(2)[of i], of keep] Some obtain t' where
      t: "fire_timer (log_fire keep) tm i st =
        Some (st\<lparr>tmr := (tmr st)(i := t'), fired := fired st @ (if due tm (tmr st i) then [i] else [])\<rparr>)"
        "expired (keep i) tm (tmr st i) t'" by auto
    let ?st = "st\<lparr>tmr := (tmr st)(i := t'), fired := fired st @ (if due tm (tmr st i) then [i] else [])\<rparr>"
    have ne: "j \<noteq> i" if "Some j \<in> set ts" for j using that ni by blast
    have "distinct (flatten ts)" using Cons.prems(1) Some by simp
    moreover have "can_rearm tm (tmr ?st j)" if "Some j \<in> set ts" for j using Cons.prems(2)[of j] that ne[OF that] by simp
    ultimately obtain f where f: "fire_due (log_fire keep) tm ts ?st =
      Some (?st\<lparr>tmr := f, fired := fired ?st @ filter (\<lambda>i. due tm (tmr ?st i)) (flatten ts)\<rparr>)"
      "\<forall>j. Some j \<in> set ts \<longrightarrow> expired (keep j) tm (tmr ?st j) (f j)" "\<forall>j. Some j \<notin> set ts \<longrightarrow> f j = tmr ?st j"
      using Cons.IH[of ?st] by blast
    have "filter (\<lambda>j. due tm (tmr ?st j)) (flatten ts) = filter (\<lambda>j. due tm (tmr st j)) (flatten ts)"
      by (rule filter_cong) (use ne in \<open>auto\<close>)
    then have run: "fire_due (log_fire keep) tm (x # ts) st =
      Some (st\<lparr>tmr := f, fired := fired st @ filter (\<lambda>i. due tm (tmr st i)) (flatten (x # ts))\<rparr>)"
      using t(1) f(1) Some by simp
    have "expired (keep j) tm (tmr st j) (f j)" if "Some j \<in> set (x # ts)" for j
    proof (cases "j = i")
      case True
      then show ?thesis using f(3) ni t(2) by simp
    next
      case False
      then show ?thesis using f(2) that Some by auto
    qed
    moreover have "f j = tmr st j" if "Some j \<notin> set (x # ts)" for j using f(3) that Some by auto
    ultimately show ?thesis using run by blast
  qed
qed

lemma expired_future: "expired keep tm t t' \<Longrightarrow> t_active t' \<Longrightarrow> tm < t_deadline t'"
  by (auto simp: expired_def due_def not_le split: if_splits)

lemma active_deadlines_iff:
  "d \<in> set (active_deadlines st) \<longleftrightarrow> (\<exists>i. Some i \<in> set (timers st) \<and> t_active (tmr st i) \<and> t_deadline (tmr st i) = d)"
  by (auto simp: active_deadlines_def)

subsection \<open>Properties\<close>


definition demo_timers :: timer_log where
  "demo_timers =
     \<lparr>tmr = (\<lambda>i. if i = 0 then (timer_periodic 10)\<lparr>t_period := 10, t_deadline := 20, t_active := True\<rparr>
              else (timer_new 5)\<lparr>t_deadline := 100, t_active := True\<rparr>),
      timers = [Some 0, None, Some 7, None, None, None, None, None], cval = 20, timer_on = True, fired = []\<rparr>"


end
