(* ===== verification/Sched.thy ===== *)
theory Sched
  imports Proc_Table Timer
begin

section \<open>The scheduler (\<open>aarch64/src/process.rs\<close>, \<open>port/src/irq.rs\<close>)\<close>

text \<open>
  The kernel state the scheduler works on and the operations that switch.  \<open>swtch\<close> suspends its caller, so
  an operation that switches takes the continuation of its caller as an argument, stores it as the
  context of the process it leaves, and reports that control has gone elsewhere: to the process
  TPIDR now names, or to the kernel context \<open>run_all\<close> saved.  One core is modelled; interrupts are masked
  while the kernel runs, so each operation is one step.
\<close>

subsection \<open>Interrupt depth\<close>

definition MAX_CPUS :: usize where "MAX_CPUS = 16"

definition enter_on :: "usize \<Rightarrow> u64 list \<Rightarrow> u64 list option" where
  "enter_on c d = do { n \<leftarrow> index_at d c; Some (d[c := n + 1]) }"

definition exit_on :: "usize \<Rightarrow> u64 list \<Rightarrow> u64 list option" where
  "exit_on c d = do { n \<leftarrow> index_at d c; Some (d[c := n - 1]) }"

definition in_interrupt_on :: "usize \<Rightarrow> u64 list \<Rightarrow> bool option" where
  "in_interrupt_on c d = do { n \<leftarrow> index_at d c; Some (0 < n) }"

subsection \<open>State\<close>

definition FRAME_SZ :: usize where "FRAME_SZ = 304"
definition FRAME_ELR :: usize where "FRAME_ELR = 256"
definition FRAME_SP :: usize where "FRAME_SP = 280"
definition FRAME_SPSR :: usize where "FRAME_SPSR = 288"
definition CONTEXT_SZ :: usize where "CONTEXT_SZ = 112"
definition KSTACK_SZ :: usize where "KSTACK_SZ = 16 * 4096"
definition KSTACK_CANARY :: u64 where "KSTACK_CANARY = 0x70726f635f6b7374"
definition TICK_PERIOD :: nat where "TICK_PERIOD = 100000000"
definition TICK_TIMER :: usize where "TICK_TIMER = 0"

record trap_frame =
  gpr :: "usize \<Rightarrow> u64"
  frame_pointer :: u64
  link_register :: u64
  esr_el1 :: u64
  elr_el1 :: u64
  far_el1 :: u64
  interrupt_type :: u64
  frame_sp :: u64
  frame_spsr :: u64

definition zero_frame :: trap_frame where
  "zero_frame = \<lparr>gpr = (\<lambda>_. 0), frame_pointer = 0, link_register = 0, esr_el1 = 0, elr_el1 = 0, far_el1 = 0,
     interrupt_type = 0, frame_sp = 0, frame_spsr = 0\<rparr>"

text \<open>
  The kstacks are their base words, where the canary is, and the trap frames at their tops.
  \<open>core\<close> is the index the \<open>core_id\<close> hook returns; \<open>count\<close> is CNTPCT and \<open>freq\<close> is CNTFRQ.
\<close>

record kstate = timer_state +
  ptab :: ptable
  cursor :: usize
  tpidr :: "usize option"
  starter :: bool
  core :: usize
  depths :: "u64 list"
  need_resched :: bool
  preemptions :: u64
  tick_started :: bool
  canaries :: "u64 list"
  frames :: "trap_frame list"
  count :: u64
  freq :: u64
  mem :: memory

definition enter_interrupt :: "'z kstate_scheme \<Rightarrow> 'z kstate_scheme option" where
  "enter_interrupt st = do { d \<leftarrow> enter_on (core st) (depths st); Some (st\<lparr>depths := d\<rparr>) }"

definition exit_interrupt :: "'z kstate_scheme \<Rightarrow> 'z kstate_scheme option" where
  "exit_interrupt st = do { d \<leftarrow> exit_on (core st) (depths st); Some (st\<lparr>depths := d\<rparr>) }"

text \<open>The slot TPIDR points into, when it holds a process.\<close>

definition current_id :: "'z kstate_scheme \<Rightarrow> usize option" where
  "current_id st =
     (case tpidr st of None \<Rightarrow> None | Some i \<Rightarrow> if slot_at (ptab st) i = None then None else Some i)"

definition current_process :: "'z kstate_scheme \<Rightarrow> process option" where
  "current_process st = (case tpidr st of None \<Rightarrow> None | Some i \<Rightarrow> slot_at (ptab st) i)"

definition current_aspace :: "'z kstate_scheme \<Rightarrow> aspace option" where
  "current_aspace st = map_option paspace (current_process st)"

definition save_context :: "usize \<Rightarrow> cont \<Rightarrow> 'z kstate_scheme \<Rightarrow> 'z kstate_scheme" where
  "save_context i k st = st\<lparr>ptab := with_slot i (\<lambda>p. p\<lparr>pcontext := k\<rparr>) (ptab st)\<rparr>"

subsection \<open>Switching\<close>

datatype switch = Stay | Switched | ToStarter

definition switch_out :: "pstate \<Rightarrow> cont \<Rightarrow> 'z kstate_scheme \<Rightarrow> (bool \<times> 'z kstate_scheme) option" where
  "switch_out demote_to k st =
     (case tpidr st of
        None \<Rightarrow> Some (False, st)
      | Some cur \<Rightarrow>
          do {
            p \<leftarrow> slot_at (ptab st) cur;
            w \<leftarrow> index_at (canaries st) (kstack p);
            assert_that (w = KSTACK_CANARY);
            let demoted = (pstate p = Running);
            let t1 = (if demoted then (ptab st)[cur := Some (p\<lparr>pstate := demote_to\<rparr>)] else ptab st);
            (case pick_next (map slot_view t1) cur (cursor st) of
               None \<Rightarrow>
                 Some (False, st\<lparr>ptab := if demoted \<and> demote_to = Runnable
                                         then t1[cur := Some (p\<lparr>pstate := Running\<rparr>)] else t1\<rparr>)
             | Some nid \<Rightarrow>
                 do {
                   q \<leftarrow> slot_at t1 nid;
                   let st1 = st\<lparr>ptab := t1[nid := Some (q\<lparr>pstate := Running\<rparr>)], cursor := nid\<rparr>;
                   w' \<leftarrow> index_at (canaries st1) (kstack q);
                   assert_that (w' = KSTACK_CANARY);
                   let st2 = st1\<lparr>tpidr := Some nid, mem := aspace_install (paspace q) (mem st1)\<rparr>;
                   st3 \<leftarrow> exit_interrupt st2;
                   Some (True, save_context cur k st3)
                 })
          })"

definition resched :: "cont \<Rightarrow> 'z kstate_scheme \<Rightarrow> (bool \<times> 'z kstate_scheme) option" where
  "resched k st = switch_out Runnable k st"

definition to_starter :: "'z kstate_scheme \<Rightarrow> 'z kstate_scheme option" where
  "to_starter st = do { st1 \<leftarrow> exit_interrupt (st\<lparr>tpidr := None\<rparr>); assert_that (starter st); Some st1 }"

definition block_current :: "cont \<Rightarrow> 'z kstate_scheme \<Rightarrow> (switch \<times> 'z kstate_scheme) option" where
  "block_current k st =
     do {
       (sw, st1) \<leftarrow> switch_out Blocked k st;
       if sw then Some (Switched, st1)
       else
         (case tpidr st1 of
            None \<Rightarrow> Some (Stay, st1)
          | Some cur \<Rightarrow> do { st2 \<leftarrow> to_starter st1; Some (ToStarter, save_context cur k st2) })
     }"

definition block_at :: "u64 \<Rightarrow> cont \<Rightarrow> 'z kstate_scheme \<Rightarrow> (switch \<times> 'z kstate_scheme) option" where
  "block_at dl k st =
     (case tpidr st of
        None \<Rightarrow> Some (Stay, st)
      | Some cur \<Rightarrow>
          do {
            i \<leftarrow> current_id st;
            block_current k (st\<lparr>ptab := with_slot i (\<lambda>p. p\<lparr>deadline := Some dl\<rparr>) (ptab st)\<rparr>)
          })"

definition irq_resched :: "'z kstate_scheme \<Rightarrow> (bool \<times> 'z kstate_scheme) option" where
  "irq_resched st =
     (if \<not> need_resched st then Some (False, st)
      else
        let st1 = st\<lparr>need_resched := False, ptab := check_deadlines (count st) (ptab st)\<rparr> in
        case tpidr st1 of None \<Rightarrow> Some (False, st1) | Some _ \<Rightarrow> resched Preempted st1)"

definition tick_fire :: "usize \<Rightarrow> 'z kstate_scheme \<Rightarrow> (bool \<times> 'z kstate_scheme) option" where
  "tick_fire i st = Some (True, st\<lparr>need_resched := True\<rparr>)"

text \<open>The end of a process: nobody returns to it, so the last one unwinds to \<open>run_all\<close>.\<close>

definition leave :: "'z kstate_scheme \<Rightarrow> (switch \<times> 'z kstate_scheme) option" where
  "leave st =
     do {
       (sw, st1) \<leftarrow> resched Exiting st;
       if sw then Some (Switched, st1) else do { st2 \<leftarrow> to_starter st1; Some (ToStarter, st2) }
     }"

definition run_all :: "'z kstate_scheme \<Rightarrow> 'z kstate_scheme option" where
  "run_all st =
     do {
       st1 \<leftarrow> (if tick_started st then Some st
              else do { (ok, s) \<leftarrow> timer_start (freq st) (count st) TICK_TIMER (st\<lparr>tick_started := True\<rparr>);
                        assert_that ok; Some s });
       i \<leftarrow> position (in_state Runnable) (ptab st1);
       p \<leftarrow> ptab st1 ! i;
       Some (st1\<lparr>ptab := (ptab st1)[i := Some (p\<lparr>pstate := Running\<rparr>)], tpidr := Some i,
                 mem := aspace_install (paspace p) (mem st1), starter := True\<rparr>)
     }"

subsection \<open>Installing a process\<close>

definition forkret_context :: "usize \<Rightarrow> u64 \<Rightarrow> u64 \<Rightarrow> 'z kstate_scheme \<Rightarrow> 'z kstate_scheme" where
  "forkret_context i elr usp st =
     st\<lparr>canaries := (canaries st)[i := KSTACK_CANARY],
        frames := (frames st)[i := zero_frame\<lparr>elr_el1 := elr, frame_sp := usp, frame_spsr := 0\<rparr>]\<rparr>"

definition try_install ::
  "aspace \<Rightarrow> u64 \<Rightarrow> usize \<Rightarrow> usize \<Rightarrow> u8 \<Rightarrow> (u8 list \<times> sym_table) option \<Rightarrow> 'z kstate_scheme
     \<Rightarrow> (usize option \<times> 'z kstate_scheme) option" where
  "try_install a elr usp hb pr sy st =
     (case position is_free (ptab st) of
        None \<Rightarrow> Some (None, st)
      | Some i \<Rightarrow>
          do {
            let st1 = forkret_context i elr (of_nat usp) st;
            assert_that (hb mod PAGE_SIZE_4K = 0 \<and> hb < unat KZERO);
            Some (Some i, st1\<lparr>ptab := (ptab st1)[i := Some (new_process a i hb pr sy)]\<rparr>)
          })"

definition install :: "aspace \<Rightarrow> u64 \<Rightarrow> usize \<Rightarrow> usize \<Rightarrow> (u8 list \<times> sym_table) option \<Rightarrow> 'z kstate_scheme
     \<Rightarrow> (usize \<times> 'z kstate_scheme) option" where
  "install a elr usp hb sy st =
     do { (r, st1) \<leftarrow> try_install a elr usp hb DEFAULT_PRIORITY sy st; i \<leftarrow> r; Some (i, st1) }"

definition sys_setprio :: "u64 \<Rightarrow> u64 \<Rightarrow> 'z kstate_scheme \<Rightarrow> u64 \<times> 'z kstate_scheme" where
  "sys_setprio target_id pr st =
     (if pr = 255 then (SETPRIO_BAD_PRIO, st)
      else if target_id = 0xffffffffffffffff \<and> tpidr st = None then (SETPRIO_BAD_ID, st)
      else
        let i = (if target_id = 0xffffffffffffffff
                 then (case current_id st of Some i \<Rightarrow> i | None \<Rightarrow> 0) else unat target_id) in
        if NPROCS \<le> i then (SETPRIO_BAD_ID, st)
        else
          (case slot_at (ptab st) i of
             Some p \<Rightarrow> (0, st\<lparr>ptab := (ptab st)[i := Some (p\<lparr>prio := prio_set_base (ucast pr) (prio p)\<rparr>)]\<rparr>)
           | None \<Rightarrow> (SETPRIO_BAD_ID, st)))"

end
