(* ===== verification/Proc_Heap.thy ===== *)
theory Proc_Heap
  imports Sched
begin

section \<open>The process heap (\<open>aarch64/src/process.rs\<close>)\<close>

text \<open>
  Growing, shrinking and single-page allocation of the current process's heap, and the system calls over
  them.  The mapping loop of \<open>heap_grow\<close> is a recursion on the distance to the new break.
\<close>

subsection \<open>Operations\<close>

text \<open>The loop from the high-water mark to the new break; \<open>Inl page\<close> is the page that could not be mapped.\<close>

function map_heap_pages :: "aspace \<Rightarrow> usize \<Rightarrow> usize \<Rightarrow> memory \<Rightarrow> ((usize + unit) \<times> memory) option" where
  "map_heap_pages a page new_brk m =
     (if page < new_brk then
        do {
          (r, m1) \<leftarrow> map_user_data_page a (of_nat page) m;
          (case r of
             Inl _ \<Rightarrow> Some (Inl page, m1)
           | Inr _ \<Rightarrow> do { page' \<leftarrow> checked_add page PAGE_SIZE_4K; map_heap_pages a page' new_brk m1 })
        }
      else Some (Inr (), m))"
  by pat_completeness auto
termination
  by (relation "measure (\<lambda>(a, page, new_brk, m). new_brk - page)")
     (auto simp: checked_add_def PAGE_SIZE_4K_def split: if_splits)

declare map_heap_pages.simps [simp del]

definition set_current :: "process \<Rightarrow> usize \<Rightarrow> memory \<Rightarrow> 'z kstate_scheme \<Rightarrow> 'z kstate_scheme" where
  "set_current p i m st = st\<lparr>ptab := (ptab st)[i := Some p], mem := m\<rparr>"

definition heap_grow :: "u64 \<Rightarrow> 'z kstate_scheme \<Rightarrow> (usize option \<times> 'z kstate_scheme) option" where
  "heap_grow cnt st =
     (case current_id st of
        None \<Rightarrow> Some (None, st)
      | Some i \<Rightarrow>
          do {
            p \<leftarrow> slot_at (ptab st) i;
            (case brk_grow (heap_brk p) (unat cnt) (unat KZERO) of
               None \<Rightarrow> Some (None, st)
             | Some new_brk \<Rightarrow>
                 do {
                   (r, m1) \<leftarrow> map_heap_pages (paspace p) (heap_hwm p) new_brk (mem st);
                   Some (case r of
                           Inl page \<Rightarrow> (None, set_current (p\<lparr>heap_hwm := page\<rparr>) i m1 st)
                         | Inr _ \<Rightarrow>
                             (Some (heap_brk p), set_current (p\<lparr>heap_brk := new_brk, heap_hwm := new_brk\<rparr>) i m1 st))
                 })
          })"

definition heap_alloc_page :: "'z kstate_scheme \<Rightarrow> ((usize \<times> u64) option \<times> 'z kstate_scheme) option" where
  "heap_alloc_page st =
     (case current_id st of
        None \<Rightarrow> Some (None, st)
      | Some i \<Rightarrow>
          do {
            p \<leftarrow> slot_at (ptab st) i;
            (case brk_grow (heap_brk p) PAGE_SIZE_4K (unat KZERO) of
               None \<Rightarrow> Some (None, st)
             | Some new_brk \<Rightarrow>
                 do {
                   (r, m1) \<leftarrow> map_user_data_page_pa (paspace p) (of_nat (heap_hwm p)) (mem st);
                   Some (case r of
                           Inl _ \<Rightarrow> (None, st\<lparr>mem := m1\<rparr>)
                         | Inr pa \<Rightarrow>
                             (Some (heap_brk p, pa), set_current (p\<lparr>heap_brk := new_brk, heap_hwm := new_brk\<rparr>) i m1 st))
                 })
          })"

definition heap_shrink :: "u64 \<Rightarrow> 'z kstate_scheme \<Rightarrow> 'z kstate_scheme" where
  "heap_shrink va st =
     (case current_id st of
        None \<Rightarrow> st
      | Some i \<Rightarrow>
          (case slot_at (ptab st) i of
             None \<Rightarrow> st
           | Some p \<Rightarrow>
               (case brk_shrink (heap_base p) (heap_brk p) (unat va) of
                  None \<Rightarrow> st
                | Some new_brk \<Rightarrow> st\<lparr>ptab := (ptab st)[i := Some (p\<lparr>heap_brk := new_brk\<rparr>)]\<rparr>)))"

definition sys_alloc :: "u64 \<Rightarrow> 'z kstate_scheme \<Rightarrow> (u64 \<times> 'z kstate_scheme) option" where
  "sys_alloc cnt st =
     do { (r, st1) \<leftarrow> heap_grow cnt st; Some (case r of Some va \<Rightarrow> (of_nat va, st1) | None \<Rightarrow> (1, st1)) }"

definition sys_free :: "u64 \<Rightarrow> 'z kstate_scheme \<Rightarrow> u64 \<times> 'z kstate_scheme" where
  "sys_free va st = (0, heap_shrink va st)"

definition sys_alloc_page :: "'z kstate_scheme \<Rightarrow> ((u64 \<times> u64) \<times> 'z kstate_scheme) option" where
  "sys_alloc_page st =
     do { (r, st1) \<leftarrow> heap_alloc_page st;
          Some (case r of Some (va, pa) \<Rightarrow> ((of_nat va, pa), st1) | None \<Rightarrow> ((1, 0), st1)) }"

end
