(* ===== verification/Kernel.thy ===== *)
theory Kernel
  imports Proc_Heap
begin

section \<open>Channels, routes and the system calls (\<open>aarch64/src/ipc.rs\<close>, \<open>registry.rs\<close>, \<open>process.rs\<close>)\<close>

text \<open>
  The kernel state with the channel table, the interrupt routes and the image registry, and the handlers
  of the system calls over it.  The kernel's scheduler is an instance of the interface the channels are
  written against.  A handler that can block returns where control went; the values of the registers it
  returns to the process are written to the trap frame on that process's kstack.
\<close>

subsection \<open>State\<close>

definition NCHANNELS :: usize where "NCHANNELS = 16"
definition NIRQS :: usize where "NIRQS = 16"
definition INTID_SPI_MIN :: u16 where "INTID_SPI_MIN = 32"
definition INTID_SPI_MAX :: u16 where "INTID_SPI_MAX = 1019"
definition NIMAGES :: usize where "NIMAGES = 8"

record irq_route =
  route_intid :: u16
  route_channel :: usize
  route_owner :: proc_id

record embedded_elf =
  elf_bytes :: "u8 list"
  elf_name :: "u8 list"

text \<open>
  \<open>gic_enabled\<close> is the set of interrupts the distributor delivers, \<open>gic_up\<close> that the driver is published,
  \<open>timer_intid\<close> the published number of the timer interrupt, \<open>console\<close> the bytes written to the debug UART
  when \<open>uart_up\<close>.
\<close>

record kernel = kstate +
  channels :: "channel list"
  nused :: usize
  irq_routes :: "irq_route option list"
  nirqueued :: usize
  gic_up :: bool
  gic_enabled :: "u16 set"
  timer_intid :: "u16 option"
  uart_up :: bool
  console :: "u8 list"
  registry :: "embedded_elf option list"
  nregistered :: usize

subsection \<open>The channel table\<close>

definition try_create :: "kernel \<Rightarrow> usize option \<times> kernel" where
  "try_create k = (if nused k < NCHANNELS then (Some (nused k), k\<lparr>nused := nused k + 1\<rparr>) else (None, k))"

definition create :: "kernel \<Rightarrow> (usize \<times> kernel) option" where
  "create k = (case try_create k of (Some h, k1) \<Rightarrow> Some (h, k1) | (None, _) \<Rightarrow> None)"

definition channel_of :: "usize \<Rightarrow> kernel \<Rightarrow> usize option" where
  "channel_of h k = (if NCHANNELS \<le> h \<or> nused k \<le> h then None else Some h)"

definition kern_sched :: "kernel ipc_scheduler" where
  "kern_sched =
     \<lparr>current = current_id,
      priority = (\<lambda>i k. case effective_priority i (ptab k) of Some l \<Rightarrow> l | None \<Rightarrow> 255),
      boost = (\<lambda>i to k. k\<lparr>ptab := boost_slot i to (ptab k)\<rparr>),
      unboost = (\<lambda>i k. k\<lparr>ptab := unboost_slot i (ptab k)\<rparr>),
      wake = (\<lambda>i k. k\<lparr>ptab := wake_slot i (ptab k)\<rparr>),
      now = count\<rparr>"

text \<open>One operation under the lock of channel \<open>h\<close>.\<close>

definition on_channel ::
  "usize \<Rightarrow> (channel_inner \<Rightarrow> kernel \<Rightarrow> ('r \<times> channel_inner \<times> kernel) option) \<Rightarrow> kernel \<Rightarrow> ('r \<times> kernel) option" where
  "on_channel h f k =
     do {
       ch \<leftarrow> index_at (channels k) h;
       (r, c, k1) \<leftarrow> f (inner ch) k;
       Some (r, k1\<lparr>channels := (channels k1)[h := ch\<lparr>inner := c\<rparr>]\<rparr>)
     }"

fun close_blocked :: "proc_id \<Rightarrow> usize list \<Rightarrow> kernel \<Rightarrow> kernel" where
  "close_blocked i [] k = k"
| "close_blocked i (h # hs) k =
     (let ch = channels k ! h in
      if is_blocked_on i (inner ch)
      then let (c, k1) = close kern_sched (inner ch) k
           in close_blocked i hs (k1\<lparr>channels := (channels k1)[h := ch\<lparr>inner := c\<rparr>]\<rparr>)
      else close_blocked i hs k)"

definition close_all_for :: "proc_id \<Rightarrow> kernel \<Rightarrow> kernel" where
  "close_all_for i k = close_blocked i [0..<min (nused k) NCHANNELS] k"

subsection \<open>Copies between the kernel and the process\<close>

text \<open>The buffer of the kernel has \<open>cap\<close> bytes; the result \<open>None\<close> inside is the refusal, outside a kernel fault.\<close>

definition read_user :: "usize \<Rightarrow> u64 \<Rightarrow> usize \<Rightarrow> kernel \<Rightarrow> u8 list option option" where
  "read_user cap src len k =
     (let n = min len cap in
      if n = 0 then Some (Some [])
      else do {
        ok \<leftarrow> user_range_ok (mem k) src n False;
        if ok then do { bs \<leftarrow> load_bytes (mem k) src n; Some (Some bs) } else Some None
      })"

definition write_user :: "u64 \<Rightarrow> u8 list \<Rightarrow> usize \<Rightarrow> kernel \<Rightarrow> (usize option \<times> kernel) option" where
  "write_user dst src len k =
     (let n = min len (length src) in
      if n = 0 then Some (Some 0, k)
      else do {
        ok \<leftarrow> user_range_ok (mem k) dst n True;
        if ok then do { m1 \<leftarrow> store_bytes dst (take n src) (mem k); Some (Some n, k\<lparr>mem := m1\<rparr>) }
        else Some (None, k)
      })"

subsection \<open>Result codes and return registers\<close>

definition OK :: u64 where "OK = 0"
definition ERR_BAD_HANDLE :: u64 where "ERR_BAD_HANDLE = 1"
definition ERR_CLOSED :: u64 where "ERR_CLOSED = 2"
definition ERR_FULL :: u64 where "ERR_FULL = 3"
definition ERR_EMPTY :: u64 where "ERR_EMPTY = 4"
definition ERR_BAD_TAG :: u64 where "ERR_BAD_TAG = 5"
definition ERR_BAD_INTID :: u64 where "ERR_BAD_INTID = 6"
definition ERR_ALREADY_CLAIMED :: u64 where "ERR_ALREADY_CLAIMED = 7"
definition ERR_NO_SLOT :: u64 where "ERR_NO_SLOT = 8"
definition ERR_BAD_KIND :: u64 where "ERR_BAD_KIND = 9"
definition ERR_BAD_VA :: u64 where "ERR_BAD_VA = 10"

fun err_code :: "ipc_err \<Rightarrow> u64" where
  "err_code Closed = ERR_CLOSED"
| "err_code Full = ERR_FULL"
| "err_code Empty = ERR_EMPTY"
| "err_code BadTag = ERR_BAD_TAG"

definition result_code :: "ipc_err + unit \<Rightarrow> u64" where
  "result_code r = (case r of Inl e \<Rightarrow> err_code e | Inr _ \<Rightarrow> OK)"

text \<open>The frame of the handler is on the kstack of the process on the CPU.\<close>

definition set_reg :: "usize \<Rightarrow> u64 \<Rightarrow> kernel \<Rightarrow> kernel" where
  "set_reg r v k =
     (case tpidr k of
        None \<Rightarrow> k
      | Some i \<Rightarrow>
          let f = frames k ! i in k\<lparr>frames := (frames k)[i := f\<lparr>gpr := (gpr f)(r := v)\<rparr>]\<rparr>)"

definition ret3 :: "u64 \<times> u64 \<times> u64 \<Rightarrow> kernel \<Rightarrow> kernel" where
  "ret3 r k = (case r of (a, b, c) \<Rightarrow> set_reg 4 c (set_reg 3 b (set_reg 0 a k)))"

subsection \<open>Messages\<close>

text \<open>
  One pass of a call and what follows it: the result to the process, or the switch away.  A suspended
  call resumes at the start of its next pass.  The pass needs a current process, so \<open>block_current\<close> and
  \<open>block_at\<close> do switch.
\<close>

definition send_on :: "usize \<Rightarrow> message \<Rightarrow> kernel \<Rightarrow> (switch \<times> kernel) option" where
  "send_on h msg k =
     do {
       (r, k1) \<leftarrow> on_channel h (send_pass kern_sched msg) k;
       (case r of
          Done x \<Rightarrow> Some (Stay, set_reg 0 (result_code x) k1)
        | Wait me \<Rightarrow> block_current (InSend h msg) k1
        | WaitAt me dl \<Rightarrow> block_at dl (InSend h msg) k1)
     }"

definition deliver :: "message \<Rightarrow> u64 \<Rightarrow> u64 \<Rightarrow> kernel \<Rightarrow> ((u64 \<times> u64 \<times> u64) \<times> kernel) option" where
  "deliver msg dst cap k =
     do {
       (w, k1) \<leftarrow> write_user dst (buf msg) (min (unat (msg_len msg)) (unat cap)) k;
       Some (case w of
               None \<Rightarrow> ((ERR_BAD_VA, 0, 0), k1)
             | Some n \<Rightarrow> ((ucast (opcode msg), of_nat n, ucast (tag msg)), k1))
     }"

definition receive_on :: "usize \<Rightarrow> u64 \<Rightarrow> u64 \<Rightarrow> kernel \<Rightarrow> (switch \<times> kernel) option" where
  "receive_on h dst cap k =
     do {
       (r, k1) \<leftarrow> on_channel h (receive_pass kern_sched) k;
       (case r of
          Done (Inl e) \<Rightarrow> Some (Stay, ret3 (err_code e, 0, 0) k1)
        | Done (Inr msg) \<Rightarrow> do { (x, k2) \<leftarrow> deliver msg dst cap k1; Some (Stay, ret3 x k2) }
        | Wait me \<Rightarrow> block_current (InReceive h dst cap) k1
        | WaitAt me dl \<Rightarrow> block_at dl (InReceive h dst cap) k1)
     }"

definition receive_at_on :: "usize \<Rightarrow> u64 \<Rightarrow> u64 \<Rightarrow> u64 \<Rightarrow> kernel \<Rightarrow> (switch \<times> kernel) option" where
  "receive_at_on h dst cap dl k =
     do {
       (r, k1) \<leftarrow> on_channel h (receive_at_pass kern_sched dl) k;
       (case r of
          Done (Inl e) \<Rightarrow> Some (Stay, ret3 (err_code e, 0, 0) k1)
        | Done (Inr msg) \<Rightarrow>
            if opcode msg = RECEIVE_TIMEOUT then Some (Stay, ret3 (ucast RECEIVE_TIMEOUT, 0, 0) k1)
            else do { (x, k2) \<leftarrow> deliver msg dst cap k1; Some (Stay, ret3 x k2) }
        | Wait me \<Rightarrow> block_current (InReceiveAt h dst cap dl) k1
        | WaitAt me d \<Rightarrow> block_at d (InReceiveAt h dst cap dl) k1)
     }"

definition sys_send :: "u64 \<Rightarrow> u64 \<Rightarrow> u64 \<Rightarrow> u64 \<Rightarrow> u64 \<Rightarrow> kernel \<Rightarrow> (switch \<times> kernel) option" where
  "sys_send handle src len op tg k =
     (case channel_of (unat handle) k of
        None \<Rightarrow> Some (Stay, set_reg 0 ERR_BAD_HANDLE k)
      | Some h \<Rightarrow>
          do {
            data \<leftarrow> read_user MSG_MAX src (min (unat len) MSG_MAX) k;
            (case data of
               None \<Rightarrow> Some (Stay, set_reg 0 ERR_BAD_VA k)
             | Some bs \<Rightarrow> send_on h (message_new (ucast op) (ucast tg) bs) k)
          })"

definition sys_receive :: "u64 \<Rightarrow> u64 \<Rightarrow> u64 \<Rightarrow> kernel \<Rightarrow> (switch \<times> kernel) option" where
  "sys_receive handle dst cap k =
     (case channel_of (unat handle) k of
        None \<Rightarrow> Some (Stay, ret3 (ERR_BAD_HANDLE, 0, 0) k)
      | Some h \<Rightarrow> receive_on h dst cap k)"

definition sys_receive_at :: "u64 \<Rightarrow> u64 \<Rightarrow> u64 \<Rightarrow> u64 \<Rightarrow> kernel \<Rightarrow> (switch \<times> kernel) option" where
  "sys_receive_at handle dst cap dl k =
     (case channel_of (unat handle) k of
        None \<Rightarrow> Some (Stay, ret3 (ERR_BAD_HANDLE, 0, 0) k)
      | Some h \<Rightarrow> receive_at_on h dst cap dl k)"

definition sys_reply :: "u64 \<Rightarrow> u64 \<Rightarrow> u64 \<Rightarrow> u64 \<Rightarrow> u64 \<Rightarrow> kernel \<Rightarrow> (switch \<times> kernel) option" where
  "sys_reply handle src len op tg k =
     (case channel_of (unat handle) k of
        None \<Rightarrow> Some (Stay, set_reg 0 ERR_BAD_HANDLE k)
      | Some h \<Rightarrow>
          do {
            data \<leftarrow> read_user MSG_MAX src (min (unat len) MSG_MAX) k;
            (case data of
               None \<Rightarrow> Some (Stay, set_reg 0 ERR_BAD_VA k)
             | Some bs \<Rightarrow>
                 let msg = message_new (ucast op) (ucast tg) bs in
                 if tag msg \<noteq> ucast tg then Some (Stay, set_reg 0 (err_code BadTag) k)
                 else send_on h msg k)
          })"

subsection \<open>Interrupt routes\<close>

definition claimed :: "u16 \<Rightarrow> kernel \<Rightarrow> irq_route option" where
  "claimed intid k = find (\<lambda>r. route_intid r = intid) (flatten (take (nirqueued k) (irq_routes k)))"

definition route :: "u16 \<Rightarrow> kernel \<Rightarrow> usize option" where
  "route intid k = (case claimed intid k of Some r \<Rightarrow> channel_of (route_channel r) k | None \<Rightarrow> None)"

definition enable_interrupt :: "u16 \<Rightarrow> kernel \<Rightarrow> kernel" where
  "enable_interrupt intid k = (if gic_up k then k\<lparr>gic_enabled := insert intid (gic_enabled k)\<rparr> else k)"

definition disable_interrupt :: "u16 \<Rightarrow> kernel \<Rightarrow> kernel" where
  "disable_interrupt intid k = (if gic_up k then k\<lparr>gic_enabled := gic_enabled k - {intid}\<rparr> else k)"

definition sys_irq_claim :: "u64 \<Rightarrow> u64 \<Rightarrow> kernel \<Rightarrow> u64 \<times> kernel" where
  "sys_irq_claim raw handle k =
     (let intid = (ucast raw :: u16) in
      if \<not> (raw \<le> 0xffff \<and> INTID_SPI_MIN \<le> intid \<and> intid \<le> INTID_SPI_MAX) then (ERR_BAD_INTID, k)
      else if channel_of (unat handle) k = None then (ERR_BAD_HANDLE, k)
      else if claimed intid k \<noteq> None then (ERR_ALREADY_CLAIMED, k)
      else if NIRQS \<le> nirqueued k then (ERR_NO_SLOT, k)
      else
        let slot = nirqueued k;
            owner = (case current_id k of Some i \<Rightarrow> i | None \<Rightarrow> 0);
            r = \<lparr>route_intid = intid, route_channel = unat handle, route_owner = owner\<rparr>
        in (OK, enable_interrupt intid (k\<lparr>irq_routes := (irq_routes k)[slot := Some r], nirqueued := slot + 1\<rparr>)))"

subsection \<open>The other calls\<close>

function map_mmio_pages :: "aspace \<Rightarrow> usize \<Rightarrow> usize \<Rightarrow> usize \<Rightarrow> usize \<Rightarrow> memory \<Rightarrow> (u64 \<times> memory) option" where
  "map_mmio_pages a pa va sz offset m =
     (if offset < sz then
        do {
          page_pa \<leftarrow> checked_add pa offset;
          page_va \<leftarrow> checked_add va offset;
          range \<leftarrow> phys_with_pa_len (of_nat page_pa) (of_nat PAGE_SIZE_4K);
          (r, m1) \<leftarrow> map_mmio a range (of_nat page_va) m;
          (case r of
             Inl _ \<Rightarrow> Some (1, m1)
           | Inr _ \<Rightarrow> do { offset' \<leftarrow> checked_add offset PAGE_SIZE_4K; map_mmio_pages a pa va sz offset' m1 })
        }
      else Some (0, m))"
  by pat_completeness auto
termination
  by (relation "measure (\<lambda>(a, pa, va, sz, offset, m). sz - offset)")
     (auto simp: checked_add_def PAGE_SIZE_4K_def split: if_splits)

declare map_mmio_pages.simps [simp del]

definition sys_map_mmio :: "u64 \<Rightarrow> u64 \<Rightarrow> u64 \<Rightarrow> kernel \<Rightarrow> (u64 \<times> kernel) option" where
  "sys_map_mmio pa va sz k =
     (if unat pa mod PAGE_SIZE_4K \<noteq> 0 then Some (1, k)
      else if sz = 0 then Some (1, k)
      else
        (case tpidr k of
           None \<Rightarrow> Some (1, k)
         | Some _ \<Rightarrow>
             do {
               a \<leftarrow> current_aspace k;
               (r, m1) \<leftarrow> map_mmio_pages a (unat pa) (unat va) (unat sz) 0 (mem k);
               Some (r, k\<lparr>mem := m1\<rparr>)
             }))"

definition sys_createchan :: "kernel \<Rightarrow> u64 \<times> kernel" where
  "sys_createchan k = (case try_create k of (Some h, k1) \<Rightarrow> (of_nat h, k1) | (None, k1) \<Rightarrow> (ERR_NO_SLOT, k1))"

definition sys_clock :: "u64 \<Rightarrow> kernel \<Rightarrow> u64" where
  "sys_clock kind k = (if kind \<noteq> 0 then ERR_BAD_KIND else count k)"

definition sys_print :: "u64 \<Rightarrow> u64 \<Rightarrow> kernel \<Rightarrow> (u64 \<times> kernel) option" where
  "sys_print va len k =
     (if len = 0 then Some (OK, k)
      else do {
        let n = min (unat len) 256;
        data \<leftarrow> read_user n va n k;
        Some (case data of
                None \<Rightarrow> (ERR_BAD_VA, k)
              | Some bs \<Rightarrow> (OK, if uart_up k then k\<lparr>console := console k @ bs\<rparr> else k))
      })"

definition sys_kill :: "u64 \<Rightarrow> kernel \<Rightarrow> u64 \<times> kernel" where
  "sys_kill pid k =
     (if NPROCS \<le> unat pid then (KILL_BAD_ID, k)
      else
        (case kill_slot (unat pid) (ptab k) of
           (True, t) \<Rightarrow> (0, close_all_for (unat pid) (k\<lparr>ptab := t\<rparr>))
         | (False, t) \<Rightarrow> (KILL_BAD_ID, k)))"

subsection \<open>The end of a process\<close>

text \<open>\<open>None\<close> covers the panics and, for a trap with no process on the CPU, the endless loop.\<close>

definition exit_current :: "u64 \<Rightarrow> kernel \<Rightarrow> (switch \<times> kernel) option" where
  "exit_current st k =
     do {
       assert_that (tpidr k \<noteq> None);
       i \<leftarrow> position (in_state Running) (ptab k);
       leave (close_all_for i (k\<lparr>ptab := with_slot i (mark_exited st) (ptab k)\<rparr>))
     }"

definition fault :: "kernel \<Rightarrow> (switch \<times> kernel) option" where
  "fault k =
     do {
       i \<leftarrow> current_id k;
       assert_that (in_state Running (slot_at (ptab k) i));
       leave (close_all_for i (k\<lparr>ptab := with_slot i (mark_exited FAULT_STATUS) (ptab k)\<rparr>))
     }"

subsection \<open>The image registry\<close>

definition register :: "embedded_elf list \<Rightarrow> kernel \<Rightarrow> kernel" where
  "register images k =
     (let n = min (length images) NIMAGES
      in k\<lparr>registry := map Some (take NIMAGES images) @ drop n (registry k), nregistered := n\<rparr>)"

definition lookup_image :: "usize \<Rightarrow> kernel \<Rightarrow> embedded_elf option" where
  "lookup_image i k =
     (if nregistered k \<le> i \<or> NIMAGES \<le> i then None else if i < length (registry k) then registry k ! i else None)"

subsection \<open>Starting a process\<close>

record handles =
  h_inbound :: u32
  h_outbound :: u32
  h_ns_inbound :: u32
  h_ns_outbound :: u32

datatype proc_image = Raw "u8 list" usize usize | Elf "u8 list" "handles option"

definition for_server :: "handles \<Rightarrow> handles" where
  "for_server ns = \<lparr>h_inbound = 0, h_outbound = 0, h_ns_inbound = h_inbound ns, h_ns_outbound = h_outbound ns\<rparr>"

definition le_bytes4 :: "u32 \<Rightarrow> u8 list" where
  "le_bytes4 w = map (\<lambda>i. ucast (drop_bit (8 * i) w)) [0..<4]"

definition le_bytes8 :: "u64 \<Rightarrow> u8 list" where
  "le_bytes8 w = map (\<lambda>i. ucast (drop_bit (8 * i) w)) [0..<8]"

text \<open>\<open>map_user_page\<close> with its error turned into a panic, as every caller does.\<close>

definition must_map :: "entry \<Rightarrow> usize \<Rightarrow> aspace \<Rightarrow> memory \<Rightarrow> (u64 \<times> memory) option" where
  "must_map e va a m =
     do { (r, m1) \<leftarrow> map_user_page a e (of_nat va) m;
          (case r of Inl _ \<Rightarrow> None | Inr kptr \<Rightarrow> Some (kptr, m1)) }"

definition spawn_raw :: "u8 list \<Rightarrow> usize \<Rightarrow> usize \<Rightarrow> kernel \<Rightarrow> (usize \<times> kernel) option" where
  "spawn_raw txt text_va stack_va k =
     do {
       (a, m1) \<leftarrow> aspace_new (mem k);
       (ktext, m2) \<leftarrow> must_map ro_user_text text_va a m1;
       assert_that (length txt \<le> PAGE_SIZE_4K);
       m3 \<leftarrow> store_bytes ktext txt m2;
       (_, m4) \<leftarrow> must_map rw_user_data stack_va a m3;
       (kh, m5) \<leftarrow> must_map rw_user_data HANDLES_VA a m4;
       m6 \<leftarrow> store_bytes kh (le_bytes8 1) m5;
       m7 \<leftarrow> store_bytes (kh + 8) (le_bytes8 0) m6;
       top \<leftarrow> checked_add stack_va PAGE_SIZE_4K;
       install a (of_nat text_va) (top - 16) top None (k\<lparr>mem := m7\<rparr>)
     }"

definition handles_header :: "handles \<Rightarrow> u8 list" where
  "handles_header h =
     (let n = (if h_ns_inbound h \<noteq> 0 \<or> h_ns_outbound h \<noteq> 0 then 4 else 2 :: nat)
      in take (n * 4 + 4)
           (le_bytes4 (of_nat n) @ le_bytes4 (h_inbound h) @ le_bytes4 (h_outbound h) @
            (if n = 4 then le_bytes4 (h_ns_inbound h) @ le_bytes4 (h_ns_outbound h) else replicate 8 0)))"

definition image_syms :: "u8 list \<Rightarrow> loaded_elf \<Rightarrow> (u8 list \<times> sym_table) option" where
  "image_syms bytes l = map_option (Pair bytes) (ld_symtab l)"

definition spawn_elf :: "u8 list \<Rightarrow> handles option \<Rightarrow> kernel \<Rightarrow> (usize \<times> kernel) option" where
  "spawn_elf bytes hs k =
     do {
       (l, m1) \<leftarrow> load_elf bytes (mem k);
       m2 \<leftarrow> (case hs of
               None \<Rightarrow> Some m1
             | Some h \<Rightarrow>
                 do { (kptr, m') \<leftarrow> must_map rw_user_data HANDLES_VA (ld_aspace l) m1;
                      store_bytes kptr (handles_header h) m' });
       install (ld_aspace l) (ld_entry l) (ld_user_sp l) (ld_heap_base l) (image_syms bytes l) (k\<lparr>mem := m2\<rparr>)
     }"

definition spawn :: "proc_image \<Rightarrow> kernel \<Rightarrow> (usize \<times> kernel) option" where
  "spawn img k = (case img of Raw txt tv sv \<Rightarrow> spawn_raw txt tv sv k | Elf bytes hs \<Rightarrow> spawn_elf bytes hs k)"

definition child_state :: "u64 \<Rightarrow> kernel \<Rightarrow> u8 list option option" where
  "child_state state_va k =
     (if state_va = 0 then Some (Some (replicate PAGE_SIZE_4K 0))
      else do {
        data \<leftarrow> read_user PAGE_SIZE_4K state_va PAGE_SIZE_4K k;
        Some (case data of
                None \<Rightarrow> None
              | Some bs \<Rightarrow> if SPAWN_MAX_HANDLES < from_le (take 4 bs) then None else Some bs)
      })"

definition sys_spawn :: "u64 \<Rightarrow> u64 \<Rightarrow> u64 \<Rightarrow> kernel \<Rightarrow> (u64 \<times> kernel) option" where
  "sys_spawn index state_va pr k =
     (case lookup_image (unat index) k of
        None \<Rightarrow> Some (SPAWN_BAD_INDEX, k)
      | Some img \<Rightarrow>
          if 254 < pr then Some (SPAWN_BAD_STATE, k)
          else do {
            st \<leftarrow> child_state state_va k;
            (case st of
               None \<Rightarrow> Some (SPAWN_BAD_STATE, k)
             | Some page \<Rightarrow>
                 do {
                   (l, m1) \<leftarrow> load_elf (elf_bytes img) (mem k);
                   (kptr, m2) \<leftarrow> must_map rw_user_data HANDLES_VA (ld_aspace l) m1;
                   m3 \<leftarrow> store_bytes kptr page m2;
                   (r, k1) \<leftarrow> try_install (ld_aspace l) (ld_entry l) (ld_user_sp l) (ld_heap_base l) (ucast pr)
                     (image_syms (elf_bytes img) l) (k\<lparr>mem := m3\<rparr>);
                   Some (case r of Some i \<Rightarrow> (of_nat i, k1) | None \<Rightarrow> (SPAWN_NO_SLOT, k1))
                 })
          })"

subsection \<open>Bringing up the system\<close>

text \<open>The four images and the child of the registry are built by other packages: arguments here.\<close>

record images =
  nameserver_elf :: "u8 list"
  mailbox_elf :: "u8 list"
  console_elf :: "u8 list"
  init_elf :: "u8 list"
  child_embedded :: embedded_elf
  display_elf :: "u8 list"

definition bringup :: "images \<Rightarrow> kernel \<Rightarrow> (handles \<times> kernel) option" where
  "bringup im k =
     do {
       let k0 = register [child_embedded im] k;
       (ns_in, k1) \<leftarrow> create k0;
       (ns_out, k2) \<leftarrow> create k1;
       let ns = \<lparr>h_inbound = of_nat ns_in, h_outbound = of_nat ns_out, h_ns_inbound = 0, h_ns_outbound = 0\<rparr>;
       (init_in, k3) \<leftarrow> create k2;
       (init_out, k4) \<leftarrow> create k3;
       let ih = \<lparr>h_inbound = of_nat init_in, h_outbound = of_nat init_out, h_ns_inbound = 0, h_ns_outbound = 0\<rparr>;
       (_, k5) \<leftarrow> spawn (Elf (nameserver_elf im) (Some ns)) k4;
       (_, k6) \<leftarrow> spawn (Elf (mailbox_elf im) (Some (for_server ns))) k5;
       (_, k7) \<leftarrow> spawn (Elf (console_elf im) (Some (for_server ns))) k6;
       (_, k8) \<leftarrow> spawn (Elf (init_elf im) (Some ih)) k7;
       Some (ns, k8)
     }"

definition spawn_display :: "images \<Rightarrow> handles \<Rightarrow> kernel \<Rightarrow> kernel option" where
  "spawn_display im ns k = do { (_, k1) \<leftarrow> spawn (Elf (display_elf im) (Some (for_server ns))) k; Some k1 }"

end
