(* ===== verification/Esr.thy ===== *)
theory Esr
  imports R9_Prelude
begin

section \<open>The exception syndrome (\<open>aarch64/src/reg/esr_el1.rs\<close>)\<close>

text \<open>
  The fields of \<open>ESR_EL1\<close> the trap handler reads, the exception classes, and the decoding of fault status
  codes.
\<close>

unbundle bit_operations_syntax

definition esr_iss :: "u64 \<Rightarrow> u32" where "esr_iss r = ucast (r AND mask 25)"
definition esr_ec :: "u64 \<Rightarrow> u8" where "esr_ec r = ucast (drop_bit 26 r AND mask 6)"

datatype exception_class =
    UnknownEc | WaitFor | FloatSimd | Ls64 | BranchTargetException | IllegalExecutionState | SvcAarch64 | MsrMrsSystem
  | Sve | Tstart | PointerAuthFailure | Sme | GranuleProtectionCheck | InstructionAbortLowerEl | InstructionAbortSameEl
  | PcAlignmentFault | DataAbortLowerEl | DataAbortSameEl | SpAlignmentFault | MemoryOperationException
  | TrappedFloatingPointException | SError | BreakpointLowerEl | BreakpointSameEl | SoftwareStepLowerEl
  | SoftwareStepSameEl | WatchpointLowerEl | WatchpointSameEl | Brk

definition ec_numbers :: "(u8 \<times> exception_class) list" where
  "ec_numbers =
     [(0, UnknownEc), (1, WaitFor), (7, FloatSimd), (10, Ls64), (13, BranchTargetException),
      (14, IllegalExecutionState), (21, SvcAarch64), (24, MsrMrsSystem), (25, Sve), (27, Tstart),
      (28, PointerAuthFailure), (29, Sme), (30, GranuleProtectionCheck), (32, InstructionAbortLowerEl),
      (33, InstructionAbortSameEl), (34, PcAlignmentFault), (36, DataAbortLowerEl), (37, DataAbortSameEl),
      (38, SpAlignmentFault), (39, MemoryOperationException), (44, TrappedFloatingPointException), (47, SError),
      (48, BreakpointLowerEl), (49, BreakpointSameEl), (50, SoftwareStepLowerEl), (51, SoftwareStepSameEl),
      (52, WatchpointLowerEl), (53, WatchpointSameEl), (60, Brk)]"

definition exception_class_enum :: "u64 \<Rightarrow> u8 + exception_class" where
  "exception_class_enum r = (case map_of ec_numbers (esr_ec r) of Some c \<Rightarrow> Inr c | None \<Rightarrow> Inl (esr_ec r))"

definition fault_status_str :: "u8 \<Rightarrow> string" where
  "fault_status_str fsc =
     (case map_of
        [(4, ''translation fault L0''), (5, ''translation fault L1''), (6, ''translation fault L2''),
         (7, ''translation fault L3''), (8, ''access flag fault L0''), (9, ''access flag fault L1''),
         (10, ''access flag fault L2''), (11, ''access flag fault L3''), (12, ''permission fault L0''),
         (13, ''permission fault L1''), (14, ''permission fault L2''), (15, ''permission fault L3''),
         (16, ''external abort''), (33, ''alignment fault'')] fsc
      of Some s \<Rightarrow> s | None \<Rightarrow> ''unknown'')"

definition esr_fault_status_str :: "u64 \<Rightarrow> string" where
  "esr_fault_status_str r = fault_status_str (ucast (esr_iss r AND 0x3f))"

end
