(* ===== verification/Trap.thy ===== *)
theory Trap
  imports Kernel Esr
begin

section \<open>Traps and the running system (\<open>aarch64/src/trap.rs\<close>)\<close>

text \<open>
  The dispatch of interrupts, system calls and faults, the return to a process or to a suspended handler,
  and the whole system as a step relation over traps, resumptions, \<open>run_all\<close> and the clock.
\<close>

subsection \<open>Exception vectors\<close>

datatype exception_type =
    SyncInvalidEL1t | IrqInvalidEL1t | FiqInvalidEL1t | ErrorInvalidEL1t
  | SyncInvalidEL1h | IrqInvalidEL1h | FiqInvalidEL1h | ErrorInvalidEL1h
  | SyncInvalidEL0_64 | IrqInvalidEL0_64 | FiqInvalidEL0_64 | ErrorInvalidEL0_64
  | SyncInvalidEL0_32 | IrqInvalidEL0_32 | FiqInvalidEL0_32 | ErrorInvalidEL0_32

definition is_irq :: "exception_type \<Rightarrow> bool" where
  "is_irq e \<longleftrightarrow> e = IrqInvalidEL1t \<or> e = IrqInvalidEL1h \<or> e = IrqInvalidEL0_64 \<or> e = IrqInvalidEL0_32"

definition exception_type_of :: "u64 \<Rightarrow> exception_type option" where
  "exception_type_of v =
     (let ts = [SyncInvalidEL1t, IrqInvalidEL1t, FiqInvalidEL1t, ErrorInvalidEL1t,
                SyncInvalidEL1h, IrqInvalidEL1h, FiqInvalidEL1h, ErrorInvalidEL1h,
                SyncInvalidEL0_64, IrqInvalidEL0_64, FiqInvalidEL0_64, ErrorInvalidEL0_64,
                SyncInvalidEL0_32, IrqInvalidEL0_32, FiqInvalidEL0_32, ErrorInvalidEL0_32]
      in if v < 16 then Some (ts ! unat v) else None)"

subsection \<open>Interrupts\<close>

definition INTID_SPECIAL_START :: u16 where "INTID_SPECIAL_START = 1020"

definition iar_int_id :: "u32 \<Rightarrow> u16" where
  "iar_int_id iar = ucast (iar AND mask 10)"

text \<open>\<open>iar\<close> is what the read of GICC_IAR returns.\<close>

definition try_ack_interrupt :: "u32 \<Rightarrow> kernel \<Rightarrow> u16 option" where
  "try_ack_interrupt iar k =
     (if \<not> gic_up k \<or> INTID_SPECIAL_START \<le> iar_int_id iar then None else Some (iar_int_id iar))"

definition irq_message :: "u16 \<Rightarrow> message" where
  "irq_message intid = \<lparr>opcode = intid, tag = 0, msg_len = 0, buf = replicate MSG_MAX 0\<rparr>"

definition irq_source :: "u16 \<Rightarrow> kernel \<Rightarrow> kernel option" where
  "irq_source intid k =
     do {
       t \<leftarrow> timer_intid k;
       if intid = t then timer_interrupt_handler tick_fire (count k) k
       else
         (case route intid k of
            Some h \<Rightarrow> do { (_, k1) \<leftarrow> on_channel h (try_send kern_sched (irq_message intid)) k; Some k1 }
          | None \<Rightarrow> Some (disable_interrupt intid k))
     }"

definition irq :: "u32 \<Rightarrow> kernel \<Rightarrow> (switch \<times> kernel) option" where
  "irq iar k =
     do {
       k1 \<leftarrow> (case try_ack_interrupt iar k of None \<Rightarrow> Some k | Some intid \<Rightarrow> irq_source intid k);
       (sw, k2) \<leftarrow> irq_resched k1;
       Some (if sw then Switched else Stay, k2)
     }"

subsection \<open>System calls\<close>

definition ret1 :: "u64 \<times> kernel \<Rightarrow> (switch \<times> kernel) option" where
  "ret1 r = Some (Stay, set_reg 0 (fst r) (snd r))"

definition ret2 :: "(u64 \<times> u64) \<times> kernel \<Rightarrow> (switch \<times> kernel) option" where
  "ret2 r = Some (Stay, set_reg 1 (snd (fst r)) (set_reg 0 (fst (fst r)) (snd r)))"

definition yield_current :: "kernel \<Rightarrow> (switch \<times> kernel) option" where
  "yield_current k = do { (sw, k1) \<leftarrow> resched Yielded k; Some (if sw then Switched else Stay, k1) }"

definition svc :: "trap_frame \<Rightarrow> kernel \<Rightarrow> (switch \<times> kernel) option" where
  "svc f k =
     (let x = gpr f; n = x 8 in
      if n = SYSYIELD then yield_current k
      else if n = SYCSEND then sys_send (x 0) (x 1) (x 2) (x 3) (x 4) k
      else if n = SYCRECEIVE then sys_receive (x 0) (x 1) (x 2) k
      else if n = SYCREPLY then sys_reply (x 0) (x 1) (x 2) (x 3) (x 4) k
      else if n = SYSIRQCLAIM then ret1 (sys_irq_claim (x 0) (x 1) k)
      else if n = SYSMAPMMIO then sys_map_mmio (x 0) (x 1) (x 2) k \<bind> ret1
      else if n = SYCCREATECHAN then ret1 (sys_createchan k)
      else if n = SYS_ALLOC then sys_alloc (x 0) k \<bind> ret1
      else if n = SYS_FREE then ret1 (sys_free (x 0) k)
      else if n = SYS_SPAWN then sys_spawn (x 0) (x 1) (x 2) k \<bind> ret1
      else if n = SYS_CLOCK then ret1 (sys_clock (x 0) k, k)
      else if n = SYS_RECEIVE_AT then sys_receive_at (x 0) (x 1) (x 2) (x 3) k
      else if n = SYS_ALLOC_PAGE then sys_alloc_page k \<bind> ret2
      else if n = SYS_WAIT then (let (r, t) = sys_wait (x 0) (ptab k) in ret2 (r, k\<lparr>ptab := t\<rparr>))
      else if n = SYS_KILL then ret1 (sys_kill (x 0) k)
      else if n = SYS_SETPRIO then ret1 (sys_setprio (x 0) (x 1) k)
      else if n = SYS_PRINT then sys_print (x 0) (x 1) k \<bind> ret1
      else if n = SYSEXIT then exit_current (x 0) k
      else exit_current n k)"

definition svc_returns :: "u64 \<Rightarrow> bool" where
  "svc_returns n \<longleftrightarrow>
     n \<in> {SYSYIELD, SYCSEND, SYCRECEIVE, SYCREPLY, SYSIRQCLAIM, SYSMAPMMIO, SYCCREATECHAN, SYS_ALLOC, SYS_FREE,
          SYS_SPAWN, SYS_CLOCK, SYS_RECEIVE_AT, SYS_ALLOC_PAGE, SYS_WAIT, SYS_KILL, SYS_SETPRIO, SYS_PRINT}"

subsection \<open>The handler\<close>

text \<open>An unknown vector, an unhandled exception and a panic all leave the kernel without a result.\<close>

definition trap :: "trap_frame \<Rightarrow> u32 \<Rightarrow> kernel \<Rightarrow> (switch \<times> kernel) option" where
  "trap f iar k =
     do {
       e \<leftarrow> exception_type_of (interrupt_type f);
       if is_irq e then irq iar k
       else
         (case exception_class_enum (esr_el1 f) of
            Inl _ \<Rightarrow> None
          | Inr c \<Rightarrow>
              if c = SvcAarch64 then svc f k
              else if (c = DataAbortLowerEl \<or> c = InstructionAbortLowerEl) \<and> e = SyncInvalidEL0_64 then fault k
              else None)
     }"

text \<open>
  What the CPU does between traps: the process of TPIDR in EL0, the context a switch has just loaded, or
  the kernel that called \<open>run_all\<close>.
\<close>

datatype cpu = User | Loaded | Starter

definition trap_exit :: "cpu \<Rightarrow> switch \<times> kernel \<Rightarrow> (cpu \<times> kernel) option" where
  "trap_exit c r =
     (case r of
        (Stay, k) \<Rightarrow> do { k1 \<leftarrow> exit_interrupt k; Some (c, k1) }
      | (Switched, k) \<Rightarrow> Some (Loaded, k)
      | (ToStarter, k) \<Rightarrow> Some (Starter, k))"

text \<open>A trap from EL0: the vector pushes the frame on the kstack of the process, then \<open>trap_unsafe\<close> runs.\<close>

definition trap_unsafe :: "trap_frame \<Rightarrow> u32 \<Rightarrow> kernel \<Rightarrow> (cpu \<times> kernel) option" where
  "trap_unsafe f iar k =
     do {
       i \<leftarrow> tpidr k;
       k1 \<leftarrow> enter_interrupt (k\<lparr>frames := (frames k)[i := f]\<rparr>);
       r \<leftarrow> trap f iar k1;
       trap_exit User r
     }"

text \<open>An interrupt of the kernel itself, with no process on the CPU.\<close>

definition kernel_irq :: "u32 \<Rightarrow> kernel \<Rightarrow> (cpu \<times> kernel) option" where
  "kernel_irq iar k = do { k1 \<leftarrow> enter_interrupt k; r \<leftarrow> irq iar k1; trap_exit Starter r }"

text \<open>The continuation of the suspended handler whose context the switch loaded.\<close>

definition continue_handler :: "cont \<Rightarrow> kernel \<Rightarrow> (switch \<times> kernel) option" where
  "continue_handler c k =
     (case c of
        ForkRet \<Rightarrow> Some (Stay, k)
      | Yielded \<Rightarrow> Some (Stay, k)
      | Preempted \<Rightarrow> Some (Stay, k\<lparr>preemptions := preemptions k + 1\<rparr>)
      | Exiting \<Rightarrow> None
      | InSend h msg \<Rightarrow> send_on h msg k
      | InReceive h dst cap \<Rightarrow> receive_on h dst cap k
      | InReceiveAt h dst cap dl \<Rightarrow> receive_at_on h dst cap dl k)"

definition resume :: "kernel \<Rightarrow> (cpu \<times> kernel) option" where
  "resume k =
     do {
       p \<leftarrow> current_process k;
       if pcontext p = ForkRet then Some (User, k)
       else do { k1 \<leftarrow> enter_interrupt k; r \<leftarrow> continue_handler (pcontext p) k1; trap_exit User r }
     }"

subsection \<open>The system\<close>

text \<open>What can happen next; a store of the process goes through its own translation.\<close>

definition user_store :: "u64 \<Rightarrow> u8 \<Rightarrow> kernel \<Rightarrow> kernel option" where
  "user_store va b k =
     do {
       assert_that (drop_bit 48 va = 0);
       (e, pa) \<leftarrow> translate (mem k) va;
       assert_that (access_permission e = AllRw);
       m \<leftarrow> store_byte va b (mem k);
       Some (k\<lparr>mem := m\<rparr>)
     }"

datatype event =
    TrapEv trap_frame u32
  | LoadEv
  | RunAll
  | IrqEv u32
  | StoreEv u64 u8
  | ClockEv u64
  | SpawnEv proc_image
  | CreateEv

inductive sys_step :: "event \<Rightarrow> cpu \<times> kernel \<Rightarrow> cpu \<times> kernel \<Rightarrow> bool" where
  user_trap: "interrupt_type f \<in> {8, 9} \<Longrightarrow> trap_unsafe f iar k = Some x \<Longrightarrow> sys_step (TrapEv f iar) (User, k) x"
| load: "resume k = Some x \<Longrightarrow> sys_step LoadEv (Loaded, k) x"
| run: "run_all k = Some k' \<Longrightarrow> sys_step RunAll (Starter, k) (Loaded, k')"
| idle_irq: "kernel_irq iar k = Some x \<Longrightarrow> sys_step (IrqEv iar) (Starter, k) x"
| store: "user_store va b k = Some k' \<Longrightarrow> sys_step (StoreEv va b) (User, k) (User, k')"
| clock: "count k \<le> t \<Longrightarrow> c \<noteq> Loaded \<Longrightarrow> sys_step (ClockEv t) (c, k) (c, k\<lparr>count := t\<rparr>)"
| start: "spawn img k = Some (i, k') \<Longrightarrow> sys_step (SpawnEv img) (Starter, k) (Starter, k')"
| make: "create k = Some (h, k') \<Longrightarrow> sys_step CreateEv (Starter, k) (Starter, k')"

inductive_cases sys_stepE: "sys_step e s t"

end
