(* ===== verification/Mem_Safe.thy ===== *)
theory Mem_Safe
  imports Load_Pages
begin

section \<open>What every memory operation keeps\<close>

text \<open>
  Whatever its arguments and whatever its result, an operation of the address-space layer that returns
  keeps the page-table invariant, the installed roots and the frames in use, and changes no translation
  of an address space other than the one it is given and the kernel's.  These are the facts the
  invariant of the whole kernel rests on; no hypothesis on free frames or on addresses is needed.
\<close>

text \<open>The ways a case distinction can give a value, as equations for the simplifier.\<close>

lemma case_sum_eq:
  "(case r of Inl e \<Rightarrow> f e | Inr v \<Rightarrow> g v) = y \<longleftrightarrow> (\<exists>e. r = Inl e \<and> f e = y) \<or> (\<exists>v. r = Inr v \<and> g v = y)"
  by (cases r) auto

lemma case_option_eq:
  "(case r of None \<Rightarrow> a | Some v \<Rightarrow> g v) = y \<longleftrightarrow> (r = None \<and> a = y) \<or> (\<exists>v. r = Some v \<and> g v = y)"
  by (cases r) auto

lemmas results = bind_eq_Some_conv case_sum_eq case_option_eq

definition keeps :: "phys_addr set \<Rightarrow> phys_addr set \<Rightarrow> memory \<Rightarrow> memory \<Rightarrow> bool" where
  "keeps R S m m' \<longleftrightarrow> vm_inv R m' \<and> ttbr0 m' = ttbr0 m \<and> ttbr1 m' = ttbr1 m \<and>
     (\<forall>t. frame_used m t \<longrightarrow> frame_used m' t) \<and>
     (\<forall>s \<in> R - S. \<forall>v. va_index v Level0 \<noteq> 511 \<longrightarrow> lookup m' s v = lookup m s v)"

lemma keepsD:
  assumes "keeps R S m m'"
  shows "vm_inv R m'" "ttbr0 m' = ttbr0 m" "ttbr1 m' = ttbr1 m" "frame_used m t \<Longrightarrow> frame_used m' t"
    "s \<in> R \<Longrightarrow> s \<notin> S \<Longrightarrow> va_index v Level0 \<noteq> 511 \<Longrightarrow> lookup m' s v = lookup m s v"
  using assms by (simp_all add: keeps_def)

lemma keeps_refl: "vm_inv R m \<Longrightarrow> keeps R S m m"
  by (simp add: keeps_def)

lemma keeps_trans [trans]: "keeps R S m m1 \<Longrightarrow> keeps R S m1 m2 \<Longrightarrow> keeps R S m m2"
  by (auto simp: keeps_def)

lemma keeps_mono: "keeps R S m m' \<Longrightarrow> S \<subseteq> T \<Longrightarrow> keeps R T m m'"
  unfolding keeps_def by blast

lemma keeps_ram: "vm_inv R m \<Longrightarrow> keeps R S m (m\<lparr>ram := f\<rparr>)"
  by (simp add: keeps_def)

lemma store_bytes_keeps: "vm_inv R m \<Longrightarrow> store_bytes va bs m = Some m' \<Longrightarrow> keeps R S m m'"
  using store_bytes_only_ram keeps_ram by metis

lemma only_maps_keeps:
  assumes "vm_inv R m'" and "only_maps R m m' V" and "fst ` V \<subseteq> S"
  shows "keeps R S m m'"
proof -
  note D = only_mapsD[OF assms(2)]
  have "lookup m' s v = lookup m s v" if "s \<in> R - S" "va_index v Level0 \<noteq> 511" for s v
    using that assms(3) by (intro D(1)) force+
  then show ?thesis using assms(1) D by (simp add: keeps_def)
qed

subsection \<open>Mapping\<close>

lemma map_to_recursive:
  assumes "va_index va Level0 = 511"
  shows "map_to e va Page4K ty r m = Some (Inl MappingRecursiveIndex, m)"
proof -
  have "(pt m)(t := (pt m t)(511 := pt m t 511)) = pt m" for t by simp
  then show ?thesis using assms
    by (cases ty) (simp_all add: map_to_def replace_recursive_entry_def dest_entry_def next_mut_def and_then_def
        RECURSIVE_SLOT_def write_recursive_entry_def write_entry_def root_page_table_def Let_def del: va_index.simps)
qed

lemma map_to_keeps:
  assumes "vm_inv R m" and "r \<in> R" and "valid e" and "map_to e va Page4K ty r m = Some (x, m')"
  shows "keeps R {r} m m'"
proof (cases "va_index va Level0 = 511")
  case True
  then show ?thesis using map_to_recursive[OF True, of e ty r m] assms(1,4) by (simp add: keeps_refl)
next
  case False
  from assms(1-3) False show ?thesis
  proof (cases rule: map_to_spec[where ty = ty])
    case (ok n)
    have "n = m'" using ok(1) assms(4) by simp
    then show ?thesis unfolding keeps_def using ok by simp
  next
    case (err y n)
    have "n = m'" using err(1) assms(4) by simp
    then show ?thesis unfolding keeps_def using err by simp
  qed
qed

lemma with_phys_addr_valid [simp]: "valid (with_phys_addr e pa) = valid e"
  by (simp add: with_phys_addr_def)

lemma map_pages_keeps:
  assumes "vm_inv R m" and "r \<in> R" and "valid e" and "map_pages pas s ev cv vm e Page4K ty r m = Some (x, m')"
  shows "keeps R {r} m m'"
  using assms(1,4)
proof (induction pas arbitrary: s ev cv m)
  case Nil
  then show ?case by (auto simp: keeps_refl split: option.splits)
next
  case (Cons pa pas)
  from Cons.prems(2) obtain s' c' e' where run:
    "and_then (map_to (with_phys_addr e pa) c' Page4K ty r m)
       (\<lambda>_ m'. map_pages pas (Some s') e' c' vm e Page4K ty r m') = Some (x, m')"
    by (auto simp: results)
  then obtain y m1 where m1: "map_to (with_phys_addr e pa) c' Page4K ty r m = Some (y, m1)"
    by (auto simp: and_then_def results)
  have k: "keeps R {r} m m1" by (rule map_to_keeps[OF Cons.prems(1) assms(2) _ m1]) (simp add: assms(3))
  show ?case
  proof (cases y)
    case (Inl _)
    then show ?thesis using run m1 k by (simp add: and_then_def)
  next
    case (Inr _)
    then have "map_pages pas (Some s') e' c' vm e Page4K ty r m1 = Some (x, m')" using run m1 by (simp add: and_then_def)
    from Cons.IH[OF keepsD(1)[OF k] this] show ?thesis by (rule keeps_trans[OF k])
  qed
qed

lemma map_phys_range_keeps:
  assumes "vm_inv R m" and "r \<in> R" and "valid e" and "map_phys_range rng vm e Page4K ty r m = Some (x, m')"
  shows "keeps R {r} m m'"
  using assms(4) map_pages_keeps[OF assms(1-3)] keeps_refl[OF assms(1)]
  by (auto simp: map_phys_range_def results split: if_splits)

lemma map_err_unable_Some:
  "map_err_unable y = Some (x, m') \<Longrightarrow> \<exists>x'. y = Some (x', m') \<and> (\<forall>v. x = Inr v \<longrightarrow> x' = Inr v)"
  by (auto simp: map_err_unable_def results)

lemma allocate_physpage_keeps:
  assumes "vm_inv R m" and "allocate_physpage m = Some (x, m')"
  shows "keeps R S m m'"
  using vm_invD(1)[OF assms(1)]
proof (cases rule: allocate_physpage_cases)
  case (page f n)
  have "n = m'" using page(1) assms(2) by simp
  moreover have "keeps R S m n"
    using allocated(1,2)[OF assms(1) page(2,3,7)] by (intro only_maps_keeps[where V = "{}"]) simp_all
  ultimately show ?thesis by simp
next
  case full
  then show ?thesis using assms by (simp add: keeps_refl)
qed

subsection \<open>The operations of an address space\<close>

lemma valid_leaves [simp]: "valid rw_user_data" "valid ro_user_text" "valid rw_kernel_data" "valid rw_user_mmio"
  by (simp_all add: rw_user_data_def ro_user_text_def rw_kernel_data_def rw_user_mmio_def)

lemma map_user_data_page_pa_keeps:
  assumes inv: "vm_inv R m" and a: "root_pa a \<in> R" and run: "map_user_data_page_pa a va m = Some (x, m')"
  shows "keeps R {root_pa a} m m'"
proof -
  obtain y m1 where m1: "allocate_physpage m = Some (y, m1)" using run by (auto simp: map_user_data_page_pa_def results)
  note k = allocate_physpage_keeps[OF inv m1, of "{root_pa a}"]
  show ?thesis
  proof (cases y)
    case (Inl _)
    then show ?thesis using run m1 k by (simp add: map_user_data_page_pa_def)
  next
    case (Inr pa)
    then obtain rng z where z: "map_phys_range rng (Addr va) rw_user_data Page4K User (root_pa a) m1 = Some (z, m')"
      using run m1 by (auto simp: map_user_data_page_pa_def results dest!: map_err_unable_Some)
    show ?thesis by (rule keeps_trans[OF k map_phys_range_keeps[OF keepsD(1)[OF k] a _ z]]) simp
  qed
qed

lemma map_user_data_page_keeps:
  "vm_inv R m \<Longrightarrow> root_pa a \<in> R \<Longrightarrow> map_user_data_page a va m = Some (x, m') \<Longrightarrow> keeps R {root_pa a} m m'"
  by (auto simp: map_user_data_page_def results intro: map_user_data_page_pa_keeps)

lemma map_mmio_keeps:
  assumes "vm_inv R m" and "root_pa a \<in> R" and "map_mmio a rng va m = Some (x, m')"
  shows "keeps R {root_pa a} m m'"
proof -
  from assms(3) obtain z where z: "map_phys_range rng (Addr va) rw_user_mmio Page4K User (root_pa a) m = Some (z, m')"
    by (auto simp: map_mmio_def results dest!: map_err_unable_Some)
  show ?thesis by (rule map_phys_range_keeps[OF assms(1,2) _ z]) simp
qed

lemma map_user_page_keeps:
  assumes inv: "vm_inv R m" and a: "root_pa a \<in> R" and e: "valid e" and run: "map_user_page a e va m = Some (x, m')"
  shows "keeps R {root_pa a, ttbr1 m} m m'"
proof -
  obtain y m1 where m1: "allocate_physpage m = Some (y, m1)" using run by (auto simp: map_user_page_def results)
  note k = allocate_physpage_keeps[OF inv m1, of "{root_pa a, ttbr1 m}"]
  show ?thesis
  proof (cases y)
    case (Inl _)
    then show ?thesis using run m1 k by (simp add: map_user_page_def)
  next
    case (Inr pa)
    then obtain rng z z' m2 where
      u: "map_err_unable (map_phys_range rng (Addr va) e Page4K User (root_pa a) m1) = Some (z', m2)" and
      rest: "(case z' of Inl err \<Rightarrow> Some (Inl err, m2)
        | Inr _ \<Rightarrow> do { (r2, m3) \<leftarrow> map_err_unable (map_phys_range rng (Offset KZERO) rw_kernel_data Page4K Kernel
                          (root_page_table m2 Kernel) m2);
                        (case r2 of Inl err \<Rightarrow> Some (Inl err, m3) | Inr _ \<Rightarrow> Some (Inr (pa + KZERO), m3)) }) = Some (x, m')"
      using run m1 by (auto simp: map_user_page_def results)
    from map_err_unable_Some[OF u] obtain z where z: "map_phys_range rng (Addr va) e Page4K User (root_pa a) m1 = Some (z, m2)"
      by blast
    have k2: "keeps R {root_pa a, ttbr1 m} m m2"
      by (rule keeps_trans[OF k keeps_mono[OF map_phys_range_keeps[OF keepsD(1)[OF k] a e z]]]) simp
    show ?thesis
    proof (cases z')
      case (Inl _)
      then show ?thesis using rest k2 by simp
    next
      case (Inr _)
      then obtain w where w: "map_phys_range rng (Offset KZERO) rw_kernel_data Page4K Kernel (root_page_table m2 Kernel) m2 = Some (w, m')"
        using rest by (auto simp: results dest!: map_err_unable_Some)
      have r: "root_page_table m2 Kernel = ttbr1 m" using keepsD(3)[OF k2] by (simp add: root_page_table_def)
      have "ttbr1 m \<in> R" using inv by (simp add: vm_inv_def)
      with w have "keeps R {ttbr1 m} m2 m'" unfolding r by (intro map_phys_range_keeps[OF keepsD(1)[OF k2]]) simp_all
      then have "keeps R {root_pa a, ttbr1 m} m2 m'" by (rule keeps_mono) blast
      then show ?thesis by (rule keeps_trans[OF k2])
    qed
  qed
qed

subsection \<open>New address spaces\<close>

text \<open>A fresh root joins the live ones; nothing else but the kernel's own translations changes.\<close>

definition makes :: "phys_addr set \<Rightarrow> phys_addr \<Rightarrow> memory \<Rightarrow> memory \<Rightarrow> bool" where
  "makes R r m m' \<longleftrightarrow> r \<notin> R \<and> vm_inv (insert r R) m' \<and> ttbr0 m' = ttbr0 m \<and> ttbr1 m' = ttbr1 m \<and>
     (\<forall>t. frame_used m t \<longrightarrow> frame_used m' t) \<and>
     (\<forall>s \<in> R - {ttbr1 m}. \<forall>v. va_index v Level0 \<noteq> 511 \<longrightarrow> lookup m' s v = lookup m s v)"

lemma makesD:
  assumes "makes R r m m'"
  shows "r \<notin> R" "vm_inv (insert r R) m'" "ttbr0 m' = ttbr0 m" "ttbr1 m' = ttbr1 m" "frame_used m t \<Longrightarrow> frame_used m' t"
    "s \<in> R \<Longrightarrow> s \<noteq> ttbr1 m \<Longrightarrow> va_index v Level0 \<noteq> 511 \<Longrightarrow> lookup m' s v = lookup m s v"
  using assms by (simp_all add: makes_def)

lemma makes_keeps: "makes R r m m1 \<Longrightarrow> keeps (insert r R) {r, ttbr1 m1} m1 m2 \<Longrightarrow> makes R r m m2"
  unfolding makes_def keeps_def by auto

lemma aspace_new_makes:
  assumes "vm_inv R m" and "aspace_new m = Some (a, m')"
  shows "makes R (root_pa a) m m'"
  using assms(1)
proof (cases rule: aspace_new_spec)
  case panic
  then show ?thesis using assms(2) by simp
next
  case (new b n)
  have "b = a" "n = m'" using new(1) assms(2) by simp_all
  moreover have "lookup n s v = lookup m s v" if "s \<in> R - {ttbr1 m}" "va_index v Level0 \<noteq> 511" for s v
    using that by (intro new(6)) auto
  ultimately show ?thesis unfolding makes_def using new(2,4,7,8,10) by simp
qed

definition grown :: "phys_addr set \<Rightarrow> aspace \<Rightarrow> memory \<Rightarrow> memory \<Rightarrow> bool" where
  "grown R a m m' \<longleftrightarrow> keeps R {root_pa a, ttbr1 m} m m'"

lemma grown_trans: "grown R a m m1 \<Longrightarrow> grown R a m1 m2 \<Longrightarrow> grown R a m m2"
  unfolding grown_def using keepsD(3) keeps_trans by metis

lemma load_page_grown:
  assumes inv: "vm_inv R m" and a: "root_pa a \<in> R" and run: "load_page a bytes s page m = Some m'"
  shows "grown R a m m'"
proof -
  let ?e = "if seg_exec s then ro_user_text else rw_user_data"
  obtain kptr m1 m2 where m1: "map_user_page a ?e (of_nat page) m = Some (Inr kptr, m1)"
    and m2: "store_bytes kptr (replicate PAGE_SIZE_4K 0) m1 = Some m2"
    and rest: "m' = m2 \<or> (\<exists>p bs. store_bytes p bs m2 = Some m')"
    using run unfolding load_page_def Let_def
    by (auto simp: results split: if_split_asm)
  have k1: "keeps R {root_pa a, ttbr1 m} m m1" by (rule map_user_page_keeps[OF inv a _ m1]) simp
  have k2: "keeps R {root_pa a, ttbr1 m} m m2" by (rule keeps_trans[OF k1 store_bytes_keeps[OF keepsD(1)[OF k1] m2]])
  from rest show ?thesis
  proof
    assume "\<exists>p bs. store_bytes p bs m2 = Some m'"
    then show ?thesis unfolding grown_def using keeps_trans[OF k2] store_bytes_keeps[OF keepsD(1)[OF k2]] by blast
  qed (use k2 in \<open>simp add: grown_def\<close>)
qed

lemma grown_inv: "grown R a m m' \<Longrightarrow> vm_inv R m'"
  by (simp add: grown_def keeps_def)

lemma grown_refl: "vm_inv R m \<Longrightarrow> grown R a m m"
  by (simp add: grown_def keeps_refl)

lemma load_pages_grown:
  "vm_inv R m \<Longrightarrow> root_pa a \<in> R \<Longrightarrow> load_pages a bytes s ps m = Some m' \<Longrightarrow> grown R a m m'"
proof (induction ps arbitrary: m)
  case (Cons p ps)
  from Cons.prems(3) obtain m1 where m1: "load_page a bytes s p m = Some m1" "load_pages a bytes s ps m1 = Some m'"
    by (auto simp: results)
  have g: "grown R a m m1" by (rule load_page_grown[OF Cons.prems(1,2) m1(1)])
  show ?case by (rule grown_trans[OF g Cons.IH[OF grown_inv[OF g] Cons.prems(2) m1(2)]])
qed (simp add: grown_refl)

lemma load_segments_grown:
  "vm_inv R m \<Longrightarrow> root_pa a \<in> R \<Longrightarrow> load_segments a bytes ss m = Some m' \<Longrightarrow> grown R a m m'"
proof (induction ss arbitrary: m)
  case (Cons s ss)
  from Cons.prems(3) obtain ps m1 where m1: "load_pages a bytes s ps m = Some m1" "load_segments a bytes ss m1 = Some m'"
    by (auto simp: load_segment_def results)
  have g: "grown R a m m1" by (rule load_pages_grown[OF Cons.prems(1,2) m1(1)])
  show ?case by (rule grown_trans[OF g Cons.IH[OF grown_inv[OF g] Cons.prems(2) m1(2)]])
qed (simp add: grown_refl)

lemma map_stack_grown:
  "vm_inv R m \<Longrightarrow> root_pa a \<in> R \<Longrightarrow> map_stack a base ks m = Some m' \<Longrightarrow> grown R a m m'"
proof (induction ks arbitrary: m)
  case (Cons p ks)
  from Cons.prems(3) obtain x m1 where m1: "map_user_page a rw_user_data (of_nat (base + p * PAGE_SIZE_4K)) m = Some (Inr x, m1)"
    "map_stack a base ks m1 = Some m'"
    by (auto simp: results)
  have g: "grown R a m m1" unfolding grown_def by (rule map_user_page_keeps[OF Cons.prems(1,2) _ m1(1)]) simp
  show ?case by (rule grown_trans[OF g Cons.IH[OF grown_inv[OF g] Cons.prems(2) m1(2)]])
qed (simp add: grown_refl)

lemma makes_grown: "makes R (root_pa a) m m1 \<Longrightarrow> grown (insert (root_pa a) R) a m1 m2 \<Longrightarrow> makes R (root_pa a) m m2"
  unfolding grown_def by (rule makes_keeps)

lemma load_elf_makes:
  assumes "vm_inv R m" and "load_elf bytes m = Some (l, m')"
  shows "makes R (root_pa (ld_aspace l)) m m'"
proof -
  obtain a m1 m2 segs base ks where a: "ld_aspace l = a" and m1: "aspace_new m = Some (a, m1)"
    and m2: "load_segments a bytes segs m1 = Some m2" and m3: "map_stack a base ks m2 = Some m'"
    using assms(2) unfolding load_elf_def Let_def by (auto simp: results split: if_split_asm)
  have k1: "makes R (root_pa a) m m1" by (rule aspace_new_makes[OF assms(1) m1])
  have g2: "grown (insert (root_pa a) R) a m1 m2" by (rule load_segments_grown[OF makesD(2)[OF k1] _ m2]) simp
  have g3: "grown (insert (root_pa a) R) a m2 m'" by (rule map_stack_grown[OF grown_inv[OF g2] _ m3]) simp
  show ?thesis unfolding a by (rule makes_grown[OF k1 grown_trans[OF g2 g3]])
qed

end
