(* ===== verification/Kernel_Inv.thy ===== *)
theory Kernel_Inv
  imports Trap Mem_Safe
begin

section \<open>The invariant of the kernel: tables and switches\<close>

text \<open>
  What holds of the process table, the channels, the routes and the page tables between any two steps,
  and that switching keeps it.  The set \<open>R\<close> is the set of root tables in use.
\<close>

subsection \<open>Changes of the process table\<close>

text \<open>
  The changes the calls make to slots in passing: a process may be woken, have its priority or heap
  changed, be killed while it is not running, or be reaped.  Its kstack, address space and saved context
  stay, and an exit status, once set, stays.
\<close>

text \<open>The watermarks of a heap: whole pages, in order, below the kernel half.\<close>

definition heap_ok :: "process \<Rightarrow> bool" where
  "heap_ok p \<longleftrightarrow> heap_base p \<le> heap_brk p \<and> heap_brk p \<le> heap_hwm p \<and> heap_hwm p \<le> unat KZERO \<and>
     heap_base p mod PAGE_SIZE_4K = 0 \<and> heap_brk p mod PAGE_SIZE_4K = 0 \<and> heap_hwm p mod PAGE_SIZE_4K = 0"

lemma heap_ok_upd [simp]:
  "heap_ok (p\<lparr>pstate := s\<rparr>) = heap_ok p" "heap_ok (p\<lparr>pcontext := c\<rparr>) = heap_ok p" "heap_ok (p\<lparr>deadline := d\<rparr>) = heap_ok p"
  "heap_ok (p\<lparr>prio := r\<rparr>) = heap_ok p" "heap_ok (p\<lparr>exit_status := x\<rparr>) = heap_ok p"
  by (simp_all add: heap_ok_def)

definition mild :: "process \<Rightarrow> process \<Rightarrow> bool" where
  "mild p q \<longleftrightarrow> kstack q = kstack p \<and> paspace q = paspace p \<and> pcontext q = pcontext p \<and>
     (pstate p = Exited \<longrightarrow> exit_status q = exit_status p) \<and> (heap_ok p \<longrightarrow> heap_ok q) \<and>
     (pstate q = pstate p \<or> pstate p = Blocked \<and> pstate q = Runnable \<or> pstate p \<noteq> Running \<and> pstate q = Exited)"

definition slot_mild :: "process option \<Rightarrow> process option \<Rightarrow> bool" where
  "slot_mild s t \<longleftrightarrow> (case s of None \<Rightarrow> t = None
     | Some p \<Rightarrow> (case t of None \<Rightarrow> pstate p \<noteq> Running | Some q \<Rightarrow> mild p q))"

definition mild_change :: "ptable \<Rightarrow> ptable \<Rightarrow> bool" where
  "mild_change t u \<longleftrightarrow> length u = length t \<and> (\<forall>i < length t. slot_mild (t ! i) (u ! i))"

lemma mild_refl [simp]: "mild p p" "slot_mild s s" "mild_change t t"
  by (auto simp: mild_def slot_mild_def mild_change_def split: option.split)

lemma mild_trans: "mild p q \<Longrightarrow> mild q r \<Longrightarrow> mild p r"
  by (auto simp: mild_def)

lemma slot_mild_trans: "slot_mild s t \<Longrightarrow> slot_mild t u \<Longrightarrow> slot_mild s u"
  by (auto simp: slot_mild_def mild_def split: option.splits)

lemma mild_change_trans: "mild_change t u \<Longrightarrow> mild_change u v \<Longrightarrow> mild_change t v"
  unfolding mild_change_def using slot_mild_trans by metis

lemma mild_change_upd: "slot_mild (t ! i) s \<Longrightarrow> mild_change t (t[i := s])"
  by (cases "i < length t") (auto simp: mild_change_def nth_list_update)

lemma mild_change_with_slot: "(\<And>p. mild p (f p)) \<Longrightarrow> mild_change t (with_slot i f t)"
  by (auto simp: with_slot_def slot_mild_def intro!: mild_change_upd split: option.split)

lemma mild_change_slot: "mild_change t u \<Longrightarrow> slot_mild (slot_at t i) (slot_at u i)"
  by (auto simp: mild_change_def slot_at_def)

lemma mild_changeD:
  assumes "mild_change t u" and "slot_at u i = Some q"
  obtains p where "slot_at t i = Some p" and "mild p q"
  using mild_change_slot[OF assms(1), of i] assms(2) that by (auto simp: slot_mild_def split: option.splits)

lemma mild_change_Running: "mild_change t u \<Longrightarrow> in_state Running (slot_at u i) \<longleftrightarrow> in_state Running (slot_at t i)"
  using mild_change_slot[of t u i] by (auto simp: slot_mild_def in_state_def mild_def split: option.splits)

lemma mild_ops:
  "mild_change t (wake_slot i t)" "mild_change t (boost_slot i l t)" "mild_change t (unboost_slot i t)"
  "mild_change t (check_deadlines tm t)"
  "mild_change t (with_slot i (\<lambda>p. p\<lparr>deadline := d\<rparr>) t)"
  by (auto simp: wake_slot_def boost_slot_def unboost_slot_def mild_def intro!: mild_change_with_slot)
     (auto simp: check_deadlines_def expire_def mild_change_def slot_mild_def mild_def split: option.split)

subsection \<open>The scheduler under the channels\<close>

text \<open>
  Whatever relation the scheduler's operations respect, the passes of the channels respect.  The kernel's
  scheduler respects \<open>only the table changes, and mildly\<close>.
\<close>

locale sched_relation =
  fixes S :: "'s ipc_scheduler" and P :: "'s \<Rightarrow> 's \<Rightarrow> bool"
  assumes P_refl: "P s s" and P_trans: "P s t \<Longrightarrow> P t u \<Longrightarrow> P s u"
    and P_boost: "P s (boost S i l s)" and P_unboost: "P s (unboost S i s)" and P_wake: "P s (wake S i s)"
begin

lemma P_wake_opt: "P s (wake_opt S w s)"
  by (auto simp: wake_opt_def P_refl P_wake split: option.split)

lemma P_inherit: "P s (inherit S i s)"
  by (auto simp: inherit_def P_refl P_boost split: option.split)

lemma P_send:
  assumes "chan_inv ch" and "current S s = Some me"
  shows "\<exists>r ch' s'. send_pass S msg ch s = Some (r, ch', s') \<and> chan_inv ch' \<and> P s s' \<and>
    (r = Done (Inl Closed) \<or> r = Done (Inr ()) \<or> r = Wait me)"
proof -
  have "P s (snd (snd (send_spec S me msg (chan_abs ch) s)))"
    using P_trans[OF P_inherit P_wake] by (auto simp: send_spec_def P_refl split: option.split)
  moreover have "fst (send_spec S me msg a s) \<in> {Done (Inl Closed), Done (Inr ()), Wait me}" for a
    by (auto simp: send_spec_def split: option.split)
  ultimately show ?thesis using send_pass_refines[OF assms, of msg] by (auto simp: refines_by_def)
qed

lemma P_receive:
  assumes "chan_inv ch" and "current S s = Some me"
  shows "\<exists>r ch' s'. recv_pass S dl ch s = Some (r, ch', s') \<and> chan_inv ch' \<and> P s s' \<and>
    ((\<exists>x. r = Done x) \<or> dl = None \<and> r = Wait me \<or> (\<exists>d. dl = Some d \<and> r = WaitAt me d))"
proof -
  have "P s (snd (snd (receive_spec S me dl (chan_abs ch) s)))"
    using P_wake_opt P_unboost by (auto simp: receive_spec_def P_refl split: list.split option.split)
  moreover have "(\<exists>x. fst (receive_spec S me dl a s) = Done x) \<or> dl = None \<and> fst (receive_spec S me dl a s) = Wait me \<or>
      (\<exists>d. dl = Some d \<and> fst (receive_spec S me dl a s) = WaitAt me d)" for a
    by (auto simp: receive_spec_def split: list.split option.split)
  ultimately show ?thesis using recv_pass_refines[OF assms, of dl] by (auto simp: refines_by_def)
qed

lemma P_try_send:
  assumes "chan_inv ch"
  shows "\<exists>r ch' s'. try_send S msg ch s = Some (r, ch', s') \<and> chan_inv ch' \<and> P s s'"
proof -
  have "P s (snd (snd (try_send_spec S msg (chan_abs ch) s)))"
    using P_wake by (auto simp: try_send_spec_def P_refl split: option.split)
  then show ?thesis using try_send_refines[OF assms, of S msg s] by (auto simp: refines_by_def)
qed

lemma P_close: "P s (snd (close S ch s))"
  using P_trans[OF P_wake_opt P_wake_opt] by (simp add: close_def)

end

definition table_only :: "kernel \<Rightarrow> kernel \<Rightarrow> bool" where
  "table_only k k' \<longleftrightarrow> k' = k\<lparr>ptab := ptab k'\<rparr> \<and> mild_change (ptab k) (ptab k') \<and>
     (\<forall>i. slot_at (ptab k') i = None \<longleftrightarrow> slot_at (ptab k) i = None)"

lemma with_slot_None [simp]: "slot_at (with_slot i f t) j = None \<longleftrightarrow> slot_at t j = None"
  by (auto simp: with_slot_def slot_at_def nth_list_update)

lemma table_only_trans: "table_only k l \<Longrightarrow> table_only l m \<Longrightarrow> table_only k m"
proof -
  assume a: "table_only k l" "table_only l m"
  have "m = l\<lparr>ptab := ptab m\<rparr>" "l = k\<lparr>ptab := ptab l\<rparr>" using a by (simp_all add: table_only_def)
  then have "m = k\<lparr>ptab := ptab m\<rparr>" by (metis kstate.update_convs(1) kernel.surjective)
  then show ?thesis using a unfolding table_only_def by (blast intro: mild_change_trans)
qed

interpretation kern: sched_relation kern_sched table_only
proof
  show "table_only k m" if "table_only k l" "table_only l m" for k l m using that by (rule table_only_trans)
qed (simp_all add: table_only_def kern_sched_def mild_ops, simp_all add: boost_slot_def unboost_slot_def wake_slot_def)

subsection \<open>The invariant\<close>

definition cont_ok :: "usize \<Rightarrow> cont \<Rightarrow> bool" where
  "cont_ok n c \<longleftrightarrow> (case c of Exiting \<Rightarrow> False | InSend h _ \<Rightarrow> h < n | InReceive h _ _ \<Rightarrow> h < n
     | InReceiveAt h _ _ _ \<Rightarrow> h < n | _ \<Rightarrow> True)"

lemma cont_ok_mono: "cont_ok n c \<Longrightarrow> n \<le> n' \<Longrightarrow> cont_ok n' c"
  by (auto simp: cont_ok_def split: cont.splits)

text \<open>A process has the kstack of its slot with an intact canary, an address space of its own, heap
  watermarks in order, and, when it may be switched to, a context to resume.\<close>

definition proc_ok :: "phys_addr set \<Rightarrow> phys_addr \<Rightarrow> u64 list \<Rightarrow> usize \<Rightarrow> usize \<Rightarrow> process \<Rightarrow> bool" where
  "proc_ok R tb cans n i p \<longleftrightarrow> kstack p = i \<and> cans ! i = KSTACK_CANARY \<and> root_pa (paspace p) \<in> R \<and>
     root_pa (paspace p) \<noteq> tb \<and> heap_ok p \<and> (pstate p = Runnable \<or> pstate p = Blocked \<longrightarrow> cont_ok n (pcontext p))"

definition procs_ok :: "phys_addr set \<Rightarrow> phys_addr \<Rightarrow> u64 list \<Rightarrow> usize \<Rightarrow> ptable \<Rightarrow> bool" where
  "procs_ok R tb cans n t \<longleftrightarrow> length t = NPROCS \<and>
     (\<forall>i p. slot_at t i = Some p \<longrightarrow> proc_ok R tb cans n i p) \<and>
     (\<forall>i j p q. slot_at t i = Some p \<and> slot_at t j = Some q \<and> root_pa (paspace p) = root_pa (paspace q) \<longrightarrow> i = j)"

definition chans_ok :: "kernel \<Rightarrow> bool" where
  "chans_ok k \<longleftrightarrow> length (channels k) = NCHANNELS \<and> nused k \<le> NCHANNELS \<and> (\<forall>c \<in> set (channels k). chan_inv (inner c))"

definition routes_ok :: "kernel \<Rightarrow> bool" where
  "routes_ok k \<longleftrightarrow> length (irq_routes k) = NIRQS \<and> nirqueued k \<le> NIRQS \<and>
     (\<forall>i < nirqueued k. \<exists>r. irq_routes k ! i = Some r \<and> route_channel r < nused k \<and>
        INTID_SPI_MIN \<le> route_intid r \<and> route_intid r \<le> INTID_SPI_MAX) \<and>
     (\<forall>i < nirqueued k. \<forall>j < nirqueued k.
        map_option route_intid (irq_routes k ! i) = map_option route_intid (irq_routes k ! j) \<longrightarrow> i = j)"

definition base_inv :: "phys_addr set \<Rightarrow> kernel \<Rightarrow> bool" where
  "base_inv R k \<longleftrightarrow> vm_inv R (mem k) \<and> procs_ok R (ttbr1 (mem k)) (canaries k) (nused k) (ptab k) \<and> chans_ok k \<and>
     routes_ok k \<and> core k < length (depths k) \<and> length (canaries k) = NPROCS \<and> length (frames k) = NPROCS \<and>
     cursor k < NPROCS"

definition depth :: "kernel \<Rightarrow> u64" where "depth k = depths k ! core k"

definition root_of :: "kernel \<Rightarrow> usize \<Rightarrow> phys_addr" where
  "root_of k i = root_pa (paspace (the (slot_at (ptab k) i)))"

definition on_cpu :: "kernel \<Rightarrow> usize \<Rightarrow> bool" where
  "on_cpu k i \<longleftrightarrow> tpidr k = Some i \<and> (\<forall>j. in_state Running (slot_at (ptab k) j) \<longleftrightarrow> j = i) \<and> ttbr0 (mem k) = root_of k i"

definition handling :: "phys_addr set \<Rightarrow> usize \<Rightarrow> kernel \<Rightarrow> bool" where
  "handling R i k \<longleftrightarrow> base_inv R k \<and> depth k = 1 \<and> on_cpu k i \<and> starter k"

fun kernel_inv :: "phys_addr set \<Rightarrow> cpu \<times> kernel \<Rightarrow> bool" where
  "kernel_inv R (User, k) \<longleftrightarrow> base_inv R k \<and> depth k = 0 \<and> starter k \<and> (\<exists>i. on_cpu k i)"
| "kernel_inv R (Loaded, k) \<longleftrightarrow> base_inv R k \<and> depth k = 0 \<and> starter k \<and>
     (\<exists>i p. on_cpu k i \<and> slot_at (ptab k) i = Some p \<and> cont_ok (nused k) (pcontext p))"
| "kernel_inv R (Starter, k) \<longleftrightarrow> base_inv R k \<and> depth k = 0 \<and> tpidr k = None \<and>
     (\<forall>j. \<not> in_state Running (slot_at (ptab k) j))"

text \<open>How memory evolves while process \<open>i\<close> with root \<open>r\<close> is served: roots are added and the translations of
  all other processes stay.\<close>

definition mem_step :: "phys_addr set \<Rightarrow> phys_addr \<Rightarrow> memory \<Rightarrow> phys_addr set \<Rightarrow> memory \<Rightarrow> bool" where
  "mem_step R r m R' m' \<longleftrightarrow> R \<subseteq> R' \<and> ttbr1 m' = ttbr1 m \<and>
     (\<forall>s \<in> R. s \<noteq> r \<and> s \<noteq> ttbr1 m \<longrightarrow> (\<forall>v. va_index v Level0 \<noteq> 511 \<longrightarrow> lookup m' s v = lookup m s v))"

lemma mem_step_refl [simp]: "mem_step R r m R m"
  by (simp add: mem_step_def)

lemma mem_step_trans: "mem_step R r m R1 m1 \<Longrightarrow> mem_step R1 r m1 R2 m2 \<Longrightarrow> mem_step R r m R2 m2"
  unfolding mem_step_def by (metis subsetD subset_trans)

lemma keeps_mem_step: "keeps R {r} m m' \<Longrightarrow> mem_step R r m R m'"
  by (auto simp: keeps_def mem_step_def)

lemma makes_mem_step: "makes R r' m m' \<Longrightarrow> mem_step R r m (insert r' R) m'"
  by (auto simp: makes_def mem_step_def)

lemma install_mem [simp]:
  "ttbr0 (aspace_install a m) = root_pa a" "ttbr1 (aspace_install a m) = ttbr1 m"
  "mem_step R r m R (aspace_install a m)"
proof -
  have "pt (aspace_install a m) = pt m" by (simp add: aspace_install_def switch_def)
  from pt_same(1)[OF this] show "mem_step R r m R (aspace_install a m)"
    by (simp add: mem_step_def aspace_install_def switch_def)
qed (simp_all add: aspace_install_def switch_def)

lemma install_inv:
  assumes "vm_inv R m" and "root_pa a \<in> R"
  shows "vm_inv R (aspace_install a m)"
proof -
  let ?m = "aspace_install a m"
  have p: "pt ?m = pt m" and fu: "frame_used ?m t = frame_used m t" and pg: "pages_inv ?m = pages_inv m" for t
    by (simp_all add: aspace_install_def switch_def frame_used_def pages_inv_def)
  have "tree_inv R ?m" by (rule tree_inv_cong[OF vm_invD(2)[OF assms(1)] tbl_pt[OF p]]) (simp add: fu)
  moreover have "hw_step ?m t i = hw_step m t i" for t i by (simp add: hw_step_def p)
  ultimately show ?thesis using assms by (simp add: vm_inv_def self_inv_def pg)
qed

subsection \<open>Slots\<close>

lemma slot_at_upd: "slot_at (t[i := s]) j = (if i = j \<and> i < length t then s else slot_at t j)"
  by (auto simp: slot_at_def)

lemma slot_at_lt: "slot_at t i = Some p \<Longrightarrow> i < length t"
  by (auto simp: slot_at_def split: if_splits)

lemma slot_at_with_slot: "slot_at (with_slot i f t) j = (if i = j then map_option f (slot_at t j) else slot_at t j)"
  by (auto simp: with_slot_def slot_at_def)

lemma length_with_slot [simp]: "length (with_slot i f t) = length t"
  by (simp add: with_slot_def)

lemma slot_nth: "slot_at t i = Some p \<Longrightarrow> t ! i = Some p"
  by (simp add: slot_at_def split: if_splits)

lemma procs_okD:
  assumes "procs_ok R tb cans n t" and "slot_at t i = Some p"
  shows "kstack p = i" "cans ! i = KSTACK_CANARY" "root_pa (paspace p) \<in> R" "root_pa (paspace p) \<noteq> tb"
    "pstate p = Runnable \<or> pstate p = Blocked \<Longrightarrow> cont_ok n (pcontext p)" "i < NPROCS" "heap_ok p"
proof -
  have "proc_ok R tb cans n i p" "length t = NPROCS" using assms by (simp_all add: procs_ok_def)
  then show "kstack p = i" "cans ! i = KSTACK_CANARY" "root_pa (paspace p) \<in> R" "root_pa (paspace p) \<noteq> tb"
    "pstate p = Runnable \<or> pstate p = Blocked \<Longrightarrow> cont_ok n (pcontext p)" "i < NPROCS" "heap_ok p"
    using slot_at_lt[OF assms(2)] unfolding proc_ok_def by simp_all
qed

lemma procs_ok_mild:
  assumes "procs_ok R tb cans n t" and "mild_change t u" and "n \<le> n'"
  shows "procs_ok R tb cans n' u"
  unfolding procs_ok_def
proof (intro conjI allI impI)
  show "length u = NPROCS" using assms(1,2) by (simp add: procs_ok_def mild_change_def)
  show "proc_ok R tb cans n' i q" if q: "slot_at u i = Some q" for i q
  proof -
    from mild_changeD[OF assms(2) q] obtain p where p: "slot_at t i = Some p" "mild p q" .
    note D = procs_okD[OF assms(1) p(1)]
    have "cont_ok n (pcontext q)" if "pstate q = Runnable \<or> pstate q = Blocked"
      using D(5) p(2) that by (auto simp: mild_def)
    then show ?thesis using D p(2) cont_ok_mono[OF _ assms(3)] by (auto simp: proc_ok_def mild_def)
  qed
  fix i j p q assume a: "slot_at u i = Some p \<and> slot_at u j = Some q \<and> root_pa (paspace p) = root_pa (paspace q)"
  from a mild_changeD[OF assms(2)] obtain p0 q0 where "slot_at t i = Some p0" "mild p0 p" "slot_at t j = Some q0" "mild q0 q"
    by metis
  then show "i = j" using a assms(1) by (auto simp: procs_ok_def mild_def)
qed

lemma procs_ok_upd:
  assumes ok: "procs_ok R tb cans n t" and p: "slot_at t i = Some p" and q: "kstack q = kstack p" "paspace q = paspace p"
    "heap_ok p \<Longrightarrow> heap_ok q"
    and c: "pstate q = Runnable \<or> pstate q = Blocked \<Longrightarrow> cont_ok n (pcontext q)"
  shows "procs_ok R tb cans n (t[i := Some q])"
  unfolding procs_ok_def
proof (intro conjI allI impI)
  note D = procs_okD[OF ok p]
  show "length (t[i := Some q]) = NPROCS" using ok by (simp add: procs_ok_def)
  show "proc_ok R tb cans n j x" if "slot_at (t[i := Some q]) j = Some x" for j x
    using that D q c ok slot_at_lt[OF p] by (auto simp: slot_at_upd proc_ok_def procs_ok_def split: if_splits)
  fix j l x y assume "slot_at (t[i := Some q]) j = Some x \<and> slot_at (t[i := Some q]) l = Some y \<and> root_pa (paspace x) = root_pa (paspace y)"
  then show "j = l" using ok p q(2) unfolding procs_ok_def by (auto simp: slot_at_upd split: if_splits)
qed

lemma base_invD:
  assumes "base_inv R k"
  shows "vm_inv R (mem k)" "procs_ok R (ttbr1 (mem k)) (canaries k) (nused k) (ptab k)" "chans_ok k" "routes_ok k"
    "core k < length (depths k)" "length (canaries k) = NPROCS" "length (frames k) = NPROCS" "cursor k < NPROCS"
    "length (ptab k) = NPROCS"
  using assms by (simp_all add: base_inv_def procs_ok_def)

lemma on_cpuD:
  assumes "on_cpu k i"
  obtains p where "tpidr k = Some i" and "slot_at (ptab k) i = Some p" and "pstate p = Running"
    and "\<And>j. in_state Running (slot_at (ptab k) j) \<longleftrightarrow> j = i" and "ttbr0 (mem k) = root_pa (paspace p)"
    and "current_id k = Some i" and "current_process k = Some p" and "root_of k i = root_pa (paspace p)"
proof -
  from assms have "in_state Running (slot_at (ptab k) i)" by (simp add: on_cpu_def)
  then obtain p where "slot_at (ptab k) i = Some p" "pstate p = Running" by (auto simp: in_state_def split: option.splits)
  then show thesis using assms by (intro that) (auto simp: on_cpu_def root_of_def current_id_def current_process_def)
qed

end
