(* ===== verification/Kernel_Switch.thy ===== *)
theory Kernel_Switch
  imports Kernel_Inv
begin

section \<open>Switching keeps the invariant\<close>

text \<open>
  The one place where processes are exchanged, \<open>switch_out\<close>, and everything built on it: yielding,
  preemption, blocking, the end of a process, and \<open>run_all\<close>.
\<close>

subsection \<open>Leaving the CPU\<close>

text \<open>A handler about to give up the CPU: its process is running, or has just been marked exited.\<close>

definition leaving :: "phys_addr set \<Rightarrow> usize \<Rightarrow> process \<Rightarrow> kernel \<Rightarrow> bool" where
  "leaving R i p k \<longleftrightarrow> base_inv R k \<and> depth k = 1 \<and> starter k \<and> tpidr k = Some i \<and> slot_at (ptab k) i = Some p \<and>
     (pstate p = Running \<or> pstate p = Exited) \<and> (\<forall>j. in_state Running (slot_at (ptab k) j) \<longrightarrow> j = i)"

definition demoted :: "pstate \<Rightarrow> process \<Rightarrow> process" where
  "demoted d p = (if pstate p = Running then p\<lparr>pstate := d\<rparr> else p)"

lemma slot_same: "slot_at t i = Some p \<Longrightarrow> t[i := Some p] = t"
  using slot_nth by (metis list_update_id)

lemma demoted_table:
  "slot_at t i = Some p \<Longrightarrow>
     (if pstate p = Running then t[i := Some (p\<lparr>pstate := d\<rparr>)] else t) = t[i := Some (demoted d p)]"
  by (simp add: demoted_def slot_same)

lemma demoted_sel [simp]:
  "kstack (demoted d p) = kstack p" "paspace (demoted d p) = paspace p" "pcontext (demoted d p) = pcontext p"
  "heap_ok (demoted d p) = heap_ok p"
  by (simp_all add: demoted_def)

lemma exit_interrupt_eq:
  assumes "core k < length (depths k)"
  shows "exit_interrupt k = Some (k\<lparr>depths := (depths k)[core k := depths k ! core k - 1]\<rparr>)"
  using assms by (simp add: exit_interrupt_def exit_on_def)

lemma enter_interrupt_eq:
  assumes "core k < length (depths k)"
  shows "enter_interrupt k = Some (k\<lparr>depths := (depths k)[core k := depths k ! core k + 1]\<rparr>)"
  using assms by (simp add: enter_interrupt_def enter_on_def)

text \<open>What \<open>switch_out\<close> does: the next process is the best one in the table with the caller demoted.\<close>

definition next_of :: "pstate \<Rightarrow> usize \<Rightarrow> process \<Rightarrow> kernel \<Rightarrow> usize option" where
  "next_of d i p k = pick_next (map slot_view ((ptab k)[i := Some (demoted d p)])) i (cursor k)"

definition switched :: "pstate \<Rightarrow> cont \<Rightarrow> usize \<Rightarrow> process \<Rightarrow> usize \<Rightarrow> process \<Rightarrow> kernel \<Rightarrow> kernel" where
  "switched d c i p n q k =
     k\<lparr>ptab := (ptab k)[n := Some (q\<lparr>pstate := Running\<rparr>), i := Some ((demoted d p)\<lparr>pcontext := c\<rparr>)], cursor := n,
       tpidr := Some n, mem := aspace_install (paspace q) (mem k), depths := (depths k)[core k := depth k - 1]\<rparr>"

lemma next_of_Some:
  assumes "leaving R i p k" and "next_of d i p k = Some n"
  obtains q where "slot_at (ptab k) n = Some q" and "pstate q = Runnable" and "n \<noteq> i"
    and "slot_at ((ptab k)[i := Some (demoted d p)]) n = Some q"
proof -
  let ?t = "(ptab k)[i := Some (demoted d p)]"
  have b: "base_inv R k" and p: "slot_at (ptab k) i = Some p" using assms(1) by (simp_all add: leaving_def)
  have c: "cursor k < length (map slot_view ?t)" using base_invD(8,9)[OF b] by simp
  from pick_next_Some(1)[OF assms(2)[unfolded next_of_def] c] have r: "ready_at (map slot_view ?t) i n" .
  then have n: "n \<noteq> i" "n < length (ptab k)" by (simp_all add: ready_at_def)
  then have "map slot_view ?t ! n = slot_view (ptab k ! n)" by simp
  then have "fst (slot_view (ptab k ! n)) = Runnable" using r unfolding ready_at_def by simp
  then obtain q where q: "ptab k ! n = Some q" "pstate q = Runnable" by (auto simp: slot_view_def split: option.splits)
  show thesis by (rule that[of q]) (use n q in \<open>simp_all add: slot_at_def\<close>)
qed

lemma list_update_swap2: "i \<noteq> n \<Longrightarrow> xs[i := a, n := b, i := c] = xs[n := b, i := c]"
  by (metis list_update_overwrite list_update_swap)

lemma switch_out_eq:
  assumes l: "leaving R i p k"
  shows "switch_out d c k =
    (case next_of d i p k of
       None \<Rightarrow> Some (False, if d = Runnable then k else k\<lparr>ptab := (ptab k)[i := Some (demoted d p)]\<rparr>)
     | Some n \<Rightarrow> Some (True, switched d c i p n (the (slot_at (ptab k) n)) k))"
proof -
  have b: "base_inv R k" and p: "slot_at (ptab k) i = Some p" and t: "tpidr k = Some i" using l by (simp_all add: leaving_def)
  note B = base_invD[OF b] and P = procs_okD[OF B(2) p]
  have il: "i < length (ptab k)" by (rule slot_at_lt[OF p])
  have ca: "index_at (canaries k) (kstack p) = Some KSTACK_CANARY" using P B(6) by simp
  show ?thesis
  proof (cases "next_of d i p k")
    case None
    have "(ptab k)[i := Some (p\<lparr>pstate := Running\<rparr>)] = ptab k" if "pstate p = Running"
    proof -
      have "p\<lparr>pstate := Running\<rparr> = p" using that by (cases p) simp
      then show ?thesis using slot_same[OF p] by simp
    qed
    moreover note slot_same[OF p]
    ultimately have "(if pstate p = Running \<and> d = Runnable then (ptab k)[i := Some (p\<lparr>pstate := Running\<rparr>)]
        else (ptab k)[i := Some (demoted d p)]) =
        (if d = Runnable then ptab k else (ptab k)[i := Some (demoted d p)])"
      by (auto simp: demoted_def)
    then show ?thesis using None t p ca il
      unfolding switch_out_def next_of_def by (auto simp: demoted_table[OF p] Let_def demoted_def split: if_splits)
  next
    case (Some n)
    from next_of_Some[OF l Some] obtain q where q: "slot_at (ptab k) n = Some q" "n \<noteq> i"
      "slot_at ((ptab k)[i := Some (demoted d p)]) n = Some q" by metis
    have cq: "index_at (canaries k) (kstack q) = Some KSTACK_CANARY" using procs_okD[OF B(2) q(1)] B(6) by simp
    have x: "exit_interrupt (k\<lparr>ptab := t', cursor := n, tpidr := Some n, mem := m'\<rparr>) =
        Some (k\<lparr>ptab := t', cursor := n, tpidr := Some n, mem := m', depths := (depths k)[core k := depth k - 1]\<rparr>)" for t' m'
      using exit_interrupt_eq[of "k\<lparr>ptab := t', cursor := n, tpidr := Some n, mem := m'\<rparr>"] B(5) by (simp add: depth_def)
    have w: "with_slot i (\<lambda>p. p\<lparr>pcontext := c\<rparr>) ((ptab k)[i := Some (demoted d p), n := Some (q\<lparr>pstate := Running\<rparr>)]) =
        (ptab k)[n := Some (q\<lparr>pstate := Running\<rparr>), i := Some ((demoted d p)\<lparr>pcontext := c\<rparr>)]"
      using il q(2) by (simp add: with_slot_def list_update_swap2)
    show ?thesis using Some t p ca q cq
      unfolding switch_out_def next_of_def
      by (simp add: demoted_table[OF p] Let_def x save_context_def switched_def w)
  qed
qed

lemmas tables_ok = chans_ok_def routes_ok_def

lemma Running_upd:
  "in_state Running (slot_at (t[i := Some p]) j) \<longleftrightarrow>
     (if j = i \<and> i < length t then pstate p = Running else in_state Running (slot_at t j))"
  by (auto simp: slot_at_upd in_state_def)

lemma depth_upd: "core k < length (depths k) \<Longrightarrow> depth (k\<lparr>depths := (depths k)[core k := d]\<rparr>) = d"
  by (simp add: depth_def)

lemma switched_inv:
  assumes l: "leaving R i p k" and n: "next_of d i p k = Some n" and d: "d = Runnable \<or> d = Blocked"
    and c: "pstate p = Running \<Longrightarrow> cont_ok (nused k) c"
  shows "kernel_inv R (Loaded, switched d c i p n (the (slot_at (ptab k) n)) k)"
    and "mem_step R r (mem k) R (mem (switched d c i p n (the (slot_at (ptab k) n)) k))"
proof -
  from l have b: "base_inv R k" and p: "slot_at (ptab k) i = Some p" and st: "starter k" "depth k = 1"
    and only: "\<And>j. in_state Running (slot_at (ptab k) j) \<Longrightarrow> j = i" and ps: "pstate p = Running \<or> pstate p = Exited"
    by (simp_all add: leaving_def)
  note B = base_invD[OF b]
  from next_of_Some[OF l n] obtain q where q: "slot_at (ptab k) n = Some q" "pstate q = Runnable" "n \<noteq> i" by metis
  note Q = procs_okD[OF B(2) q(1)]
  have il: "i < length (ptab k)" "n < length (ptab k)" using slot_at_lt[OF p] slot_at_lt[OF q(1)] .
  let ?q = "q\<lparr>pstate := Running\<rparr>" and ?p = "(demoted d p)\<lparr>pcontext := c\<rparr>"
  let ?t = "(ptab k)[n := Some ?q, i := Some ?p]" and ?k = "switched d c i p n q k"
  have sel: "ptab ?k = ?t" "cursor ?k = n" "tpidr ?k = Some n" "mem ?k = aspace_install (paspace q) (mem k)"
    "depths ?k = (depths k)[core k := 0]" "core ?k = core k" "canaries ?k = canaries k" "nused ?k = nused k"
    "frames ?k = frames k" "starter ?k = starter k" "channels ?k = channels k" "irq_routes ?k = irq_routes k"
    "nirqueued ?k = nirqueued k"
    by (simp_all add: switched_def st(2))
  have t1: "procs_ok R (ttbr1 (mem k)) (canaries k) (nused k) ((ptab k)[n := Some ?q])"
    by (rule procs_ok_upd[OF B(2) q(1)]) simp_all
  have p1: "slot_at ((ptab k)[n := Some ?q]) i = Some p" using p q(3) by (simp add: slot_at_upd)
  have co: "pstate ?p = Runnable \<or> pstate ?p = Blocked \<Longrightarrow> cont_ok (nused k) (pcontext ?p)"
    using ps c by (auto simp: demoted_def)
  have t2: "procs_ok R (ttbr1 (mem k)) (canaries k) (nused k) ?t"
    by (rule procs_ok_upd[OF t1 p1 _ _ _ co]) simp_all
  have pn: "pstate ?p \<noteq> Running" using ps d by (auto simp: demoted_def)
  have run: "in_state Running (slot_at ?t j) \<longleftrightarrow> j = n" for j
  proof -
    have "in_state Running (slot_at (ptab k) j) \<Longrightarrow> j = i" by (rule only)
    moreover have "\<not> in_state Running (slot_at ?t i)" using pn il by (simp add: Running_upd)
    moreover have "in_state Running (slot_at ?t n)" using q(3) il by (simp add: Running_upd)
    moreover have "in_state Running (slot_at ?t j) = in_state Running (slot_at (ptab k) j)" if "j \<noteq> i" "j \<noteq> n"
      using that by (simp add: Running_upd)
    ultimately show ?thesis by blast
  qed
  have sn: "slot_at ?t n = Some ?q" using q(3) il by (simp add: slot_at_upd)
  have b': "base_inv R ?k"
    unfolding base_inv_def tables_ok sel using t2 install_inv[OF B(1) Q(3)] B(3-7)[unfolded tables_ok] Q(6) by simp
  have cpu: "on_cpu ?k n" unfolding on_cpu_def sel root_of_def sn using run by simp
  have "cont_ok (nused k) (pcontext ?q)" using Q(5) q(2) by simp
  then have "kernel_inv R (Loaded, ?k)" using b' cpu sn st(1) B(5) by (auto simp: sel depth_def)
  moreover have "mem_step R r (mem k) R (mem ?k)" unfolding sel by simp
  ultimately show "kernel_inv R (Loaded, switched d c i p n (the (slot_at (ptab k) n)) k)"
    "mem_step R r (mem k) R (mem (switched d c i p n (the (slot_at (ptab k) n)) k))" using q(1) by simp_all
qed

subsection \<open>The result of a handler\<close>

definition handled :: "phys_addr set \<Rightarrow> usize \<Rightarrow> kernel \<Rightarrow> switch \<times> kernel \<Rightarrow> bool" where
  "handled R i k r \<longleftrightarrow> (\<exists>R'. mem_step R (root_of k i) (mem k) R' (mem (snd r)) \<and>
     (case fst r of Stay \<Rightarrow> handling R' i (snd r) | Switched \<Rightarrow> kernel_inv R' (Loaded, snd r)
      | ToStarter \<Rightarrow> kernel_inv R' (Starter, snd r)))"

text \<open>A part of a handler that stays in it.\<close>

definition during :: "phys_addr set \<Rightarrow> usize \<Rightarrow> kernel \<Rightarrow> phys_addr set \<Rightarrow> kernel \<Rightarrow> bool" where
  "during R i k R' k' \<longleftrightarrow> mem_step R (root_of k i) (mem k) R' (mem k') \<and> handling R' i k' \<and> root_of k' i = root_of k i"

lemma during_handled: "during R i k R1 k1 \<Longrightarrow> handled R1 i k1 r \<Longrightarrow> handled R i k r"
  unfolding during_def handled_def by (metis mem_step_trans)

lemma during_Stay: "during R i k R1 k1 \<Longrightarrow> handled R i k (Stay, k1)"
  by (auto simp: during_def handled_def)

lemma during_refl: "handling R i k \<Longrightarrow> during R i k R k"
  by (simp add: during_def)

lemma during_trans: "during R i k R1 k1 \<Longrightarrow> during R1 i k1 R2 k2 \<Longrightarrow> during R i k R2 k2"
  unfolding during_def by (metis mem_step_trans)

lemma during_handling: "during R i k R1 k1 \<Longrightarrow> handling R1 i k1"
  by (simp add: during_def)

lemma handling_leaving:
  assumes "handling R i k"
  obtains p where "leaving R i p k" and "pstate p = Running" and "slot_at (ptab k) i = Some p"
    and "tpidr k = Some i" and "current_id k = Some i"
proof -
  from assms have h: "base_inv R k" "depth k = 1" "on_cpu k i" "starter k" by (simp_all add: handling_def)
  from on_cpuD[OF h(3)] obtain p where p: "tpidr k = Some i" "slot_at (ptab k) i = Some p" "pstate p = Running"
    "\<And>j. in_state Running (slot_at (ptab k) j) \<longleftrightarrow> j = i" "current_id k = Some i" by metis
  show thesis by (rule that[OF _ p(3,2,1,5)]) (simp add: leaving_def h p)
qed

subsection \<open>Yielding, blocking and ending\<close>

lemma resched_handled:
  assumes h: "handling R i k" and c: "cont_ok (nused k) c" and run: "resched c k = Some (sw, k')"
  shows "handled R i k (if sw then Switched else Stay, k')" and "\<not> sw \<Longrightarrow> k' = k"
proof -
  from handling_leaving[OF h] obtain p where l: "leaving R i p k" "pstate p = Running" by metis
  have eq: "resched c k = switch_out Runnable c k" by (simp add: resched_def)
  have "handled R i k (if sw then Switched else Stay, k') \<and> (\<not> sw \<longrightarrow> k' = k)"
  proof (cases "next_of Runnable i p k")
    case None
    then have "sw = False" "k' = k" using run switch_out_eq[OF l(1), of Runnable c] unfolding eq by simp_all
    then show ?thesis using during_Stay[OF during_refl[OF h]] by simp
  next
    case (Some n)
    then have s: "sw = True" "k' = switched Runnable c i p n (the (slot_at (ptab k) n)) k"
      using run switch_out_eq[OF l(1), of Runnable c] unfolding eq by simp_all
    from switched_inv[OF l(1) Some _ c] show ?thesis unfolding s handled_def by auto
  qed
  then show "handled R i k (if sw then Switched else Stay, k')" "\<not> sw \<Longrightarrow> k' = k" by blast+
qed

lemma to_starter_eq:
  assumes "base_inv R k" and "starter k"
  shows "to_starter k = Some (k\<lparr>tpidr := None, depths := (depths k)[core k := depth k - 1]\<rparr>)"
  using assms exit_interrupt_eq[of "k\<lparr>tpidr := None\<rparr>"] by (simp add: to_starter_def base_inv_def depth_def)

lemma starter_inv:
  assumes b: "base_inv R k" and d: "depth k = 1" and t: "procs_ok R (ttbr1 (mem k)) (canaries k) (nused k) t"
    and r: "\<And>j. \<not> in_state Running (slot_at t j)"
  shows "kernel_inv R (Starter, k\<lparr>tpidr := None, depths := (depths k)[core k := depth k - 1], ptab := t\<rparr>)"
  using base_invD[OF b] t r d by (simp add: base_inv_def tables_ok depth_def)

lemma leave_handled:
  assumes l: "leaving R i p k" and e: "pstate p = Exited" and run: "leave k = Some r"
  shows "\<exists>R'. mem_step R x (mem k) R' (mem (snd r)) \<and>
    (fst r = Switched \<and> kernel_inv R' (Loaded, snd r) \<or> fst r = ToStarter \<and> kernel_inv R' (Starter, snd r))"
proof -
  have b: "base_inv R k" "starter k" "depth k = 1" and only: "\<And>j. in_state Running (slot_at (ptab k) j) \<Longrightarrow> j = i"
    and p: "slot_at (ptab k) i = Some p" using l by (simp_all add: leaving_def)
  note eq = switch_out_eq[OF l, of Runnable Exiting]
  show ?thesis
  proof (cases "next_of Runnable i p k")
    case None
    then have "r = (ToStarter, k\<lparr>tpidr := None, depths := (depths k)[core k := depth k - 1]\<rparr>)"
      using run eq to_starter_eq[OF b(1,2)] by (simp add: leave_def resched_def)
    moreover have "\<not> in_state Running (slot_at (ptab k) j)" for j using only p e by (auto simp: in_state_def)
    ultimately show ?thesis using starter_inv[OF b(1,3) base_invD(2)[OF b(1)]] by (intro exI[of _ R]) simp
  next
    case (Some n)
    then have "r = (Switched, switched Runnable Exiting i p n (the (slot_at (ptab k) n)) k)"
      using run eq by (simp add: leave_def resched_def)
    with switched_inv(1)[OF l Some, where c = Exiting] switched_inv(2)[OF l Some, where c = Exiting and r = x] e show ?thesis by (intro exI[of _ R]) simp
  qed
qed

lemma block_current_handled:
  assumes h: "handling R i k" and c: "cont_ok (nused k) c" and run: "block_current c k = Some r"
  shows "handled R i k r" and "fst r \<noteq> Stay"
proof -
  from handling_leaving[OF h] obtain p where l: "leaving R i p k" "pstate p = Running" "slot_at (ptab k) i = Some p"
    "tpidr k = Some i" by metis
  have b: "base_inv R k" "starter k" "depth k = 1" and only: "\<And>j. in_state Running (slot_at (ptab k) j) \<Longrightarrow> j = i"
    using l(1) by (simp_all add: leaving_def)
  note eq = switch_out_eq[OF l(1), of Blocked c]
  have "handled R i k r \<and> fst r \<noteq> Stay"
  proof (cases "next_of Blocked i p k")
    case None
    let ?p = "p\<lparr>pstate := Blocked\<rparr>" let ?k1 = "k\<lparr>ptab := (ptab k)[i := Some ?p]\<rparr>"
    let ?q = "?p\<lparr>pcontext := c\<rparr>"
    have il: "i < length (ptab k)" by (rule slot_at_lt[OF l(3)])
    have so: "switch_out Blocked c k = Some (False, ?k1)" using eq None l(2) by (simp add: demoted_def)
    have ts: "to_starter ?k1 = Some (?k1\<lparr>tpidr := None, depths := (depths k)[core k := depth k - 1]\<rparr>)"
      using exit_interrupt_eq[of "?k1\<lparr>tpidr := None\<rparr>"] b base_invD(5)[OF b(1)] by (simp add: to_starter_def depth_def)
    have w: "with_slot i (\<lambda>p. p\<lparr>pcontext := c\<rparr>) ((ptab k)[i := Some ?p]) = (ptab k)[i := Some ?q]"
      using il by (simp add: with_slot_def)
    have r: "r = (ToStarter, k\<lparr>tpidr := None, depths := (depths k)[core k := depth k - 1], ptab := (ptab k)[i := Some ?q]\<rparr>)"
      using run so ts l(4) by (simp add: block_current_def save_context_def w)
    have t: "procs_ok R (ttbr1 (mem k)) (canaries k) (nused k) ((ptab k)[i := Some ?q])"
      by (rule procs_ok_upd[OF base_invD(2)[OF b(1)] l(3)]) (simp_all add: c)
    have n: "\<not> in_state Running (slot_at ((ptab k)[i := Some ?q]) j)" for j
      using only[of j] il by (auto simp: Running_upd)
    show ?thesis unfolding r handled_def using starter_inv[OF b(1,3) t n] by (auto intro!: exI[of _ R])
  next
    case (Some n)
    then have r: "r = (Switched, switched Blocked c i p n (the (slot_at (ptab k) n)) k)"
      using run eq by (simp add: block_current_def)
    from switched_inv[OF l(1) Some _ c] show ?thesis unfolding r handled_def by auto
  qed
  then show "handled R i k r" "fst r \<noteq> Stay" by blast+
qed

end
