(* ===== verification/Kernel_Calls.thy ===== *)
theory Kernel_Calls
  imports Kernel_Switch
begin

section \<open>Every call keeps the invariant\<close>

text \<open>
  A change that leaves the CPU state alone and touches the tables only mildly is calm.  Most calls make
  calm changes; the others block, end the process or start one.
\<close>

subsection \<open>Calm changes\<close>

definition same_cpu :: "kernel \<Rightarrow> kernel \<Rightarrow> bool" where
  "same_cpu k k' \<longleftrightarrow> core k' = core k \<and> depths k' = depths k \<and> tpidr k' = tpidr k \<and> starter k' = starter k \<and>
     canaries k' = canaries k \<and> cursor k' = cursor k \<and> length (frames k') = length (frames k)"

definition calm :: "phys_addr set \<Rightarrow> phys_addr set \<Rightarrow> kernel \<Rightarrow> kernel \<Rightarrow> bool" where
  "calm R S k k' \<longleftrightarrow> keeps R S (mem k) (mem k') \<and> mild_change (ptab k) (ptab k') \<and> nused k \<le> nused k' \<and>
     chans_ok k' \<and> routes_ok k' \<and> same_cpu k k'"

lemma calm_refl: "base_inv R k \<Longrightarrow> calm R S k k"
  by (simp add: calm_def same_cpu_def base_inv_def keeps_refl)

lemma calm_trans: "calm R S k k1 \<Longrightarrow> calm R S k1 k2 \<Longrightarrow> calm R S k k2"
  unfolding calm_def same_cpu_def using keeps_trans mild_change_trans by (metis order_trans)

lemma calm_base:
  assumes "base_inv R k" and "calm R S k k'"
  shows "base_inv R k'"
proof -
  note B = base_invD[OF assms(1)]
  from assms(2) have c: "keeps R S (mem k) (mem k')" "mild_change (ptab k) (ptab k')" "nused k \<le> nused k'"
    "chans_ok k'" "routes_ok k'" "same_cpu k k'" by (simp_all add: calm_def)
  show ?thesis using procs_ok_mild[OF B(2) c(2,3)] keepsD[OF c(1)] c(4-6) B by (simp add: base_inv_def same_cpu_def)
qed

lemma calm_depth: "calm R S k k' \<Longrightarrow> depth k' = depth k"
  by (simp add: calm_def same_cpu_def depth_def)

lemma calm_during:
  assumes h: "handling R i k" and c: "calm R {root_of k i} k k'"
  shows "during R i k R k'"
proof -
  have b: "base_inv R k" "depth k = 1" "on_cpu k i" "starter k" using h by (simp_all add: handling_def)
  from c have m: "keeps R {root_of k i} (mem k) (mem k')" "mild_change (ptab k) (ptab k')" "same_cpu k k'" by (simp_all add: calm_def)
  from on_cpuD[OF b(3)] obtain p where p: "tpidr k = Some i" "slot_at (ptab k) i = Some p" "pstate p = Running"
    "\<And>j. in_state Running (slot_at (ptab k) j) \<longleftrightarrow> j = i" "ttbr0 (mem k) = root_pa (paspace p)" "root_of k i = root_pa (paspace p)" by metis
  from mild_change_slot[OF m(2), of i] p(2,3) obtain q where q: "slot_at (ptab k') i = Some q" "mild p q"
    by (auto simp: slot_mild_def split: option.splits)
  have r: "root_of k' i = root_of k i" using q p(6) by (simp add: root_of_def mild_def)
  have "on_cpu k' i"
    unfolding on_cpu_def mild_change_Running[OF m(2)] using m(3) p r keepsD(2)[OF m(1)] by (simp add: same_cpu_def)
  then show ?thesis using calm_base[OF b(1) c] calm_depth[OF c] b m(3) keeps_mem_step[OF m(1)] r
    by (simp add: during_def handling_def same_cpu_def)
qed

lemma calm_Stay: "handling R i k \<Longrightarrow> calm R {root_of k i} k k' \<Longrightarrow> handled R i k (Stay, k')"
  using calm_during during_Stay by blast

lemma during_calm: "during R i k R1 k1 \<Longrightarrow> calm R1 {root_of k1 i} k1 k2 \<Longrightarrow> during R i k R1 k2"
  using during_trans calm_during during_handling by blast

text \<open>Changes of the memory alone, of the table alone, and of fields no invariant mentions.\<close>

lemma calm_mem: "base_inv R k \<Longrightarrow> keeps R S (mem k) m \<Longrightarrow> calm R S k (k\<lparr>mem := m\<rparr>)"
  by (simp add: calm_def same_cpu_def base_inv_def tables_ok)

lemma calm_table: "base_inv R k \<Longrightarrow> mild_change (ptab k) t \<Longrightarrow> calm R S k (k\<lparr>ptab := t\<rparr>)"
  by (simp add: calm_def same_cpu_def base_inv_def keeps_refl tables_ok)

lemma calm_table_mem: "base_inv R k \<Longrightarrow> mild_change (ptab k) t \<Longrightarrow> keeps R S (mem k) m \<Longrightarrow> calm R S k (k\<lparr>ptab := t, mem := m\<rparr>)"
  by (simp add: calm_def same_cpu_def base_inv_def tables_ok)

lemma calm_other:
  assumes "base_inv R k"
  shows "calm R S k (k\<lparr>preemptions := n\<rparr>)" "calm R S k (k\<lparr>console := c\<rparr>)" "calm R S k (k\<lparr>gic_enabled := g\<rparr>)"
    "calm R S k (k\<lparr>need_resched := b\<rparr>)" "calm R S k (k\<lparr>count := t\<rparr>)"
  using assms by (simp_all add: calm_def same_cpu_def base_inv_def keeps_refl tables_ok)

lemma calm_set_reg: "base_inv R k \<Longrightarrow> calm R S k (set_reg r v k)"
  by (auto simp: set_reg_def Let_def calm_def same_cpu_def base_inv_def keeps_refl tables_ok split: option.split)

lemma calm_regs:
  assumes "base_inv R k" and "calm R S k k'"
  shows "calm R S k (set_reg r v k')" "calm R S k (ret3 x k')"
proof -
  have s: "calm R S k (set_reg r v j)" if "calm R S k j" for r v j
    using calm_trans[OF that calm_set_reg[OF calm_base[OF assms(1) that]]] .
  show "calm R S k (set_reg r v k')" by (rule s[OF assms(2)])
  show "calm R S k (ret3 x k')" unfolding ret3_def by (cases x) (simp add: s assms(2))
qed

subsection \<open>Channels\<close>

lemma table_only_sel:
  assumes "table_only k k'"
  shows "mem k' = mem k" "nused k' = nused k" "channels k' = channels k" "irq_routes k' = irq_routes k"
    "nirqueued k' = nirqueued k" "same_cpu k k'" "mild_change (ptab k) (ptab k')"
proof -
  have e: "k' = k\<lparr>ptab := ptab k'\<rparr>" and m: "mild_change (ptab k) (ptab k')" using assms by (simp_all add: table_only_def)
  show "mem k' = mem k" "nused k' = nused k" "channels k' = channels k" "irq_routes k' = irq_routes k"
    "nirqueued k' = nirqueued k" "same_cpu k k'" by (subst e, simp add: same_cpu_def)+
  show "mild_change (ptab k) (ptab k')" by (rule m)
qed

lemma calm_channel:
  assumes b: "base_inv R k" and t: "table_only k k1" and c: "chan_inv (inner c)"
  shows "calm R S k (k1\<lparr>channels := (channels k1)[h := c]\<rparr>)"
proof -
  note T = table_only_sel[OF t] and B = base_invD[OF b]
  have "\<forall>x \<in> set ((channels k)[h := c]). chan_inv (inner x)"
    using B(3) c set_update_subset_insert[of "channels k" h c] by (auto simp: chans_ok_def)
  then show ?thesis using T B(1,3,4) by (simp add: calm_def tables_ok keeps_refl same_cpu_def)
qed

lemma channel_in:
  assumes "chans_ok k" and "h < nused k"
  shows "h < length (channels k)" "chan_inv (inner (channels k ! h))"
  using assms by (auto simp: chans_ok_def)

lemma on_channel_calm:
  assumes b: "base_inv R k" and h: "h < nused k"
    and f: "\<And>ch. chan_inv ch \<Longrightarrow> \<exists>r ch' k'. f ch k = Some (r, ch', k') \<and> chan_inv ch' \<and> table_only k k' \<and> Q r"
  obtains r k' where "on_channel h f k = Some (r, k')" and "calm R S k k'" and "nused k' = nused k" and "Q r"
proof -
  note C = channel_in[OF base_invD(3)[OF b] h]
  from f[OF C(2)] obtain r ch' k1 where r: "f (inner (channels k ! h)) k = Some (r, ch', k1)" "chan_inv ch'" "table_only k k1" "Q r"
    by blast
  show thesis
  proof (rule that[of r "k1\<lparr>channels := (channels k1)[h := (channels k ! h)\<lparr>inner := ch'\<rparr>]\<rparr>"])
    show "on_channel h f k = Some (r, k1\<lparr>channels := (channels k1)[h := (channels k ! h)\<lparr>inner := ch'\<rparr>]\<rparr>)"
      using C(1) r(1) by (simp add: on_channel_def)
  qed (use r calm_channel[OF b r(3)] table_only_sel(2)[OF r(3)] in simp_all)
qed

lemma close_blocked_calm:
  "base_inv R k \<Longrightarrow> \<forall>h \<in> set hs. h < nused k \<Longrightarrow> calm R S k (close_blocked i hs k)"
proof (induction hs arbitrary: k)
  case (Cons h hs)
  let ?ch = "channels k ! h"
  show ?case
  proof (cases "is_blocked_on i (inner ?ch)")
    case True
    obtain c k1 where c: "close kern_sched (inner ?ch) k = (c, k1)" by fastforce
    have t: "table_only k k1" using kern.P_close[of k "inner ?ch"] c by simp
    have "chan_inv c" using close_inv[of "inner ?ch" kern_sched k] c channel_in(2)[OF base_invD(3)[OF Cons.prems(1)]] Cons.prems(2)
      by simp
    then have k: "calm R S k (k1\<lparr>channels := (channels k1)[h := ?ch\<lparr>inner := c\<rparr>]\<rparr>)" (is "calm R S k ?k1")
      by (intro calm_channel[OF Cons.prems(1) t]) simp
    have "calm R S ?k1 (close_blocked i hs ?k1)"
      by (rule Cons.IH[OF calm_base[OF Cons.prems(1) k]]) (use Cons.prems(2) table_only_sel(2)[OF t] in simp)
    then show ?thesis using True c calm_trans[OF k] by simp
  qed (use Cons in simp)
qed (simp add: calm_refl)

lemma close_blocked_slots: "slot_at (ptab (close_blocked i hs k)) j = None \<longleftrightarrow> slot_at (ptab k) j = None"
proof (induction hs arbitrary: k)
  case (Cons h hs)
  have "slot_at (ptab (snd (close kern_sched c k))) j = None \<longleftrightarrow> slot_at (ptab k) j = None" for c
    using kern.P_close[of k c] by (simp add: table_only_def)
  then show ?case using Cons.IH by (simp add: Let_def case_prod_unfold)
qed simp

lemma close_all_for_calm:
  assumes "base_inv R k" shows "calm R S k (close_all_for i k)"
proof -
  have "nused k \<le> NCHANNELS" using base_invD(3)[OF assms] by (simp add: chans_ok_def)
  then show ?thesis unfolding close_all_for_def by (intro close_blocked_calm[OF assms]) simp
qed

lemma channel_ofD: "channel_of h k = Some h' \<Longrightarrow> h' = h \<and> h < nused k"
  by (simp add: channel_of_def split: if_splits)

subsection \<open>Messages\<close>

lemma handling_base: "handling R i k \<Longrightarrow> base_inv R k"
  by (simp add: handling_def)

lemma handling_current: "handling R i k \<Longrightarrow> current kern_sched k = Some i"
  by (rule handling_leaving) (simp_all add: kern_sched_def)

lemma block_current_total:
  assumes h: "handling R i k" and c: "cont_ok (nused k) c"
  obtains r where "block_current c k = Some r" and "handled R i k r" and "fst r \<noteq> Stay"
proof -
  from handling_leaving[OF h] obtain p where l: "leaving R i p k" "tpidr k = Some i" by metis
  have b: "starter k" "core k < length (depths k)" using h base_invD(5)[OF handling_base[OF h]] by (simp_all add: handling_def)
  have "\<exists>r. block_current c k = Some r"
  proof (cases "next_of Blocked i p k")
    case None
    then obtain k1 where k1: "switch_out Blocked c k = Some (False, k1)" "k1 = k\<lparr>ptab := ptab k1\<rparr>"
      using switch_out_eq[OF l(1), of Blocked c] by simp
    have "tpidr k1 = Some i" "starter k1" "core k1 < length (depths k1)" using l(2) b by (subst k1(2), simp)+
    then show ?thesis using k1(1) exit_interrupt_eq[of "k1\<lparr>tpidr := None\<rparr>"]
      by (simp add: block_current_def to_starter_def)
  next
    case (Some n)
    then show ?thesis using switch_out_eq[OF l(1), of Blocked c] by (simp add: block_current_def)
  qed
  then show thesis using that block_current_handled[OF h c] by blast
qed

lemma block_at_total:
  assumes h: "handling R i k" and c: "cont_ok (nused k) c"
  obtains r where "block_at d c k = Some r" and "handled R i k r" and "fst r \<noteq> Stay"
proof -
  let ?k = "k\<lparr>ptab := with_slot i (\<lambda>p. p\<lparr>deadline := Some d\<rparr>) (ptab k)\<rparr>"
  have t: "tpidr k = Some i" "current_id k = Some i" using handling_leaving[OF h] by metis+
  have u: "during R i k R ?k" by (intro calm_during[OF h] calm_table[OF handling_base[OF h]] mild_ops)
  obtain r where r: "block_current c ?k = Some r" "handled R i ?k r" "fst r \<noteq> Stay"
    using block_current_total[OF during_handling[OF u], of c] c by auto
  show thesis by (rule that[of r]) (use t r during_handled[OF u r(2)] in \<open>simp_all add: block_at_def\<close>)
qed

lemma send_on_total:
  assumes h: "handling R i k" and n: "n < nused k"
  obtains r where "send_on n msg k = Some r" and "handled R i k r"
proof -
  note b = handling_base[OF h]
  note p = kern.P_send[OF _ handling_current[OF h], of _ msg]
  obtain x k1 where x: "on_channel n (send_pass kern_sched msg) k = Some (x, k1)" "calm R {root_of k i} k k1"
    "nused k1 = nused k" "x = Done (Inl Closed) \<or> x = Done (Inr ()) \<or> x = Wait i"
    by (rule on_channel_calm[where f = "send_pass kern_sched msg" and S = "{root_of k i}" and
          Q = "\<lambda>x. x = Done (Inl Closed) \<or> x = Done (Inr ()) \<or> x = Wait i", OF b n p])
  have u: "during R i k R k1" by (rule calm_during[OF h x(2)])
  show thesis
  proof (cases "x = Wait i")
    case True
    have "cont_ok (nused k1) (InSend n msg)" using n x(3) by (simp add: cont_ok_def)
    from block_current_total[OF during_handling[OF u] this] obtain r where
      r: "block_current (InSend n msg) k1 = Some r" "handled R i k1 r" by metis
    show thesis by (rule that[of r]) (use x(1) True r during_handled[OF u r(2)] in \<open>simp_all add: send_on_def\<close>)
  next
    case False
    with x(4) obtain y where "x = Done y" by blast
    then show thesis using x(1) calm_Stay[OF h calm_regs(1)[OF b x(2)]] by (intro that[of "(Stay, set_reg 0 (result_code y) k1)"]) (simp_all add: send_on_def)
  qed
qed

lemma write_user_calm:
  assumes "base_inv R k" and "write_user dst src len k = Some (x, k')"
  shows "calm R S k k'"
  using assms(2) calm_mem[OF assms(1) store_bytes_keeps[OF base_invD(1)[OF assms(1)]]] calm_refl[OF assms(1)]
  by (auto simp: write_user_def Let_def results split: if_split_asm)

lemma deliver_calm:
  assumes "base_inv R k" and "deliver msg dst cap k = Some (x, k')"
  shows "calm R S k k'"
  using assms(2) write_user_calm[OF assms(1)] by (auto simp: deliver_def results)

lemma receive_on_handled:
  assumes h: "handling R i k" and n: "n < nused k" and run: "receive_on n dst cap k = Some r"
  shows "handled R i k r"
proof -
  note b = handling_base[OF h]
  have p: "\<exists>r ch' s'. receive_pass kern_sched ch k = Some (r, ch', s') \<and> chan_inv ch' \<and> table_only k s' \<and>
      ((\<exists>x. r = Done x) \<or> r = Wait i)" if "chan_inv ch" for ch
    using kern.P_receive[OF that handling_current[OF h], of None] by (simp add: recv_pass_def)
  obtain x k1 where x: "on_channel n (receive_pass kern_sched) k = Some (x, k1)" "calm R {root_of k i} k k1"
    "nused k1 = nused k" "(\<exists>y. x = Done y) \<or> x = Wait i"
    by (rule on_channel_calm[where f = "receive_pass kern_sched" and S = "{root_of k i}" and
          Q = "\<lambda>x. (\<exists>y. x = Done y) \<or> x = Wait i", OF b n p])
  have u: "during R i k R k1" by (rule calm_during[OF h x(2)])
  show ?thesis
  proof (cases "x = Wait i")
    case True
    have c: "cont_ok (nused k1) (InReceive n dst cap)" using n x(3) by (simp add: cont_ok_def)
    have "block_current (InReceive n dst cap) k1 = Some r" using run x(1) True by (simp add: receive_on_def)
    from during_handled[OF u block_current_handled(1)[OF during_handling[OF u] c this]] show ?thesis .
  next
    case False
    with x(4) obtain y where y: "x = Done y" by blast
    then have "fst r = Stay \<and> calm R {root_of k i} k (snd r)"
      using run x(1) calm_regs(2)[OF b x(2)] calm_regs(2)[OF b calm_trans[OF x(2) deliver_calm[OF calm_base[OF b x(2)]]]]
      by (cases y) (auto simp: receive_on_def results)
    then show ?thesis using calm_Stay[OF h, of "snd r"] by (cases r) simp
  qed
qed

lemma receive_at_on_handled:
  assumes h: "handling R i k" and n: "n < nused k" and run: "receive_at_on n dst cap dl k = Some r"
  shows "handled R i k r"
proof -
  note b = handling_base[OF h]
  have p: "\<exists>r ch' s'. receive_at_pass kern_sched dl ch k = Some (r, ch', s') \<and> chan_inv ch' \<and> table_only k s' \<and>
      ((\<exists>x. r = Done x) \<or> r = WaitAt i dl)" if "chan_inv ch" for ch
    using kern.P_receive[OF that handling_current[OF h], of "Some dl"] by (simp add: recv_pass_def)
  obtain x k1 where x: "on_channel n (receive_at_pass kern_sched dl) k = Some (x, k1)" "calm R {root_of k i} k k1"
    "nused k1 = nused k" "(\<exists>y. x = Done y) \<or> x = WaitAt i dl"
    by (rule on_channel_calm[where f = "receive_at_pass kern_sched dl" and S = "{root_of k i}" and
          Q = "\<lambda>x. (\<exists>y. x = Done y) \<or> x = WaitAt i dl", OF b n p])
  have u: "during R i k R k1" by (rule calm_during[OF h x(2)])
  show ?thesis
  proof (cases "x = WaitAt i dl")
    case True
    have c: "cont_ok (nused k1) (InReceiveAt n dst cap dl)" using n x(3) by (simp add: cont_ok_def)
    have run1: "block_at dl (InReceiveAt n dst cap dl) k1 = Some r" using run x(1) True by (simp add: receive_at_on_def)
    from block_at_total[OF during_handling[OF u] c, of dl] obtain r' where
      "block_at dl (InReceiveAt n dst cap dl) k1 = Some r'" "handled R i k1 r'" by metis
    then show ?thesis using run1 during_handled[OF u] by simp
  next
    case False
    with x(4) obtain y where y: "x = Done y" by blast
    then have "fst r = Stay \<and> calm R {root_of k i} k (snd r)"
      using run x(1) calm_regs(2)[OF b x(2)] calm_regs(2)[OF b calm_trans[OF x(2) deliver_calm[OF calm_base[OF b x(2)]]]]
      by (cases y) (auto simp: receive_at_on_def results split: if_split_asm)
    then show ?thesis using calm_Stay[OF h, of "snd r"] by (cases r) simp
  qed
qed

lemma message_calls_handled:
  assumes h: "handling R i k"
  shows "sys_send a s l op tg k = Some r \<Longrightarrow> handled R i k r" "sys_reply a s l op tg k = Some r \<Longrightarrow> handled R i k r"
    "sys_receive a d c k = Some r \<Longrightarrow> handled R i k r" "sys_receive_at a d c dl k = Some r \<Longrightarrow> handled R i k r"
proof -
  note b = handling_base[OF h]
  note stay = calm_Stay[OF h calm_regs(1)[OF b calm_refl[OF b]]] calm_Stay[OF h calm_regs(2)[OF b calm_refl[OF b]]]
  have send: "handled R i k x" if "send_on n msg k = Some x" "n < nused k" for n msg x
    using send_on_total[OF h that(2), of msg] that(1) by (metis option.inject)
  show "handled R i k r" if run: "sys_send a s l op tg k = Some r"
  proof (cases "channel_of (unat a) k")
    case (Some n)
    then have n: "n < nused k" using channel_ofD by blast
    from run Some consider "r = (Stay, set_reg 0 ERR_BAD_VA k)" | msg where "send_on n msg k = Some r"
      by (auto simp: sys_send_def results)
    then show ?thesis by cases (simp_all add: stay send n)
  qed (use run stay(1) in \<open>auto simp: sys_send_def\<close>)
  show "handled R i k r" if run: "sys_reply a s l op tg k = Some r"
  proof (cases "channel_of (unat a) k")
    case (Some n)
    then have n: "n < nused k" using channel_ofD by blast
    from run Some consider "r = (Stay, set_reg 0 ERR_BAD_VA k)" | "r = (Stay, set_reg 0 (err_code BadTag) k)"
      | msg where "send_on n msg k = Some r"
      by (auto simp: sys_reply_def results Let_def split: if_split_asm)
    then show ?thesis by cases (simp_all add: stay send n)
  qed (use run stay(1) in \<open>auto simp: sys_reply_def\<close>)
  show "handled R i k r" if run: "sys_receive a d c k = Some r"
  proof (cases "channel_of (unat a) k")
    case (Some n)
    then have n: "n < nused k" using channel_ofD by blast
    show ?thesis by (rule receive_on_handled[OF h n]) (use run Some in \<open>simp add: sys_receive_def\<close>)
  qed (use run stay(2) in \<open>auto simp: sys_receive_def\<close>)
  show "handled R i k r" if run: "sys_receive_at a d c dl k = Some r"
  proof (cases "channel_of (unat a) k")
    case (Some n)
    then have n: "n < nused k" using channel_ofD by blast
    show ?thesis by (rule receive_at_on_handled[OF h n]) (use run Some in \<open>simp add: sys_receive_at_def\<close>)
  qed (use run stay(2) in \<open>auto simp: sys_receive_at_def\<close>)
qed

end
