(* ===== verification/Kernel_Steps.thy ===== *)
theory Kernel_Steps
  imports Kernel_Calls
begin

section \<open>Every step of the system keeps the invariant\<close>

text \<open>
  The remaining calls, interrupts, the end and the start of processes, and from them each rule of the
  step relation.
\<close>

subsection \<open>Calls that stay calm\<close>

lemma handling_keeps: "handling R i k \<Longrightarrow> vm_inv R (mem k) \<and> root_of k i \<in> R"
proof -
  assume h: "handling R i k"
  from handling_leaving[OF h] obtain p where p: "slot_at (ptab k) i = Some p" by metis
  note b = handling_base[OF h]
  show ?thesis using base_invD(1)[OF b] procs_okD(3)[OF base_invD(2)[OF b] p] p by (simp add: root_of_def)
qed

lemma map_mmio_pages_keeps:
  "vm_inv R m \<Longrightarrow> root_pa a \<in> R \<Longrightarrow> map_mmio_pages a pa va sz off m = Some (x, m') \<Longrightarrow> keeps R {root_pa a} m m'"
proof (induction a pa va sz off m rule: map_mmio_pages.induct)
  case (1 a pa va sz off m)
  show ?case
  proof (cases "off < sz")
    case False
    then show ?thesis using "1.prems" by (simp add: map_mmio_pages.simps keeps_refl)
  next
    case True
    with "1.prems"(3) obtain ppa pva rng r m1 where s: "checked_add pa off = Some ppa" "checked_add va off = Some pva"
      "phys_with_pa_len (of_nat ppa) (of_nat PAGE_SIZE_4K) = Some rng" "map_mmio a rng (of_nat pva) m = Some (r, m1)"
      "(case r of Inl _ \<Rightarrow> Some (1, m1) | Inr _ \<Rightarrow> do { o' \<leftarrow> checked_add off PAGE_SIZE_4K; map_mmio_pages a pa va sz o' m1 }) = Some (x, m')"
      by (subst (asm) map_mmio_pages.simps) (auto simp: bind_eq_Some_conv)
    have k: "keeps R {root_pa a} m m1" by (rule map_mmio_keeps[OF "1.prems"(1,2) s(4)])
    show ?thesis
    proof (cases r)
      case (Inl _)
      then show ?thesis using s(5) k by simp
    next
      case (Inr u)
      then obtain o' where o: "checked_add off PAGE_SIZE_4K = Some o'" "map_mmio_pages a pa va sz o' m1 = Some (x, m')"
        using s(5) by (auto simp: bind_eq_Some_conv)
      have "keeps R {root_pa a} m1 m'"
        by (rule "1.IH"[OF True s(1,2,3,4) refl Inr o(1) keepsD(1)[OF k] "1.prems"(2) o(2)])
      then show ?thesis by (rule keeps_trans[OF k])
    qed
  qed
qed

lemma map_heap_pages_keeps:
  "vm_inv R m \<Longrightarrow> root_pa a \<in> R \<Longrightarrow> map_heap_pages a pg nb m = Some (x, m') \<Longrightarrow> keeps R {root_pa a} m m'"
proof (induction a pg nb m rule: map_heap_pages.induct)
  case (1 a pg nb m)
  show ?case
  proof (cases "pg < nb")
    case False
    then show ?thesis using "1.prems" by (simp add: map_heap_pages.simps keeps_refl)
  next
    case True
    with "1.prems"(3) obtain r m1 where s: "map_user_data_page a (of_nat pg) m = Some (r, m1)"
      "(case r of Inl _ \<Rightarrow> Some (Inl pg, m1) | Inr _ \<Rightarrow> do { p' \<leftarrow> checked_add pg PAGE_SIZE_4K; map_heap_pages a p' nb m1 }) = Some (x, m')"
      by (subst (asm) map_heap_pages.simps) (auto simp: bind_eq_Some_conv)
    have k: "keeps R {root_pa a} m m1" by (rule map_user_data_page_keeps[OF "1.prems"(1,2) s(1)])
    show ?thesis
    proof (cases r)
      case (Inl _)
      then show ?thesis using s(2) k by simp
    next
      case (Inr u)
      then obtain p' where p: "checked_add pg PAGE_SIZE_4K = Some p'" "map_heap_pages a p' nb m1 = Some (x, m')"
        using s(2) by (auto simp: bind_eq_Some_conv)
      have "keeps R {root_pa a} m1 m'"
        by (rule "1.IH"[OF True s(1) refl Inr p(1) keepsD(1)[OF k] "1.prems"(2) p(2)])
      then show ?thesis by (rule keeps_trans[OF k])
    qed
  qed
qed

text \<open>The three heap calls change the watermarks of the caller and its mappings.\<close>

lemma heap_slot:
  assumes h: "handling R i k"
  obtains p where "slot_at (ptab k) i = Some p" and "current_id k = Some i" and "root_of k i = root_pa (paspace p)"
    and "pstate p = Running"
  using h by (elim handling_leaving) (auto simp: root_of_def)

lemma mild_heap:
  assumes "heap_ok p \<Longrightarrow> heap_base p \<le> b \<and> b \<le> w \<and> w \<le> unat KZERO \<and> b mod PAGE_SIZE_4K = 0 \<and> w mod PAGE_SIZE_4K = 0"
  shows "mild p (p\<lparr>heap_brk := b, heap_hwm := w\<rparr>)"
  using assms by (auto simp: mild_def heap_ok_def)

lemma map_heap_pages_stop:
  "map_heap_pages a pg nb m = Some (Inl x, m') \<Longrightarrow> pg \<le> x \<and> x < nb \<and> x mod PAGE_SIZE_4K = pg mod PAGE_SIZE_4K"
proof (induction a pg nb m rule: map_heap_pages.induct)
  case (1 a pg nb m)
  show ?case
  proof (cases "pg < nb")
    case True
    with "1.prems" obtain r m1 where s: "map_user_data_page a (of_nat pg) m = Some (r, m1)"
      "(case r of Inl _ \<Rightarrow> Some (Inl pg, m1) | Inr _ \<Rightarrow> do { p' \<leftarrow> checked_add pg PAGE_SIZE_4K; map_heap_pages a p' nb m1 }) = Some (Inl x, m')"
      by (subst (asm) map_heap_pages.simps) (auto simp: bind_eq_Some_conv)
    show ?thesis
    proof (cases r)
      case (Inl _)
      then show ?thesis using s(2) True by simp
    next
      case (Inr u)
      then obtain p' where p: "checked_add pg PAGE_SIZE_4K = Some p'" "map_heap_pages a p' nb m1 = Some (Inl x, m')"
        using s(2) by (auto simp: bind_eq_Some_conv)
      have "p' = pg + PAGE_SIZE_4K" using p(1) by (simp add: checked_add_def split: if_splits)
      then show ?thesis using "1.IH"[OF True s(1) refl Inr p] by auto
    qed
  qed (use "1.prems" in \<open>simp add: map_heap_pages.simps\<close>)
qed

lemma brk_grow_spec:
  assumes "brk_grow brk c bound = Some nb"
  shows "brk \<le> nb" "nb \<le> bound" "nb mod PAGE_SIZE_4K = brk mod PAGE_SIZE_4K"
  using assms by (auto simp: brk_grow_def Let_def checked_add_def checked_mul_def bind_eq_Some_conv split: if_split_asm)

lemma calm_set_current:
  assumes h: "handling R i k" and p: "slot_at (ptab k) i = Some p" and q: "mild p q" and m: "keeps R {root_of k i} (mem k) m"
  shows "calm R {root_of k i} k (set_current q i m k)"
  unfolding set_current_def
  by (rule calm_table_mem[OF handling_base[OF h] mild_change_upd m]) (simp add: slot_nth[OF p] slot_mild_def q)

lemma heap_grow_calm:
  assumes h: "handling R i k" and run: "heap_grow c k = Some (x, k')"
  shows "calm R {root_of k i} k k'"
proof -
  from heap_slot[OF h] obtain p where p: "slot_at (ptab k) i = Some p" "current_id k = Some i" "root_of k i = root_pa (paspace p)" .
  note K = handling_keeps[OF h, unfolded p(3)]
  show ?thesis
  proof (cases "brk_grow (heap_brk p) (unat c) (unat KZERO)")
    case None
    then show ?thesis using run p calm_refl[OF handling_base[OF h]] by (simp add: heap_grow_def)
  next
    case (Some nb)
    with run p obtain r m1 where r: "map_heap_pages (paspace p) (heap_hwm p) nb (mem k) = Some (r, m1)"
      and k': "(\<exists>pg. r = Inl pg \<and> k' = set_current (p\<lparr>heap_hwm := pg\<rparr>) i m1 k) \<or>
        k' = set_current (p\<lparr>heap_brk := nb, heap_hwm := nb\<rparr>) i m1 k"
      by (auto simp: heap_grow_def results)
    note G = brk_grow_spec[OF Some]
    have stop: "mild p (p\<lparr>heap_hwm := pg\<rparr>)" if "r = Inl pg" for pg
      using mild_heap[of p "heap_brk p" pg] map_heap_pages_stop[OF r[unfolded that]] G(2) by (simp add: heap_ok_def)
    have full: "mild p (p\<lparr>heap_brk := nb, heap_hwm := nb\<rparr>)" by (rule mild_heap) (use G in \<open>auto simp: heap_ok_def\<close>)
    have "keeps R {root_of k i} (mem k) m1" unfolding p(3) using map_heap_pages_keeps[OF _ _ r] K by blast
    then show ?thesis using k' calm_set_current[OF h p(1)] stop full by auto
  qed
qed

lemma heap_alloc_page_calm:
  assumes h: "handling R i k" and run: "heap_alloc_page k = Some (x, k')"
  shows "calm R {root_of k i} k k'"
proof -
  from heap_slot[OF h] obtain p where p: "slot_at (ptab k) i = Some p" "current_id k = Some i" "root_of k i = root_pa (paspace p)" .
  note K = handling_keeps[OF h, unfolded p(3)] and b = handling_base[OF h]
  show ?thesis
  proof (cases "brk_grow (heap_brk p) PAGE_SIZE_4K (unat KZERO)")
    case None
    then show ?thesis using run p calm_refl[OF b] by (simp add: heap_alloc_page_def)
  next
    case (Some nb)
    with run p obtain r m1 where r: "map_user_data_page_pa (paspace p) (of_nat (heap_hwm p)) (mem k) = Some (r, m1)"
      and k': "k' = k\<lparr>mem := m1\<rparr> \<or> k' = set_current (p\<lparr>heap_brk := nb, heap_hwm := nb\<rparr>) i m1 k"
      by (auto simp: heap_alloc_page_def results)
    have full: "mild p (p\<lparr>heap_brk := nb, heap_hwm := nb\<rparr>)"
      by (rule mild_heap) (use brk_grow_spec[OF Some] in \<open>auto simp: heap_ok_def\<close>)
    have "keeps R {root_of k i} (mem k) m1" unfolding p(3) using map_user_data_page_pa_keeps[OF _ _ r] K by blast
    then show ?thesis using k' calm_set_current[OF h p(1) full] calm_mem[OF b] by auto
  qed
qed

lemma heap_shrink_calm:
  assumes h: "handling R i k" shows "calm R {root_of k i} k (heap_shrink v k)"
proof -
  from heap_slot[OF h] obtain p where p: "slot_at (ptab k) i = Some p" "current_id k = Some i" "root_of k i = root_pa (paspace p)" .
  note b = handling_base[OF h]
  show ?thesis
  proof (cases "brk_shrink (heap_base p) (heap_brk p) (unat v)")
    case None
    then show ?thesis using p calm_refl[OF b] by (simp add: heap_shrink_def)
  next
    case (Some nb)
    have "mild p (p\<lparr>heap_brk := nb\<rparr>)" using mild_heap[of p nb "heap_hwm p"] Some
      by (auto simp: brk_shrink_def heap_ok_def split: if_split_asm)
    then show ?thesis using p Some calm_table[OF b mild_change_upd]
      by (simp add: heap_shrink_def slot_nth slot_mild_def)
  qed
qed

text \<open>Claiming an interrupt adds a route of its own.\<close>

lemma claimed_None:
  assumes "routes_ok k" and "claimed intid k = None" and "j < nirqueued k"
  shows "map_option route_intid (irq_routes k ! j) \<noteq> Some intid"
proof
  assume a: "map_option route_intid (irq_routes k ! j) = Some intid"
  then obtain r where r: "irq_routes k ! j = Some r" "route_intid r = intid" by blast
  have "j < length (take (nirqueued k) (irq_routes k))" using assms(1,3) by (simp add: routes_ok_def)
  then have "take (nirqueued k) (irq_routes k) ! j \<in> set (take (nirqueued k) (irq_routes k))" by (rule nth_mem)
  then have "Some r \<in> set (take (nirqueued k) (irq_routes k))" using r(1) assms(3) by simp
  then show False using assms(2) r(2) by (auto simp: claimed_def find_None_iff)
qed

lemma enable_calm: "base_inv R k \<Longrightarrow> calm R S k (enable_interrupt x k)" "base_inv R k \<Longrightarrow> calm R S k (disable_interrupt x k)"
  by (simp_all add: enable_interrupt_def disable_interrupt_def calm_other calm_refl)

lemma route_added:
  assumes ok: "routes_ok k" and n: "nirqueued k < NIRQS" and cl: "claimed (route_intid r) k = None"
    and r: "route_channel r < nused k" "INTID_SPI_MIN \<le> route_intid r" "route_intid r \<le> INTID_SPI_MAX"
  shows "routes_ok (k\<lparr>irq_routes := (irq_routes k)[nirqueued k := Some r], nirqueued := nirqueued k + 1\<rparr>)"
proof -
  let ?n = "nirqueued k" and ?rs = "(irq_routes k)[nirqueued k := Some r]"
  have len: "length (irq_routes k) = NIRQS" and old: "\<forall>i < ?n. \<exists>r. irq_routes k ! i = Some r \<and> route_channel r < nused k \<and>
        INTID_SPI_MIN \<le> route_intid r \<and> route_intid r \<le> INTID_SPI_MAX"
    and dis: "\<forall>i < ?n. \<forall>j < ?n. map_option route_intid (irq_routes k ! i) = map_option route_intid (irq_routes k ! j) \<longrightarrow> i = j"
    using ok by (simp_all add: routes_ok_def)
  have at: "?rs ! ?n = Some r" "\<And>i. i < ?n \<Longrightarrow> ?rs ! i = irq_routes k ! i" using len n by simp_all
  have new: "map_option route_intid (?rs ! i) \<noteq> Some (route_intid r)" if "i < ?n" for i
    using claimed_None[OF ok cl that] at(2)[OF that] by simp
  have A: "\<forall>i < ?n + 1. \<exists>x. ?rs ! i = Some x \<and> route_channel x < nused k \<and> INTID_SPI_MIN \<le> route_intid x \<and> route_intid x \<le> INTID_SPI_MAX"
    using old at r by (auto simp: less_Suc_eq)
  have B: "i = j" if "i < ?n + 1" "j < ?n + 1" "map_option route_intid (?rs ! i) = map_option route_intid (?rs ! j)" for i j
    using that dis at new[of i] new[of j] by (cases "i = ?n"; cases "j = ?n") (auto simp: less_Suc_eq)
  show ?thesis unfolding routes_ok_def using len n A B by simp
qed

lemma sys_irq_claim_calm:
  assumes b: "base_inv R k"
  shows "calm R S k (snd (sys_irq_claim raw h k))"
proof (cases "raw \<le> 0xffff \<and> INTID_SPI_MIN \<le> (ucast raw :: u16) \<and> (ucast raw :: u16) \<le> INTID_SPI_MAX \<and>
    channel_of (unat h) k \<noteq> None \<and> claimed (ucast raw) k = None \<and> \<not> NIRQS \<le> nirqueued k")
  case True
  let ?r = "\<lparr>route_intid = ucast raw, route_channel = unat h, route_owner = (case current_id k of Some i \<Rightarrow> i | None \<Rightarrow> 0)\<rparr>"
  let ?k = "k\<lparr>irq_routes := (irq_routes k)[nirqueued k := Some ?r], nirqueued := nirqueued k + 1\<rparr>"
  have "unat h < nused k" using True channel_ofD by blast
  then have "routes_ok ?k" using True by (intro route_added[OF base_invD(4)[OF b]]) simp_all
  then have c: "calm R S k ?k" using base_invD[OF b] by (simp add: calm_def same_cpu_def keeps_refl chans_ok_def)
  have "snd (sys_irq_claim raw h k) = enable_interrupt (ucast raw) ?k"
    using True unfolding sys_irq_claim_def Let_def by auto
  then show ?thesis using calm_trans[OF c enable_calm(1)[OF calm_base[OF b c]]] by simp
next
  case False
  then have "snd (sys_irq_claim raw h k) = k" unfolding sys_irq_claim_def Let_def by auto
  then show ?thesis using calm_refl[OF b] by simp
qed

lemma sys_createchan_calm:
  assumes b: "base_inv R k" shows "calm R S k (snd (sys_createchan k))"
proof -
  have "routes_ok (k\<lparr>nused := nused k + 1\<rparr>)" using base_invD(4)[OF b] unfolding routes_ok_def by fastforce
  then show ?thesis using base_invD[OF b]
    by (auto simp: sys_createchan_def try_create_def calm_def same_cpu_def keeps_refl chans_ok_def)
qed

lemma sys_map_mmio_calm:
  assumes h: "handling R i k" and run: "sys_map_mmio pa va sz k = Some (x, k')"
  shows "calm R {root_of k i} k k'"
proof -
  from heap_slot[OF h] obtain p where p: "slot_at (ptab k) i = Some p" "root_of k i = root_pa (paspace p)" by metis
  have t: "tpidr k = Some i" using handling_leaving[OF h] by metis
  note K = handling_keeps[OF h, unfolded p(2)] and b = handling_base[OF h]
  from run have "k' = k \<or> (\<exists>m1. map_mmio_pages (paspace p) (unat pa) (unat va) (unat sz) 0 (mem k) = Some (x, m1) \<and> k' = k\<lparr>mem := m1\<rparr>)"
    using t p(1) by (auto simp: sys_map_mmio_def current_aspace_def current_process_def results split: if_split_asm)
  then show ?thesis
  proof
    assume "\<exists>m1. map_mmio_pages (paspace p) (unat pa) (unat va) (unat sz) 0 (mem k) = Some (x, m1) \<and> k' = k\<lparr>mem := m1\<rparr>"
    then obtain m1 where m1: "map_mmio_pages (paspace p) (unat pa) (unat va) (unat sz) 0 (mem k) = Some (x, m1)" "k' = k\<lparr>mem := m1\<rparr>"
      by blast
    show ?thesis unfolding m1(2) p(2) using K by (intro calm_mem[OF b] map_mmio_pages_keeps[OF _ _ m1(1)]) simp_all
  qed (use calm_refl[OF b] in simp)
qed

lemma sys_wait_mild: "mild_change t (snd (sys_wait c t))"
proof -
  have gone: "mild_change t (t[j := None])" if "in_state Exited (t ! j)" for j
    using that by (intro mild_change_upd) (auto simp: slot_mild_def in_state_def split: option.splits)
  show ?thesis
  proof (cases "unat c = 0")
    case True
    then show ?thesis using gone
      by (auto simp: sys_wait_def Let_def split: option.split dest: position_Some)
  next
    case False
    then show ?thesis using gone
      by (auto simp: sys_wait_def Let_def slot_at_def in_state_def split: option.split if_splits)
  qed
qed

lemma sys_setprio_calm: "base_inv R k \<Longrightarrow> calm R S k (snd (sys_setprio a b k))"
  by (auto simp: sys_setprio_def Let_def calm_refl slot_mild_def mild_def slot_nth split: option.split
      intro!: calm_table mild_change_upd)

lemma sys_kill_calm:
  assumes h: "handling R i k" and n: "unat pid \<noteq> i"
  shows "calm R S k (snd (sys_kill pid k))"
proof -
  note b = handling_base[OF h]
  show ?thesis
  proof (cases "fst (kill_slot (unat pid) (ptab k)) \<and> unat pid < NPROCS")
    case True
    then obtain p where p: "slot_at (ptab k) (unat pid) = Some p"
      "kill_slot (unat pid) (ptab k) = (True, (ptab k)[unat pid := Some (mark_exited KILL_STATUS p)])"
      "pstate p \<noteq> Exited"
      by (auto simp: kill_slot_def split: option.splits if_splits)
    from h have "\<not> in_state Running (slot_at (ptab k) (unat pid))" using n by (auto simp: handling_def on_cpu_def)
    then have "mild p (mark_exited KILL_STATUS p)" using p(1,3) by (simp add: in_state_def mild_def mark_exited_def)
    then have c: "calm R S k (k\<lparr>ptab := (ptab k)[unat pid := Some (mark_exited KILL_STATUS p)]\<rparr>)"
      by (intro calm_table[OF b] mild_change_upd) (simp add: slot_nth[OF p(1)] slot_mild_def)
    show ?thesis using calm_trans[OF c close_all_for_calm[OF calm_base[OF b c]]] True p(2) by (simp add: sys_kill_def)
  next
    case False
    then have "snd (sys_kill pid k) = k" by (auto simp: sys_kill_def split: prod.split bool.split)
    then show ?thesis using calm_refl[OF b] by simp
  qed
qed

lemma sys_print_calm: "base_inv R k \<Longrightarrow> sys_print va l k = Some (x, k') \<Longrightarrow> calm R S k k'"
  by (auto simp: sys_print_def Let_def results calm_refl calm_other split: if_split_asm)

subsection \<open>Starting a process\<close>

lemma procs_ok_insert:
  assumes ok: "procs_ok R tb cans n t" and r: "root_pa a \<notin> R" "root_pa a \<noteq> tb" and j: "j < NPROCS" "length cans = NPROCS"
    and p: "kstack p = j" "paspace p = a" "cont_ok n (pcontext p)" "heap_ok p"
  shows "procs_ok (insert (root_pa a) R) tb (cans[j := KSTACK_CANARY]) n (t[j := Some p])"
  unfolding procs_ok_def
proof (intro conjI allI impI)
  have len: "length t = NPROCS" using ok by (simp add: procs_ok_def)
  then show "length (t[j := Some p]) = NPROCS" by simp
  show "proc_ok (insert (root_pa a) R) tb (cans[j := KSTACK_CANARY]) n l x" if "slot_at (t[j := Some p]) l = Some x" for l x
  proof (cases "l = j")
    case True
    then show ?thesis using that j len p r by (simp add: slot_at_upd proc_ok_def)
  next
    case False
    then have "slot_at t l = Some x" using that by (simp add: slot_at_upd)
    then show ?thesis using procs_okD[OF ok] False by (simp add: proc_ok_def)
  qed
  fix l m x y
  assume "slot_at (t[j := Some p]) l = Some x \<and> slot_at (t[j := Some p]) m = Some y \<and> root_pa (paspace x) = root_pa (paspace y)"
  moreover have "root_pa (paspace z) \<noteq> root_pa a" if "slot_at t l = Some z" for l z using procs_okD(3)[OF ok that] r(1) by auto
  ultimately show "l = m" using ok p(2) len j(1) unfolding procs_ok_def by (auto simp: slot_at_upd split: if_splits)
qed

lemma procs_ok_mono: "procs_ok R tb cans n t \<Longrightarrow> R \<subseteq> R' \<Longrightarrow> procs_ok R' tb cans n t"
  unfolding procs_ok_def proc_ok_def by blast

lemma makes_root: "vm_inv R m \<Longrightarrow> makes R r m m' \<Longrightarrow> r \<noteq> ttbr1 m'"
  by (auto simp: makes_def vm_inv_def)

lemma base_makes:
  assumes "base_inv R k" and "makes R r (mem k) m"
  shows "base_inv (insert r R) (k\<lparr>mem := m\<rparr>)"
proof -
  have "procs_ok (insert r R) (ttbr1 (mem k)) (canaries k) (nused k) (ptab k)"
    by (rule procs_ok_mono[OF base_invD(2)[OF assms(1)]]) blast
  then show ?thesis using assms(1) makesD[OF assms(2)] by (simp add: base_inv_def tables_ok)
qed

lemma position_free:
  assumes "position is_free t = Some j"
  shows "j < length t" "\<not> in_state Running (slot_at t j)" "\<not> in_state Blocked (slot_at t j)"
  using position_Some[OF assms] by (auto simp: is_free_def slot_at_def in_state_def split: option.splits)

lemma try_install_base:
  assumes b: "base_inv R k" and m: "makes R (root_pa a) (mem k) m"
    and run: "try_install a elr usp hb pr sy (k\<lparr>mem := m\<rparr>) = Some (x, k')"
  shows "base_inv (insert (root_pa a) R) k'" and "mem k' = m" and "tpidr k' = tpidr k" "depth k' = depth k" "starter k' = starter k"
    and "in_state Running (slot_at (ptab k') j) \<longleftrightarrow> in_state Running (slot_at (ptab k) j)"
    and "in_state Running (slot_at (ptab k) j) \<Longrightarrow> slot_at (ptab k') j = slot_at (ptab k) j"
proof -
  have "base_inv (insert (root_pa a) R) k' \<and> mem k' = m \<and> tpidr k' = tpidr k \<and> depth k' = depth k \<and> starter k' = starter k \<and>
    (in_state Running (slot_at (ptab k') j) \<longleftrightarrow> in_state Running (slot_at (ptab k) j)) \<and>
    (in_state Running (slot_at (ptab k) j) \<longrightarrow> slot_at (ptab k') j = slot_at (ptab k) j)"
  proof (cases "position is_free (ptab k)")
    case None
    then have "k' = k\<lparr>mem := m\<rparr>" using run by (simp add: try_install_def)
    then show ?thesis using base_makes[OF b m] by (simp add: depth_def)
  next
    case (Some l)
    note F = position_free[OF Some] and B = base_invD[OF b]
    let ?p = "new_process a l hb pr sy"
    have k': "k' = k\<lparr>mem := m, canaries := (canaries k)[l := KSTACK_CANARY],
        frames := (frames k)[l := zero_frame\<lparr>elr_el1 := elr, frame_sp := of_nat usp, frame_spsr := 0\<rparr>],
        ptab := (ptab k)[l := Some ?p]\<rparr>"
      using run Some by (simp add: try_install_def forkret_context_def Let_def split: if_split_asm)
    have "hb mod PAGE_SIZE_4K = 0" "hb < unat KZERO"
      using run Some by (simp_all add: try_install_def Let_def split: if_split_asm)
    then have "heap_ok ?p" by (simp add: heap_ok_def new_process_def)
    then have "procs_ok (insert (root_pa a) R) (ttbr1 (mem k)) ((canaries k)[l := KSTACK_CANARY]) (nused k) ((ptab k)[l := Some ?p])"
      using makes_root[OF B(1) m] makesD(4)[OF m] F(1) B(9)
      by (intro procs_ok_insert[OF B(2) makesD(1)[OF m] _ _ B(6)]) (simp_all add: new_process_def cont_ok_def)
    then have "base_inv (insert (root_pa a) R) k'" unfolding k' base_inv_def tables_ok
      using makesD[OF m] B[unfolded tables_ok] by simp
    moreover have "in_state Running (slot_at (ptab k') j) \<longleftrightarrow> in_state Running (slot_at (ptab k) j)"
      unfolding k' using F(2) by (auto simp: slot_at_upd in_state_def new_process_def)
    moreover have "slot_at (ptab k') j = slot_at (ptab k) j" if "in_state Running (slot_at (ptab k) j)"
      unfolding k' using F(2) that by (auto simp: slot_at_upd)
    ultimately show ?thesis unfolding k' by (simp add: depth_def)
  qed
  then show "base_inv (insert (root_pa a) R) k'" "mem k' = m" "tpidr k' = tpidr k" "depth k' = depth k" "starter k' = starter k"
    "in_state Running (slot_at (ptab k') j) \<longleftrightarrow> in_state Running (slot_at (ptab k) j)"
    "in_state Running (slot_at (ptab k) j) \<Longrightarrow> slot_at (ptab k') j = slot_at (ptab k) j" by blast+
qed

lemma must_map_grown:
  assumes "vm_inv R m" and "root_pa a \<in> R" and "valid e" and "must_map e va a m = Some (x, m')"
  shows "grown R a m m'"
proof -
  from assms(4) obtain y where "map_user_page a e (of_nat va) m = Some (y, m')" by (auto simp: must_map_def results)
  from map_user_page_keeps[OF assms(1-3) this] show ?thesis by (simp add: grown_def)
qed

lemma store_bytes_grown: "vm_inv R m \<Longrightarrow> store_bytes va bs m = Some m' \<Longrightarrow> grown R a m m'"
  unfolding grown_def by (rule store_bytes_keeps)

lemma sys_spawn_during:
  assumes h: "handling R i k" and run: "sys_spawn idx sva pr k = Some (x, k')"
  shows "\<exists>R'. during R i k R' k'"
proof -
  note b = handling_base[OF h]
  from run consider "k' = k" | (go) bytes l m1 kp m2 pg m3 r sy where "load_elf bytes (mem k) = Some (l, m1)"
      "must_map rw_user_data HANDLES_VA (ld_aspace l) m1 = Some (kp, m2)" "store_bytes kp pg m2 = Some m3"
      "try_install (ld_aspace l) (ld_entry l) (ld_user_sp l) (ld_heap_base l) (ucast pr) sy (k\<lparr>mem := m3\<rparr>) = Some (r, k')"
    by (auto simp: sys_spawn_def results split: if_split_asm)
  then show ?thesis
  proof cases
    case go
    let ?a = "ld_aspace l" let ?R = "insert (root_pa ?a) R"
    have k1: "makes R (root_pa ?a) (mem k) m1" by (rule load_elf_makes[OF base_invD(1)[OF b] go(1)])
    have g2: "grown ?R ?a m1 m2" by (rule must_map_grown[OF makesD(2)[OF k1] _ _ go(2)]) simp_all
    have g3: "grown ?R ?a m2 m3" by (rule store_bytes_grown[OF grown_inv[OF g2] go(3)])
    have m: "makes R (root_pa ?a) (mem k) m3" by (rule makes_grown[OF k1 grown_trans[OF g2 g3]])
    note I = try_install_base[OF b m go(4)]
    from h have o: "on_cpu k i" "depth k = 1" "starter k" by (simp_all add: handling_def)
    have "slot_at (ptab k') i = slot_at (ptab k) i" using I(7) o(1) by (simp add: on_cpu_def)
    then have r: "root_of k' i = root_of k i" by (simp add: root_of_def)
    have "on_cpu k' i" unfolding on_cpu_def I(6) r using I(2,3) makesD(3)[OF m] o(1) by (simp add: on_cpu_def)
    then have "during R i k ?R k'" using I(1,2,4,5) o r makes_mem_step[OF m] by (simp add: during_def handling_def)
    then show ?thesis by blast
  qed (use during_refl[OF h] in blast)
qed

subsection \<open>The end of a process\<close>

text \<open>The kernel after a process has been marked exited and its channels closed.\<close>

definition exited_state :: "usize \<Rightarrow> u64 \<Rightarrow> kernel \<Rightarrow> kernel" where
  "exited_state i st k = close_all_for i (k\<lparr>ptab := with_slot i (mark_exited st) (ptab k)\<rparr>)"

lemma exiting_leaving:
  assumes h: "handling R i k"
  obtains q where "leaving R i q (exited_state i st k)" and "pstate q = Exited" and "exit_status q = st"
    and "keeps R {root_of k i} (mem k) (mem (exited_state i st k))"
proof -
  from handling_leaving[OF h] obtain p where p: "slot_at (ptab k) i = Some p" "pstate p = Running" "tpidr k = Some i" by metis
  note b = handling_base[OF h] and B = base_invD[OF handling_base[OF h]]
  let ?p = "mark_exited st p"
  let ?k = "k\<lparr>ptab := with_slot i (mark_exited st) (ptab k)\<rparr>" and ?j = "exited_state i st k"
  have t: "with_slot i (mark_exited st) (ptab k) = (ptab k)[i := Some ?p]"
    using p(1) slot_at_lt[OF p(1)] by (simp add: with_slot_def slot_nth)
  have "procs_ok R (ttbr1 (mem k)) (canaries k) (nused k) ((ptab k)[i := Some ?p])"
    by (rule procs_ok_upd[OF B(2) p(1)]) (simp_all add: mark_exited_def)
  then have bk: "base_inv R ?k" using B by (simp add: base_inv_def tables_ok t)
  have c: "calm R {root_of k i} ?k ?j" unfolding exited_state_def by (rule close_all_for_calm[OF bk])
  have mc: "mild_change (ptab ?k) (ptab ?j)" and sc: "same_cpu ?k ?j" and kp: "keeps R {root_of k i} (mem ?k) (mem ?j)"
    using c by (simp_all add: calm_def)
  have si: "slot_at (ptab ?k) i = Some ?p" using slot_at_lt[OF p(1)] by (simp add: t slot_at_upd)
  have "slot_at (ptab ?j) i \<noteq> None" unfolding exited_state_def close_all_for_def close_blocked_slots using si by simp
  with mild_change_slot[OF mc, of i] si obtain q where q: "slot_at (ptab ?j) i = Some q" "mild ?p q"
    by (auto simp: slot_mild_def)
  have ex: "pstate q = Exited" "exit_status q = st" using q(2) by (auto simp: mild_def mark_exited_def)
  have run': "in_state Running (slot_at (ptab ?j) l) \<Longrightarrow> l = i" for l
    using h unfolding mild_change_Running[OF mc] by (auto simp: t Running_upd handling_def on_cpu_def split: if_splits)
  have d: "depth ?j = 1" "starter ?j" using h sc by (simp_all add: handling_def depth_def same_cpu_def)
  have l: "leaving R i q ?j"
    unfolding leaving_def using calm_base[OF bk c] d q(1) ex run' sc p(3) by (simp add: same_cpu_def)
  show thesis by (rule that[OF l ex]) (use kp in simp)
qed

lemma exiting_handled:
  assumes h: "handling R i k" and run: "leave (exited_state i st k) = Some r"
  shows "handled R i k r"
proof -
  from exiting_leaving[OF h, of st] obtain q where q: "leaving R i q (exited_state i st k)" "pstate q = Exited"
    "keeps R {root_of k i} (mem k) (mem (exited_state i st k))" by metis
  from leave_handled[OF q(1,2) run, of "root_of k i"] obtain R' where
    R': "mem_step R (root_of k i) (mem (exited_state i st k)) R' (mem (snd r))"
      "fst r = Switched \<and> kernel_inv R' (Loaded, snd r) \<or> fst r = ToStarter \<and> kernel_inv R' (Starter, snd r)" by blast
  from mem_step_trans[OF keeps_mem_step[OF q(3)] R'(1)] R'(2) show ?thesis
    unfolding handled_def by (intro exI[of _ R']) (auto simp del: kernel_inv.simps)
qed

lemma handling_position:
  assumes h: "handling R i k"
  shows "position (in_state Running) (ptab k) = Some i"
proof -
  have o: "in_state Running (slot_at (ptab k) j) \<longleftrightarrow> j = i" for j using h by (simp add: handling_def on_cpu_def)
  from handling_leaving[OF h] obtain p where p: "slot_at (ptab k) i = Some p" by metis
  have at: "in_state Running (ptab k ! j) \<longleftrightarrow> j = i" if "j < length (ptab k)" for j
    using o[of j] that unfolding slot_at_def by simp
  show ?thesis by (rule position_unique[OF slot_at_lt[OF p]]) (use at slot_at_lt[OF p] in blast)+
qed

lemma end_of_process_eq:
  assumes h: "handling R i k"
  shows "exit_current st k = leave (exited_state i st k)" "fault k = leave (exited_state i FAULT_STATUS k)"
proof -
  from handling_leaving[OF h] obtain p where p: "slot_at (ptab k) i = Some p" "pstate p = Running" "tpidr k = Some i"
    "current_id k = Some i" by metis
  show "exit_current st k = leave (exited_state i st k)" using p handling_position[OF h] by (simp add: exit_current_def exited_state_def)
  have "in_state Running (slot_at (ptab k) i)" using p by (simp add: in_state_def)
  then show "fault k = leave (exited_state i FAULT_STATUS k)" using p by (simp add: fault_def exited_state_def)
qed

lemma exit_current_handled: "handling R i k \<Longrightarrow> exit_current st k = Some r \<Longrightarrow> handled R i k r"
  using exiting_handled[of R i k st r] by (simp add: end_of_process_eq(1))

lemma fault_handled: "handling R i k \<Longrightarrow> fault k = Some r \<Longrightarrow> handled R i k r"
  using exiting_handled[of R i k FAULT_STATUS r] by (simp add: end_of_process_eq(2))

subsection \<open>Interrupts\<close>

definition timer_only :: "kernel \<Rightarrow> kernel \<Rightarrow> bool" where
  "timer_only k k' \<longleftrightarrow> (\<exists>a b c d e. k' = k\<lparr>tmr := a, timers := b, cval := c, timer_on := d, need_resched := e\<rparr>)"

lemma timer_only_trans: "timer_only k l \<Longrightarrow> timer_only l m \<Longrightarrow> timer_only k m"
  unfolding timer_only_def by (elim exE, simp, intro exI, rule refl)

lemma timer_only_same:
  "timer_only k k" "timer_only k (upd_timer i f k)" "timer_only k (arm_hardware k)" "timer_only k (k\<lparr>need_resched := b\<rparr>)"
proof -
  have t: "timer_only k (k\<lparr>tmr := a, timers := b, cval := c, timer_on := d, need_resched := e\<rparr>)" for a b c d e
    unfolding timer_only_def by blast
  show "timer_only k k" using t[where a = "tmr k" and b = "timers k" and c = "cval k" and d = "timer_on k" and e = "need_resched k"] by simp
  show "timer_only k (upd_timer i f k)"
    using t[where a = "(tmr k)(i := f (tmr k i))" and b = "timers k" and c = "cval k" and d = "timer_on k" and e = "need_resched k"] by (simp add: upd_timer_def)
  show "timer_only k (k\<lparr>need_resched := b\<rparr>)" using t[where a = "tmr k" and b = "timers k" and c = "cval k" and d = "timer_on k" and e = b] by simp
  show "timer_only k (arm_hardware k)"
    using t[where a = "tmr k" and b = "timers k" and c = "cval k" and d = False and e = "need_resched k"]
      t[where a = "tmr k" and b = "timers k" and d = True and e = "need_resched k"]
    by (simp add: arm_hardware_def split: list.split)
qed

lemma fire_timer_only: "fire_timer tick_fire tm i k = Some k' \<Longrightarrow> timer_only k k'"
proof -
  have s: "timer_only k (j\<lparr>need_resched := True\<rparr>)" if "timer_only k j" for j by (rule timer_only_trans[OF that timer_only_same(4)])
  have u: "timer_only k (upd_timer i f j)" if "timer_only k j" for j f by (rule timer_only_trans[OF that timer_only_same(2)])
  show "fire_timer tick_fire tm i k = Some k' \<Longrightarrow> timer_only k k'"
    by (auto simp: fire_timer_def tick_fire_def Let_def bind_eq_Some_conv timer_only_same(1) s u split: if_split_asm)
qed

lemma fire_due_only: "fire_due tick_fire tm ts k = Some k' \<Longrightarrow> timer_only k k'"
proof (induction ts arbitrary: k)
  case Nil
  then show ?case by (simp add: timer_only_same(1))
next
  case (Cons x ts)
  show ?case
  proof (cases x)
    case None
    then show ?thesis using Cons by simp
  next
    case (Some i)
    with Cons.prems obtain k1 where "fire_timer tick_fire tm i k = Some k1" "fire_due tick_fire tm ts k1 = Some k'"
      by (auto simp: bind_eq_Some_conv)
    then show ?thesis using fire_timer_only Cons.IH timer_only_trans by blast
  qed
qed

lemma timer_handler_only: "timer_interrupt_handler tick_fire tm k = Some k' \<Longrightarrow> timer_only k k'"
  unfolding timer_interrupt_handler_def
  by (auto simp: bind_eq_Some_conv dest!: fire_due_only intro: timer_only_trans[OF _ timer_only_same(3)])

lemma timer_only_calm: "base_inv R k \<Longrightarrow> timer_only k k' \<Longrightarrow> calm R S k k'"
  by (auto simp: timer_only_def calm_def same_cpu_def base_inv_def keeps_refl tables_ok)

lemma route_used: "route x k = Some h \<Longrightarrow> h < nused k"
  by (auto simp: route_def split: option.splits dest: channel_ofD)

lemma irq_source_calm:
  assumes b: "base_inv R k" and run: "irq_source x k = Some k'"
  shows "calm R S k k'"
proof -
  from run consider "timer_interrupt_handler tick_fire (count k) k = Some k'"
    | r h where "route x k = Some h" "on_channel h (try_send kern_sched (irq_message x)) k = Some (r, k')"
    | "k' = disable_interrupt x k"
    by (auto simp: irq_source_def results split: if_split_asm)
  then show ?thesis
  proof cases
    case 1
    then show ?thesis by (intro timer_only_calm[OF b] timer_handler_only)
  next
    case (2 r h)
    have p: "\<exists>r ch' k'. try_send kern_sched (irq_message x) ch k = Some (r, ch', k') \<and> chan_inv ch' \<and> table_only k k' \<and> True"
      if "chan_inv ch" for ch using kern.P_try_send[OF that, of "irq_message x" k] by simp
    from on_channel_calm[where f = "try_send kern_sched (irq_message x)" and S = S and Q = "\<lambda>_. True", OF b route_used[OF 2(1)] p]
    obtain r' k1 where "on_channel h (try_send kern_sched (irq_message x)) k = Some (r', k1)" "calm R S k k1" by metis
    then show ?thesis using 2(2) by simp
  qed (simp add: enable_calm[OF b])
qed

lemma irq_resched_cases:
  assumes "irq_resched k = Some (sw, k')"
  obtains "sw = False" and "k' = k"
  | "sw = False" and "tpidr k = None" and "k' = k\<lparr>need_resched := False, ptab := check_deadlines (count k) (ptab k)\<rparr>"
  | "tpidr k \<noteq> None" and "resched Preempted (k\<lparr>need_resched := False, ptab := check_deadlines (count k) (ptab k)\<rparr>) = Some (sw, k')"
proof (cases "need_resched k")
  case False
  then show thesis using assms that(1) by (simp add: irq_resched_def)
next
  case True
  show thesis
  proof (cases "tpidr k")
    case None
    then show thesis using assms True that(2) by (simp add: irq_resched_def)
  next
    case (Some i)
    then show thesis using assms True that(3) by (simp add: irq_resched_def)
  qed
qed

lemma deadlines_calm:
  assumes b: "base_inv R k"
  shows "calm R S k (k\<lparr>need_resched := False, ptab := check_deadlines (count k) (ptab k)\<rparr>)"
proof -
  have c: "calm R S k (k\<lparr>need_resched := False\<rparr>)" by (rule calm_other(4)[OF b])
  have "calm R S (k\<lparr>need_resched := False\<rparr>) (k\<lparr>need_resched := False, ptab := check_deadlines (count k) (ptab k)\<rparr>)"
    by (rule calm_table[OF calm_base[OF b c]]) (simp add: mild_ops(4))
  then show ?thesis by (rule calm_trans[OF c])
qed

lemma irq_first: "base_inv R k \<Longrightarrow> irq iar k = Some r \<Longrightarrow>
    \<exists>k1 sw. calm R S k k1 \<and> irq_resched k1 = Some (sw, snd r) \<and> fst r = (if sw then Switched else Stay)"
proof -
  assume b: "base_inv R k" and run: "irq iar k = Some r"
  from run[unfolded irq_def bind_eq_Some_conv] obtain k1 y where
    k: "(case try_ack_interrupt iar k of None \<Rightarrow> Some k | Some x \<Rightarrow> irq_source x k) = Some k1" "irq_resched k1 = Some y"
      "(case y of (sw, k2) \<Rightarrow> Some (if sw then Switched else Stay, k2)) = Some r" by blast
  obtain sw k2 where y: "y = (sw, k2)" by (cases y)
  have r: "r = (if sw then Switched else Stay, k2)" using k(3) unfolding y by simp
  have "calm R S k k1"
  proof (cases "try_ack_interrupt iar k")
    case None
    then show ?thesis using k(1) calm_refl[OF b] by simp
  next
    case (Some x)
    then show ?thesis using k(1) irq_source_calm[OF b] by simp
  qed
  then have "calm R S k k1 \<and> irq_resched k1 = Some (sw, snd r) \<and> fst r = (if sw then Switched else Stay)"
    using k(2) unfolding y r by simp
  then show ?thesis by (intro exI)
qed

lemma irq_handled:
  assumes h: "handling R i k" and run: "irq iar k = Some r"
  shows "handled R i k r"
proof -
  from irq_first[OF handling_base[OF h] run] obtain k1 sw where k1: "calm R {root_of k i} k k1"
    "irq_resched k1 = Some (sw, snd r)" "fst r = (if sw then Switched else Stay)" by blast
  have u: "during R i k R k1" by (rule calm_during[OF h k1(1)])
  note h1 = during_handling[OF u]
  have "handled R i k1 (if sw then Switched else Stay, snd r)" using k1(2)
  proof (cases rule: irq_resched_cases)
    case 1
    then show ?thesis using during_Stay[OF during_refl[OF h1]] by simp
  next
    case 2
    then show ?thesis using handling_leaving[OF h1] by (metis option.distinct(1))
  next
    case 3
    let ?k = "k1\<lparr>need_resched := False, ptab := check_deadlines (count k1) (ptab k1)\<rparr>"
    have v: "during R i k1 R ?k" by (rule calm_during[OF h1 deadlines_calm[OF handling_base[OF h1]]])
    have "handled R i ?k (if sw then Switched else Stay, snd r)"
      by (rule resched_handled(1)[OF during_handling[OF v] _ 3(2)]) (simp add: cont_ok_def)
    then show ?thesis by (rule during_handled[OF v])
  qed
  then show ?thesis using during_handled[OF u] k1(3) by (metis prod.collapse)
qed

subsection \<open>Traps\<close>

lemma ret1_handled:
  assumes h: "handling R i k" and c: "calm R {root_of k i} k (snd x)" and run: "ret1 x = Some r"
  shows "handled R i k r"
  using run calm_Stay[OF h calm_regs(1)[OF handling_base[OF h] c]] by (auto simp: ret1_def)

lemma ret2_handled:
  assumes h: "handling R i k" and c: "calm R {root_of k i} k (snd x)" and run: "ret2 x = Some r"
  shows "handled R i k r"
  using run calm_Stay[OF h calm_regs(1)[OF handling_base[OF h] calm_regs(1)[OF handling_base[OF h] c]]]
  by (auto simp: ret2_def)

lemma bind_ret1_handled:
  assumes h: "handling R i k" and run: "y \<bind> ret1 = Some r" and c: "\<And>x k'. y = Some (x, k') \<Longrightarrow> calm R {root_of k i} k k'"
  shows "handled R i k r"
proof -
  from run[unfolded bind_eq_Some_conv] obtain x where x: "y = Some x" "ret1 x = Some r" by blast
  show ?thesis by (rule ret1_handled[OF h _ x(2)]) (use c x(1) in \<open>cases x; simp\<close>)
qed

lemma bind_ret2_handled:
  assumes h: "handling R i k" and run: "y \<bind> ret2 = Some r" and c: "\<And>x k'. y = Some (x, k') \<Longrightarrow> calm R {root_of k i} k k'"
  shows "handled R i k r"
proof -
  from run[unfolded bind_eq_Some_conv] obtain x where x: "y = Some x" "ret2 x = Some r" by blast
  show ?thesis by (rule ret2_handled[OF h _ x(2)]) (use c x(1) in \<open>cases x; simp\<close>)
qed

lemma yield_handled:
  assumes h: "handling R i k" and run: "yield_current k = Some r"
  shows "handled R i k r"
proof -
  from run[unfolded yield_current_def bind_eq_Some_conv] obtain y where
    y: "resched Yielded k = Some y" "(case y of (sw, k1) \<Rightarrow> Some (if sw then Switched else Stay, k1)) = Some r" by blast
  obtain sw k1 where s: "y = (sw, k1)" by (cases y)
  have "r = (if sw then Switched else Stay, k1)" using y(2) unfolding s by simp
  then show ?thesis using resched_handled(1)[OF h _ y(1)[unfolded s]] by (simp add: cont_ok_def)
qed

lemma spawn_handled:
  assumes h: "handling R i k" and run: "sys_spawn a b c k \<bind> ret1 = Some r"
  shows "handled R i k r"
proof -
  from run[unfolded bind_eq_Some_conv] obtain x k' where x: "sys_spawn a b c k = Some (x, k')" "ret1 (x, k') = Some r" by fast
  from sys_spawn_during[OF h x(1)] obtain R' where u: "during R i k R' k'" by blast
  note h' = during_handling[OF u]
  have "handled R' i k' r" by (rule ret1_handled[OF h' _ x(2)]) (simp add: calm_refl[OF handling_base[OF h']])
  then show ?thesis by (rule during_handled[OF u])
qed

text \<open>Any system call but \<open>SYS_KILL\<close> of the caller itself.\<close>

definition kills_self :: "trap_frame \<Rightarrow> usize \<Rightarrow> bool" where
  "kills_self f i \<longleftrightarrow> gpr f 8 = SYS_KILL \<and> unat (gpr f 0) = i"

lemma svc_handled:
  assumes h: "handling R i k" and n: "\<not> kills_self f i" and run: "svc f k = Some r"
  shows "handled R i k r"
proof -
  note b = handling_base[OF h]
  note msg = message_calls_handled[OF h]
  let ?x = "gpr f"
  from run consider
      "yield_current k = Some r" | "sys_send (?x 0) (?x 1) (?x 2) (?x 3) (?x 4) k = Some r"
    | "sys_receive (?x 0) (?x 1) (?x 2) k = Some r" | "sys_reply (?x 0) (?x 1) (?x 2) (?x 3) (?x 4) k = Some r"
    | "ret1 (sys_irq_claim (?x 0) (?x 1) k) = Some r" | "sys_map_mmio (?x 0) (?x 1) (?x 2) k \<bind> ret1 = Some r"
    | "ret1 (sys_createchan k) = Some r" | "sys_alloc (?x 0) k \<bind> ret1 = Some r" | "ret1 (sys_free (?x 0) k) = Some r"
    | "sys_spawn (?x 0) (?x 1) (?x 2) k \<bind> ret1 = Some r" | "ret1 (sys_clock (?x 0) k, k) = Some r"
    | "sys_receive_at (?x 0) (?x 1) (?x 2) (?x 3) k = Some r" | "sys_alloc_page k \<bind> ret2 = Some r"
    | "(let (y, t) = sys_wait (?x 0) (ptab k) in ret2 (y, k\<lparr>ptab := t\<rparr>)) = Some r"
    | "gpr f 8 = SYS_KILL" "ret1 (sys_kill (?x 0) k) = Some r" | "ret1 (sys_setprio (?x 0) (?x 1) k) = Some r"
    | "sys_print (?x 0) (?x 1) k \<bind> ret1 = Some r" | st where "exit_current st k = Some r"
    unfolding svc_def Let_def by (simp only: split: if_split_asm)
  then show ?thesis
  proof cases
    case 1 then show ?thesis by (rule yield_handled[OF h])
  next
    case 2 then show ?thesis by (rule msg(1))
  next
    case 3 then show ?thesis by (rule msg(3))
  next
    case 4 then show ?thesis by (rule msg(2))
  next
    case 5 then show ?thesis by (rule ret1_handled[OF h sys_irq_claim_calm[OF b]])
  next
    case 6 then show ?thesis by (rule bind_ret1_handled[OF h]) (rule sys_map_mmio_calm[OF h])
  next
    case 7 then show ?thesis by (rule ret1_handled[OF h sys_createchan_calm[OF b]])
  next
    case 8
    then show ?thesis
      by (rule bind_ret1_handled[OF h]) (use heap_grow_calm[OF h] in \<open>auto simp: sys_alloc_def results\<close>)
  next
    case 9
    then show ?thesis by (rule ret1_handled[OF h, rotated]) (simp add: sys_free_def heap_shrink_calm[OF h])
  next
    case 10 then show ?thesis by (rule spawn_handled[OF h])
  next
    case 11 then show ?thesis by (rule ret1_handled[OF h, rotated]) (simp add: calm_refl[OF b])
  next
    case 12 then show ?thesis by (rule msg(4))
  next
    case 13
    then show ?thesis
      by (rule bind_ret2_handled[OF h]) (use heap_alloc_page_calm[OF h] in \<open>auto simp: sys_alloc_page_def results\<close>)
  next
    case 14
    obtain y t where w: "sys_wait (?x 0) (ptab k) = (y, t)" by (cases "sys_wait (?x 0) (ptab k)")
    have "mild_change (ptab k) t" using sys_wait_mild[of "ptab k" "?x 0"] w by simp
    from calm_table[OF b this] 14 show ?thesis by (intro ret2_handled[OF h, of "(y, k\<lparr>ptab := t\<rparr>)"]) (simp_all add: w)
  next
    case 15
    have "unat (?x 0) \<noteq> i" using n 15(1) by (simp add: kills_self_def)
    from ret1_handled[OF h sys_kill_calm[OF h this] 15(2)] show ?thesis .
  next
    case 16 then show ?thesis by (rule ret1_handled[OF h sys_setprio_calm[OF b]])
  next
    case 17 then show ?thesis by (rule bind_ret1_handled[OF h]) (rule sys_print_calm[OF b])
  next
    case (18 st) then show ?thesis by (rule exit_current_handled[OF h])
  qed
qed

lemma trap_handled:
  assumes h: "handling R i k" and n: "\<not> kills_self f i" and run: "trap f iar k = Some r"
  shows "handled R i k r"
proof -
  from run consider "irq iar k = Some r" | "svc f k = Some r" | "fault k = Some r"
    by (auto simp: trap_def bind_eq_Some_conv case_sum_eq split: if_split_asm)
  then show ?thesis using irq_handled[OF h] svc_handled[OF h n] fault_handled[OF h] by cases
qed

subsection \<open>Steps\<close>

lemma base_inv_depths: "base_inv R k \<Longrightarrow> base_inv R (k\<lparr>depths := (depths k)[core k := d]\<rparr>)"
  by (simp add: base_inv_def tables_ok)

lemma trap_exit_inv:
  assumes hd: "handled R i k r" and run: "trap_exit User r = Some x"
  shows "\<exists>R'. mem_step R (root_of k i) (mem k) R' (mem (snd x)) \<and> kernel_inv R' x"
proof -
  obtain sw k1 where r: "r = (sw, k1)" by (cases r)
  from hd obtain R' where R': "mem_step R (root_of k i) (mem k) R' (mem k1)"
    "case sw of Stay \<Rightarrow> handling R' i k1 | Switched \<Rightarrow> kernel_inv R' (Loaded, k1) | ToStarter \<Rightarrow> kernel_inv R' (Starter, k1)"
    unfolding handled_def r fst_conv snd_conv by blast
  show ?thesis
  proof (cases sw)
    case Stay
    then have h: "handling R' i k1" using R'(2) by simp
    note b = handling_base[OF h]
    from h have d: "depth k1 = 1" "on_cpu k1 i" "starter k1" by (simp_all add: handling_def)
    have x: "x = (User, k1\<lparr>depths := (depths k1)[core k1 := 0]\<rparr>)"
      using run exit_interrupt_eq[OF base_invD(5)[OF b]] d(1) by (simp add: r Stay trap_exit_def depth_def)
    have "kernel_inv R' x" unfolding x using base_inv_depths[OF b] d depth_upd[OF base_invD(5)[OF b]]
      by (auto simp: on_cpu_def root_of_def)
    then show ?thesis using R'(1) by (intro exI[of _ R']) (simp add: x)
  next
    case Switched
    then show ?thesis using run R' by (intro exI[of _ R']) (auto simp: r trap_exit_def simp del: kernel_inv.simps)
  next
    case ToStarter
    then show ?thesis using run R' by (intro exI[of _ R']) (auto simp: r trap_exit_def simp del: kernel_inv.simps)
  qed
qed

lemma entered:
  assumes b: "base_inv R k" and d: "depth k = 0" and run: "enter_interrupt k = Some k1"
  shows "k1 = k\<lparr>depths := (depths k)[core k := 1]\<rparr>" "base_inv R k1" "depth k1 = 1"
proof -
  show k1: "k1 = k\<lparr>depths := (depths k)[core k := 1]\<rparr>"
    using run d enter_interrupt_eq[OF base_invD(5)[OF b]] by (simp add: depth_def)
  show "base_inv R k1" unfolding k1 by (rule base_inv_depths[OF b])
  show "depth k1 = 1" unfolding k1 by (rule depth_upd[OF base_invD(5)[OF b]])
qed

lemma entered_handling:
  assumes "base_inv R k" and "depth k = 0" and "on_cpu k i" and "starter k" and "enter_interrupt k = Some k1"
  shows "handling R i k1" "root_of k1 i = root_of k i" "mem k1 = mem k" "nused k1 = nused k"
proof -
  note E = entered[OF assms(1,2,5)]
  show "root_of k1 i = root_of k i" "mem k1 = mem k" "nused k1 = nused k" unfolding E(1) by (simp_all add: root_of_def)
  have "on_cpu k1 i" using assms(3) unfolding E(1) by (simp add: on_cpu_def root_of_def)
  then show "handling R i k1" using E(2,3) assms(4) unfolding handling_def by (simp add: E(1))
qed

lemma user_trap_inv:
  assumes inv: "kernel_inv R (User, k)" and n: "\<And>i. tpidr k = Some i \<Longrightarrow> \<not> kills_self f i"
    and run: "trap_unsafe f iar k = Some x"
  shows "\<exists>i R'. on_cpu k i \<and> mem_step R (root_of k i) (mem k) R' (mem (snd x)) \<and> kernel_inv R' x"
proof -
  from inv obtain i where b: "base_inv R k" "depth k = 0" "starter k" "on_cpu k i" by auto
  let ?k = "k\<lparr>frames := (frames k)[i := f]\<rparr>"
  have t: "tpidr k = Some i" using b(4) by (simp add: on_cpu_def)
  from run t obtain k1 r where s: "enter_interrupt ?k = Some k1" "trap f iar k1 = Some r" "trap_exit User r = Some x"
    by (auto simp: trap_unsafe_def bind_eq_Some_conv)
  have b': "base_inv R ?k" "depth ?k = 0" "starter ?k" "on_cpu ?k i"
    using b by (simp_all add: base_inv_def tables_ok depth_def on_cpu_def root_of_def)
  note E = entered_handling[OF b'(1,2,4,3) s(1)]
  from trap_exit_inv[OF trap_handled[OF E(1) n[OF t] s(2)] s(3)]
  obtain R' where "mem_step R (root_of k1 i) (mem k1) R' (mem (snd x))" "kernel_inv R' x" by blast
  moreover have "root_of ?k i = root_of k i" by (simp add: root_of_def)
  ultimately show ?thesis using E(2,3) b(4) by auto
qed

lemma continue_handled:
  assumes h: "handling R i k" and c: "cont_ok (nused k) c" and run: "continue_handler c k = Some r"
  shows "handled R i k r"
proof -
  note b = handling_base[OF h]
  have stay: "handled R i k (Stay, k)" by (rule during_Stay[OF during_refl[OF h]])
  show ?thesis
  proof (cases c)
    case (InSend n msg)
    then show ?thesis using send_on_total[OF h, of n msg] c run by (auto simp: continue_handler_def cont_ok_def)
  next
    case (InReceive n d cap)
    then show ?thesis using receive_on_handled[OF h, of n] c run by (simp add: continue_handler_def cont_ok_def)
  next
    case (InReceiveAt n d cap dl)
    then show ?thesis using receive_at_on_handled[OF h, of n] c run by (simp add: continue_handler_def cont_ok_def)
  next
    case Preempted
    then show ?thesis using calm_Stay[OF h calm_other(1)[OF b]] run by (auto simp: continue_handler_def)
  qed (use stay run c in \<open>auto simp: continue_handler_def cont_ok_def\<close>)
qed

lemma load_inv:
  assumes inv: "kernel_inv R (Loaded, k)" and run: "resume k = Some x"
  shows "\<exists>i R'. on_cpu k i \<and> mem_step R (root_of k i) (mem k) R' (mem (snd x)) \<and> kernel_inv R' x"
proof -
  from inv obtain i p where b: "base_inv R k" "depth k = 0" "starter k" "on_cpu k i" and p: "slot_at (ptab k) i = Some p"
    "cont_ok (nused k) (pcontext p)" by auto
  have cp: "current_process k = Some p" using b(4) p(1) by (simp add: on_cpu_def current_process_def)
  show ?thesis
  proof (cases "pcontext p = ForkRet")
    case True
    then have "x = (User, k)" using run cp by (simp add: resume_def)
    then show ?thesis using b by (intro exI[of _ i] exI[of _ R]) auto
  next
    case False
    with run cp obtain k1 r where s: "enter_interrupt k = Some k1" "continue_handler (pcontext p) k1 = Some r"
      "trap_exit User r = Some x" by (auto simp: resume_def bind_eq_Some_conv)
    note E = entered_handling[OF b(1,2,4,3) s(1)]
    have "handled R i k1 r" using continue_handled[OF E(1) _ s(2)] p(2) E(4) by simp
    from trap_exit_inv[OF this s(3)] show ?thesis unfolding E(2,3) using b(4) by blast
  qed
qed

lemma idle_irq_inv:
  assumes inv: "kernel_inv R (Starter, k)" and run: "kernel_irq iar k = Some x"
  shows "keeps R {} (mem k) (mem (snd x)) \<and> kernel_inv R x"
proof -
  from inv have b: "base_inv R k" "depth k = 0" "tpidr k = None" and nr: "\<And>j. \<not> in_state Running (slot_at (ptab k) j)" by auto
  from run obtain k1 r where s: "enter_interrupt k = Some k1" "irq iar k1 = Some r" "trap_exit Starter r = Some x"
    by (auto simp: kernel_irq_def bind_eq_Some_conv)
  note E = entered[OF b(1,2) s(1)]
  from irq_first[OF E(2) s(2), of "{}"] obtain k2 sw where k2: "calm R {} k1 k2" "irq_resched k2 = Some (sw, snd r)"
    "fst r = (if sw then Switched else Stay)" by blast
  have t: "tpidr k2 = None" using k2(1) b(3) unfolding E(1) by (simp add: calm_def same_cpu_def)
  have b2: "base_inv R k2" by (rule calm_base[OF E(2) k2(1)])
  have k3: "calm R {} k1 (snd r) \<and> sw = False" using k2(2)
  proof (cases rule: irq_resched_cases)
    case 2
    then show ?thesis using calm_trans[OF k2(1) deadlines_calm[OF b2]] by simp
  qed (use k2(1) t in simp_all)
  let ?k = "snd r"
  have b3: "base_inv R ?k" "depth ?k = 1" using calm_base[OF E(2)] calm_depth[of R "{}" k1 ?k] k3 E(3) by auto
  have x: "x = (Starter, ?k\<lparr>depths := (depths ?k)[core ?k := 0]\<rparr>)"
    using s(3) k2(3) k3 exit_interrupt_eq[OF base_invD(5)[OF b3(1)]] b3(2)
    by (cases r) (simp add: trap_exit_def depth_def)
  have m: "mild_change (ptab k1) (ptab ?k)" "tpidr ?k = tpidr k1" "keeps R {} (mem k1) (mem ?k)"
    using k3 by (simp_all add: calm_def same_cpu_def)
  have "\<not> in_state Running (slot_at (ptab ?k) j)" for j
    unfolding mild_change_Running[OF m(1)] using nr by (simp add: E(1))
  then show ?thesis unfolding x using base_inv_depths[OF b3(1)] depth_upd[OF base_invD(5)[OF b3(1)]] m(2,3) b(3)
    by (simp add: E(1))
qed

lemma register_timer_only: "timer_only k (snd (register_timer i k))"
proof -
  have t: "timer_only k (k\<lparr>timers := b\<rparr>)" for b
    unfolding timer_only_def
    by (rule exI[of _ "tmr k"], rule exI[of _ b], rule exI[of _ "cval k"], rule exI[of _ "timer_on k"], rule exI[of _ "need_resched k"]) simp
  show ?thesis by (simp add: register_timer_def t timer_only_same(1) split: option.split)
qed

lemma timer_start_only: "timer_start f tm i k = Some (b, k') \<Longrightarrow> timer_only k k'"
proof -
  assume run: "timer_start f tm i k = Some (b, k')"
  then obtain g where g: "(case register_timer i (upd_timer i g k) of
        (False, st2) \<Rightarrow> Some (False, upd_timer i (\<lambda>t. t\<lparr>t_active := False\<rparr>) st2)
      | (True, st2) \<Rightarrow> Some (True, arm_hardware st2)) = Some (b, k')"
    by (auto simp: timer_start_def bind_eq_Some_conv Let_def split: if_split_asm)
  let ?k = "snd (register_timer i (upd_timer i g k))"
  have 1: "timer_only k ?k" by (rule timer_only_trans[OF timer_only_same(2) register_timer_only])
  have "k' = upd_timer i (\<lambda>t. t\<lparr>t_active := False\<rparr>) ?k \<or> k' = arm_hardware ?k"
    using g by (auto split: prod.split_asm bool.split_asm)
  then show ?thesis using timer_only_trans[OF 1] timer_only_same(2,3) by blast
qed

lemma run_all_inv:
  assumes inv: "kernel_inv R (Starter, k)" and run: "run_all k = Some k'"
  shows "mem_step R r (mem k) R (mem k') \<and> kernel_inv R (Loaded, k')"
proof -
  from inv have b: "base_inv R k" "depth k = 0" and nr: "\<And>j. \<not> in_state Running (slot_at (ptab k) j)" by auto
  from run obtain k1 i p where s: "k1 = k \<or> (\<exists>ok. timer_start (freq k) (count k) TICK_TIMER (k\<lparr>tick_started := True\<rparr>) = Some (ok, k1))"
    "position (in_state Runnable) (ptab k1) = Some i" "ptab k1 ! i = Some p"
    "k' = k1\<lparr>ptab := (ptab k1)[i := Some (p\<lparr>pstate := Running\<rparr>)], tpidr := Some i, mem := aspace_install (paspace p) (mem k1), starter := True\<rparr>"
    by (auto simp: run_all_def bind_eq_Some_conv split: if_split_asm)
  let ?k0 = "k\<lparr>tick_started := True\<rparr>"
  have b0: "base_inv R ?k0" using b(1) by (simp add: base_inv_def tables_ok)
  have "base_inv R k1 \<and> depth k1 = 0 \<and> ptab k1 = ptab k \<and> mem k1 = mem k"
  proof (cases "k1 = k")
    case False
    with s(1) timer_start_only have "timer_only ?k0 k1" by blast
    then show ?thesis using timer_only_calm[OF b0, of k1 "{}"] calm_base[OF b0] b(2) by (auto simp: timer_only_def depth_def)
  qed (use b in simp)
  then have b1: "base_inv R k1" "depth k1 = 0" "ptab k1 = ptab k" "mem k1 = mem k" by simp_all
  note B = base_invD[OF b1(1)] and P = position_Some[OF s(2)]
  have sl: "slot_at (ptab k1) i = Some p" "pstate p = Runnable" using P s(3) by (auto simp: slot_at_def in_state_def)
  note Q = procs_okD[OF B(2) sl(1)]
  let ?t = "(ptab k1)[i := Some (p\<lparr>pstate := Running\<rparr>)]"
  have t: "procs_ok R (ttbr1 (mem k1)) (canaries k1) (nused k1) ?t" by (rule procs_ok_upd[OF B(2) sl(1)]) simp_all
  have il: "i < length (ptab k1)" using P by simp
  have "in_state Running (slot_at ?t j) \<longleftrightarrow> j = i" for j using nr[of j] il by (auto simp: Running_upd b1(3))
  then have "on_cpu k' i" unfolding s(4) on_cpu_def root_of_def using il by (simp add: slot_at_upd)
  moreover have "slot_at (ptab k') i = Some (p\<lparr>pstate := Running\<rparr>)" unfolding s(4) using il by (simp add: slot_at_upd)
  moreover have "base_inv R k'" unfolding s(4) base_inv_def tables_ok
    using t B[unfolded tables_ok] install_inv[OF B(1) Q(3)] by simp
  moreover have "depth k' = 0" "starter k'" "nused k' = nused k1" using b1(2) unfolding s(4) by (simp_all add: depth_def)
  moreover have "mem_step R r (mem k) R (mem k')" unfolding s(4) using b1(4) by simp
  ultimately show ?thesis using Q(5) sl(2) by auto
qed

end
