(* ===== verification/Kernel_System.thy ===== *)
theory Kernel_System
  imports Kernel_Steps
begin

section \<open>The whole system keeps its invariant\<close>

text \<open>
  Starting processes from the kernel, every step of the system, and runs: finite sequences of steps in
  which no process kills itself.
\<close>

subsection \<open>Starting processes from the kernel\<close>

lemma spawn_raw_makes:
  assumes inv: "vm_inv R (mem k)" and run: "spawn_raw txt tv sv k = Some (j, k')"
  obtains a m elr usp hb where "makes R (root_pa a) (mem k) m"
    and "try_install a elr usp hb DEFAULT_PRIORITY None (k\<lparr>mem := m\<rparr>) = Some (Some j, k')"
proof -
  from run obtain a m1 kt m2 m3 x m4 kh m5 m6 m7 top where s: "aspace_new (mem k) = Some (a, m1)"
    "must_map ro_user_text tv a m1 = Some (kt, m2)" "store_bytes kt txt m2 = Some m3"
    "must_map rw_user_data sv a m3 = Some (x, m4)" "must_map rw_user_data HANDLES_VA a m4 = Some (kh, m5)"
    "store_bytes kh (le_bytes8 1) m5 = Some m6" "store_bytes (kh + 8) (le_bytes8 0) m6 = Some m7"
    "install a (of_nat tv) (top - 16) top None (k\<lparr>mem := m7\<rparr>) = Some (j, k')"
    unfolding spawn_raw_def by (auto simp: bind_eq_Some_conv split: if_split_asm)
  let ?R = "insert (root_pa a) R"
  have k1: "makes R (root_pa a) (mem k) m1" by (rule aspace_new_makes[OF inv s(1)])
  have g2: "grown ?R a m1 m2" by (rule must_map_grown[OF makesD(2)[OF k1] _ _ s(2)]) simp_all
  have g3: "grown ?R a m1 m3" by (rule grown_trans[OF g2 store_bytes_grown[OF grown_inv[OF g2] s(3)]])
  have g4: "grown ?R a m1 m4" by (rule grown_trans[OF g3 must_map_grown[OF grown_inv[OF g3] _ _ s(4)]]) simp_all
  have g5: "grown ?R a m1 m5" by (rule grown_trans[OF g4 must_map_grown[OF grown_inv[OF g4] _ _ s(5)]]) simp_all
  have g6: "grown ?R a m1 m6" by (rule grown_trans[OF g5 store_bytes_grown[OF grown_inv[OF g5] s(6)]])
  have g7: "grown ?R a m1 m7" by (rule grown_trans[OF g6 store_bytes_grown[OF grown_inv[OF g6] s(7)]])
  show thesis by (rule that[OF makes_grown[OF k1 g7]]) (use s(8) in \<open>auto simp: install_def bind_eq_Some_conv\<close>)
qed

lemma spawn_elf_makes:
  assumes inv: "vm_inv R (mem k)" and run: "spawn_elf bytes hs k = Some (j, k')"
  obtains a m elr usp hb sy where "makes R (root_pa a) (mem k) m"
    and "try_install a elr usp hb DEFAULT_PRIORITY sy (k\<lparr>mem := m\<rparr>) = Some (Some j, k')"
proof -
  from run obtain l m1 m2 where s: "load_elf bytes (mem k) = Some (l, m1)"
    "(case hs of None \<Rightarrow> Some m1 | Some h \<Rightarrow> do { (kptr, m') \<leftarrow> must_map rw_user_data HANDLES_VA (ld_aspace l) m1;
        store_bytes kptr (handles_header h) m' }) = Some m2"
    "install (ld_aspace l) (ld_entry l) (ld_user_sp l) (ld_heap_base l) (image_syms bytes l) (k\<lparr>mem := m2\<rparr>) = Some (j, k')"
    unfolding spawn_elf_def by (auto simp: bind_eq_Some_conv)
  let ?a = "ld_aspace l" let ?R = "insert (root_pa ?a) R"
  have k1: "makes R (root_pa ?a) (mem k) m1" by (rule load_elf_makes[OF inv s(1)])
  have "grown ?R ?a m1 m2"
  proof (cases hs)
    case None
    then show ?thesis using s(2) grown_refl[OF makesD(2)[OF k1]] by simp
  next
    case (Some h)
    then obtain kp m' where m: "must_map rw_user_data HANDLES_VA ?a m1 = Some (kp, m')" "store_bytes kp (handles_header h) m' = Some m2"
      using s(2) by (auto simp: bind_eq_Some_conv)
    have g: "grown ?R ?a m1 m'" by (rule must_map_grown[OF makesD(2)[OF k1] _ _ m(1)]) simp_all
    show ?thesis by (rule grown_trans[OF g store_bytes_grown[OF grown_inv[OF g] m(2)]])
  qed
  then show thesis by (intro that[OF makes_grown[OF k1]]) (use s(3) in \<open>auto simp: install_def bind_eq_Some_conv\<close>)
qed

lemma spawn_inv:
  assumes inv: "kernel_inv R (Starter, k)" and run: "spawn img k = Some (j, k')"
  shows "\<exists>R'. mem_step R r (mem k) R' (mem k') \<and> kernel_inv R' (Starter, k')"
proof -
  from inv have b: "base_inv R k" "depth k = 0" "tpidr k = None" "\<And>j. \<not> in_state Running (slot_at (ptab k) j)" by auto
  from run obtain a m elr usp hb sy where m: "makes R (root_pa a) (mem k) m"
    "try_install a elr usp hb DEFAULT_PRIORITY sy (k\<lparr>mem := m\<rparr>) = Some (Some j, k')"
    using spawn_raw_makes[OF base_invD(1)[OF b(1)]] spawn_elf_makes[OF base_invD(1)[OF b(1)]]
    by (cases img) (simp_all add: spawn_def, metis+)
  note I = try_install_base[OF b(1) m]
  have "kernel_inv (insert (root_pa a) R) (Starter, k')" using I(1,3,4,6) b by simp
  then show ?thesis using makes_mem_step[OF m(1)] I(2) by blast
qed

lemma create_inv:
  assumes inv: "kernel_inv R (Starter, k)" and run: "create k = Some (h, k')"
  shows "kernel_inv R (Starter, k')" "mem k' = mem k"
proof -
  from inv have b: "base_inv R k" "depth k = 0" "tpidr k = None" "\<And>j. \<not> in_state Running (slot_at (ptab k) j)" by auto
  have k': "k' = snd (sys_createchan k)" and m: "mem k' = mem k" and t: "ptab k' = ptab k" using run
    by (auto simp: create_def sys_createchan_def try_create_def split: if_split_asm)
  have c: "calm R {} k k'" unfolding k' by (rule sys_createchan_calm[OF b(1)])
  show "kernel_inv R (Starter, k')" using calm_base[OF b(1) c] calm_depth[OF c] b c t by (simp add: calm_def same_cpu_def)
  show "mem k' = mem k" by (rule m)
qed

subsection \<open>One step\<close>

text \<open>The address space a step may change: the one of the process on the CPU.  A spawn only adds one.\<close>

definition served :: "kernel \<Rightarrow> phys_addr" where
  "served k = (case tpidr k of Some i \<Rightarrow> root_of k i | None \<Rightarrow> ttbr1 (mem k))"

text \<open>The process on the CPU does not ask to be killed itself.\<close>

definition polite :: "event \<Rightarrow> kernel \<Rightarrow> bool" where
  "polite e k \<longleftrightarrow> (case e of TrapEv f _ \<Rightarrow> (case tpidr k of Some i \<Rightarrow> \<not> kills_self f i | None \<Rightarrow> True) | _ \<Rightarrow> True)"

lemma on_cpu_served: "on_cpu k i \<Longrightarrow> served k = root_of k i"
  by (simp add: on_cpu_def served_def)

lemma user_store_ram: "user_store va b k = Some k' \<Longrightarrow> \<exists>f. k' = k\<lparr>mem := (mem k)\<lparr>ram := f\<rparr>\<rparr>"
  by (auto simp: user_store_def store_byte_def results split: if_split_asm)

lemma user_calm_inv:
  assumes inv: "kernel_inv R (User, k)" and k': "calm R {} k k'"
  shows "kernel_inv R (User, k')"
proof -
  from inv obtain i where b: "base_inv R k" "depth k = 0" "starter k" "on_cpu k i" by auto
  from k' have m: "keeps R {} (mem k) (mem k')" "mild_change (ptab k) (ptab k')" "same_cpu k k'" by (simp_all add: calm_def)
  from on_cpuD[OF b(4)] obtain p where p: "slot_at (ptab k) i = Some p" "pstate p = Running" by metis
  from mild_change_slot[OF m(2), of i] p obtain q where "slot_at (ptab k') i = Some q" "mild p q"
    by (auto simp: slot_mild_def split: option.splits)
  then have "root_of k' i = root_of k i" using p(1) by (simp add: root_of_def mild_def)
  then have "on_cpu k' i" using b(4) m(3) keepsD(2)[OF m(1)] unfolding on_cpu_def mild_change_Running[OF m(2)]
    by (simp add: same_cpu_def)
  then show ?thesis using calm_base[OF b(1) k'] calm_depth[OF k'] b m(3) by (auto simp: same_cpu_def)
qed

lemma sys_step_inv:
  assumes st: "sys_step e (c, k) (c', k')" and inv: "kernel_inv R (c, k)" and pl: "polite e k"
  shows "\<exists>R'. mem_step R (served k) (mem k) R' (mem k') \<and> kernel_inv R' (c', k')"
  using st
proof (cases rule: sys_step.cases)
  case (user_trap f iar)
  have "\<exists>i R'. on_cpu k i \<and> mem_step R (root_of k i) (mem k) R' (mem k') \<and> kernel_inv R' (c', k')"
    using user_trap_inv[of R k f iar "(c', k')"] inv pl user_trap
    by (simp add: polite_def del: kernel_inv.simps split: option.splits)
  then show ?thesis using on_cpu_served by metis
next
  case load
  have "\<exists>i R'. on_cpu k i \<and> mem_step R (root_of k i) (mem k) R' (mem k') \<and> kernel_inv R' (c', k')"
    using load_inv[of R k "(c', k')"] inv load by (simp del: kernel_inv.simps)
  then show ?thesis using on_cpu_served by metis
next
  case run
  then show ?thesis using run_all_inv[of R k k'] inv by (simp del: kernel_inv.simps) blast
next
  case (idle_irq iar)
  then have "keeps R {} (mem k) (mem k')" "kernel_inv R (c', k')"
    using idle_irq_inv[of R k iar "(c', k')"] inv by (simp_all del: kernel_inv.simps)
  then show ?thesis using keeps_mem_step[OF keeps_mono, of R "{}" "mem k" "mem k'" "served k"] by blast
next
  case (store va b)
  from user_store_ram[OF store(4)] obtain f where f: "k' = k\<lparr>mem := (mem k)\<lparr>ram := f\<rparr>\<rparr>" by blast
  have b: "base_inv R k" using inv store(2) by auto
  have kp: "keeps R S (mem k) ((mem k)\<lparr>ram := f\<rparr>)" for S by (rule keeps_ram[OF base_invD(1)[OF b]])
  have "kernel_inv R (User, k')" by (rule user_calm_inv) (use inv store(2) f calm_mem[OF b kp] in \<open>simp_all del: kernel_inv.simps\<close>)
  moreover have "mem k' = (mem k)\<lparr>ram := f\<rparr>" unfolding f by simp
  ultimately show ?thesis using keeps_mem_step[OF kp] store(3) by metis
next
  case (clock t)
  have b: "base_inv R k" using inv by (cases c) auto
  have ca: "calm R {} k (k\<lparr>count := t\<rparr>)" by (rule calm_other(5)[OF b])
  have "kernel_inv R (c, k\<lparr>count := t\<rparr>)"
  proof (cases c)
    case User
    then show ?thesis using user_calm_inv[OF _ ca] inv by (simp del: kernel_inv.simps)
  next
    case Starter
    then show ?thesis using calm_base[OF b ca] calm_depth[OF ca] inv by simp
  next
    case Loaded
    then show ?thesis using clock by blast
  qed
  moreover have "c' = c" "k' = k\<lparr>count := t\<rparr>" using clock by blast+
  ultimately show ?thesis by (intro exI[of _ R]) (simp del: kernel_inv.simps)
next
  case (start img i)
  then show ?thesis using spawn_inv[of R k img i k' "served k"] inv by (simp del: kernel_inv.simps)
next
  case (make h)
  then show ?thesis using create_inv[of R k h k'] inv by (intro exI[of _ R]) (simp del: kernel_inv.simps)
qed

subsection \<open>Runs\<close>

inductive sys_run :: "cpu \<times> kernel \<Rightarrow> event list \<Rightarrow> cpu \<times> kernel \<Rightarrow> bool" where
  empty: "sys_run s [] s"
| step: "sys_run s es (c, k) \<Longrightarrow> sys_step e (c, k) t \<Longrightarrow> polite e k \<Longrightarrow> sys_run s (es @ [e]) t"

lemma sys_run_inv: "sys_run s es t \<Longrightarrow> kernel_inv R s \<Longrightarrow> \<exists>R'. R \<subseteq> R' \<and> kernel_inv R' t"
proof (induction rule: sys_run.induct)
  case (step s es c k e t)
  from step.IH[OF step.prems] obtain R1 where R1: "R \<subseteq> R1" "kernel_inv R1 (c, k)" by metis
  obtain c' k' where t: "t = (c', k')" by (cases t)
  from sys_step_inv[OF step.hyps(2)[unfolded t] R1(2) step.hyps(3)] obtain R2 where
    R2: "mem_step R1 (served k) (mem k) R2 (mem k')" "kernel_inv R2 t" unfolding t by metis
  have "R \<subseteq> R2" using R1(1) R2(1) by (auto simp: mem_step_def)
  then show ?case using R2(2) by (intro exI[of _ R2]) simp
qed (intro exI[of _ R], simp)

end
