(* ===== verification/Kernel_Total.thy ===== *)
theory Kernel_Total
  imports Kernel_System
begin

section \<open>System calls return\<close>

text \<open>
  That the handlers of the system calls have a result: no panic, no fault inside the kernel and no
  endless loop.  The copies to and from a process need its buffer below the addresses of the
  recursive slot and its own half mapped by pages, which every mapping the kernel makes for a process is.
\<close>

subsection \<open>Copies\<close>

definition page_leaves :: "memory \<Rightarrow> bool" where
  "page_leaves m \<longleftrightarrow> (\<forall>a e. va_index a Level0 \<noteq> 511 \<and> lookup m (ttbr0 m) a = Some e \<longrightarrow> page_or_table e)"

lemma drop_bit_canonical: "unat (a :: u64) < 2 ^ 48 \<Longrightarrow> drop_bit 48 a = 0"
  by (simp add: word_unat_eq_iff drop_bit_eq_div unat_div)

lemma below_user_top: "unat (a :: u64) < USER_TOP \<Longrightarrow> va_index a Level0 \<noteq> 511"
  using user_top_index[of "unat a"] by simp

lemma user_access:
  assumes inv: "vm_inv R m" and pl: "page_leaves m" and ok: "user_range_ok m va n w = Some True"
    and c: "unat va + n \<le> USER_TOP" and i: "i < n"
  obtains e pa where "translate m (va + of_nat i) = Some (e, pa)" and "entry_user_ok e w"
proof -
  have c': "unat va + n \<le> 2 ^ 48" using c by (simp add: USER_TOP_def)
  have u: "unat (va + of_nat i) = unat va + i" using c' i by (simp add: unat_word_ariths unat_of_nat64)
  have r: "user_range_ok m va n w = Some (unat va + n \<le> unat KZERO \<and>
     (\<forall>a. unat va \<le> unat a \<and> unat a < unat va + n \<longrightarrow> (\<exists>e. lookup m (ttbr0 m) a = Some e \<and> entry_user_ok e w)))"
    by (rule user_range_ok_spec) (use vm_invD(6)[OF inv, of "ttbr0 m"] inv in \<open>simp add: vm_inv_def\<close>)
  then have "\<forall>a. unat va \<le> unat a \<and> unat a < unat va + n \<longrightarrow> (\<exists>e. lookup m (ttbr0 m) a = Some e \<and> entry_user_ok e w)"
    using ok by simp
  then obtain e where e: "lookup m (ttbr0 m) (va + of_nat i) = Some e" "entry_user_ok e w"
    using u i by (metis add_less_cancel_left le_add1)
  have "hw_root m (va + of_nat i) = Some (ttbr0 m)"
    using drop_bit_canonical[of "va + of_nat i"] u c' i by (simp add: hw_root_def)
  moreover have "va_index (va + of_nat i) Level0 \<noteq> 511" by (rule below_user_top) (use u c i in simp)
  ultimately show thesis using translate_page[OF _ e(1)] pl e that unfolding page_leaves_def by blast
qed

lemma store_bytes_total:
  "(\<And>i. i < length bs \<Longrightarrow> \<exists>e pa. translate m (va + of_nat i) = Some (e, pa) \<and> access_permission e = AllRw) \<Longrightarrow>
     \<exists>m'. store_bytes va bs m = Some m'"
proof (induction bs arbitrary: va m)
  case (Cons b bs)
  from Cons.prems[of 0] obtain e pa where e: "translate m va = Some (e, pa)" "access_permission e = AllRw" by auto
  let ?m = "m\<lparr>ram := (ram m)(pa := b)\<rparr>"
  have "\<exists>m'. store_bytes (va + 1) bs ?m = Some m'"
    by (rule Cons.IH) (use Cons.prems[of "Suc _"] in \<open>simp add: add.assoc\<close>)
  then show ?case using e by (simp add: store_byte_def)
qed simp

lemma user_range_total: "vm_inv R m \<Longrightarrow> \<exists>b. user_range_ok m va n w = Some b"
  using vm_invD(6)[of R m "ttbr0 m"] user_range_ok_spec[of m va n w] by (simp add: vm_inv_def)

lemma read_user_total:
  assumes inv: "vm_inv R (mem k)" and pl: "page_leaves (mem k)" and c: "unat src + min len cap \<le> USER_TOP"
  shows "\<exists>x. read_user cap src len k = Some x"
proof -
  let ?n = "min len cap"
  obtain ok where ok: "user_range_ok (mem k) src ?n False = Some ok" using user_range_total[OF inv] by blast
  have "\<exists>bs. load_bytes (mem k) src ?n = Some bs" if ok
  proof -
    have "\<exists>pa e. translate (mem k) (src + of_nat i) = Some (e, pa)" if "i < ?n" for i
      by (rule user_access[OF inv pl _ c that]) (use ok \<open>ok\<close> in auto)
    then obtain pa where "\<And>i. i < ?n \<Longrightarrow> \<exists>e. translate (mem k) (src + of_nat i) = Some (e, pa i)" by metis
    from load_bytes_eq[of ?n, OF this] show ?thesis by blast
  qed
  then show ?thesis using ok by (cases ok) (auto simp: read_user_def Let_def)
qed

lemma write_user_total:
  assumes inv: "vm_inv R (mem k)" and pl: "page_leaves (mem k)" and c: "unat dst + len \<le> USER_TOP"
  shows "\<exists>x. write_user dst src len k = Some x"
proof -
  let ?n = "min len (length src)"
  obtain ok where ok: "user_range_ok (mem k) dst ?n True = Some ok" using user_range_total[OF inv] by blast
  have "\<exists>m. store_bytes dst (take ?n src) (mem k) = Some m" if o: ok
  proof (rule store_bytes_total)
    fix i assume "i < length (take ?n src)"
    then have i: "i < ?n" by simp
    obtain e pa where "translate (mem k) (dst + of_nat i) = Some (e, pa)" "entry_user_ok e True"
      by (rule user_access[OF inv pl _ _ i]) (use ok o c in auto)
    then show "\<exists>e pa. translate (mem k) (dst + of_nat i) = Some (e, pa) \<and> access_permission e = AllRw"
      by (auto split: access_permission.splits)
  qed
  then show ?thesis using ok by (cases ok) (auto simp: write_user_def Let_def)
qed

subsection \<open>Messages\<close>

lemma on_channel_mem:
  assumes b: "base_inv R k" and h: "h < nused k" and run: "on_channel h f k = Some (r, k')"
    and f: "\<And>ch. chan_inv ch \<Longrightarrow> \<exists>r ch' k'. f ch k = Some (r, ch', k') \<and> table_only k k'"
  shows "mem k' = mem k"
proof -
  note C = channel_in[OF base_invD(3)[OF b] h]
  from f[OF C(2)] obtain r1 ch' k1 where "f (inner (channels k ! h)) k = Some (r1, ch', k1)" "table_only k k1" by blast
  then show ?thesis using run C(1) table_only_sel(1) by (auto simp: on_channel_def)
qed

lemma deliver_total:
  assumes "vm_inv R (mem k)" and "page_leaves (mem k)" and "unat dst + unat cap \<le> USER_TOP"
  shows "\<exists>y k'. deliver msg dst cap k = Some (y, k')"
proof -
  have c: "unat dst + min (unat (msg_len msg)) (unat cap) \<le> USER_TOP" using assms(3) by simp
  obtain w k1 where "write_user dst (buf msg) (min (unat (msg_len msg)) (unat cap)) k = Some (w, k1)"
    using write_user_total[OF assms(1,2) c] by fast
  then show ?thesis by (auto simp: deliver_def)
qed

lemma recv_pass_eq: "recv_pass S None = receive_pass S" "recv_pass S (Some d) = receive_at_pass S d"
  by (intro ext, simp add: recv_pass_def)+

lemma receive_pass_total:
  assumes h: "handling R i k" and n: "n < nused k"
  obtains x k1 where "on_channel n (recv_pass kern_sched dl) k = Some (x, k1)" and "handling R i k1" and "mem k1 = mem k"
    and "nused k1 = nused k" and "(\<exists>y. x = Done y) \<or> dl = None \<and> x = Wait i \<or> (\<exists>d. dl = Some d \<and> x = WaitAt i d)"
proof -
  note b = handling_base[OF h]
  note p = kern.P_receive[OF _ handling_current[OF h], of _ dl]
  obtain x k1 where x: "on_channel n (recv_pass kern_sched dl) k = Some (x, k1)" "calm R {root_of k i} k k1" "nused k1 = nused k"
    "(\<exists>y. x = Done y) \<or> dl = None \<and> x = Wait i \<or> (\<exists>d. dl = Some d \<and> x = WaitAt i d)"
    by (rule on_channel_calm[where f = "recv_pass kern_sched dl" and S = "{root_of k i}" and
          Q = "\<lambda>x. (\<exists>y. x = Done y) \<or> dl = None \<and> x = Wait i \<or> (\<exists>d. dl = Some d \<and> x = WaitAt i d)", OF b n p])
  have "mem k1 = mem k" by (rule on_channel_mem[OF b n x(1)]) (use p in blast)
  then show thesis using that x during_handling[OF calm_during[OF h x(2)]] by blast
qed

lemma receive_on_total:
  assumes h: "handling R i k" and n: "n < nused k" and pl: "page_leaves (mem k)" and c: "unat dst + unat cap \<le> USER_TOP"
  shows "\<exists>r. receive_on n dst cap k = Some r" and "\<exists>r. receive_at_on n dst cap d k = Some r"
proof -
  show "\<exists>r. receive_on n dst cap k = Some r"
  proof (cases rule: receive_pass_total[OF h n, of None])
    case (1 x k1)
    obtain r where r: "block_current (InReceive n dst cap) k1 = Some r"
      by (rule block_current_total[OF 1(2), of "InReceive n dst cap"]) (use n 1(4) in \<open>auto simp: cont_ok_def\<close>)
    have del: "\<exists>y k2. deliver msg dst cap k1 = Some (y, k2)" for msg
      using deliver_total[of R k1 dst cap msg] base_invD(1)[OF handling_base[OF 1(2)]] pl c 1(3) by simp
    have run: "on_channel n (receive_pass kern_sched) k = Some (x, k1)" using 1(1) unfolding recv_pass_eq .
    show ?thesis
    proof (cases "x = Wait i")
      case False
      with 1(5) obtain y where y: "x = Done y" by auto
      then show ?thesis
      proof (cases y)
        case (Inr msg)
        obtain z k2 where "deliver msg dst cap k1 = Some (z, k2)" using del by blast
        then show ?thesis using run y Inr by (simp add: receive_on_def)
      qed (use run y in \<open>simp add: receive_on_def\<close>)
    qed (use run r in \<open>simp add: receive_on_def\<close>)
  qed
  show "\<exists>r. receive_at_on n dst cap d k = Some r"
  proof (cases rule: receive_pass_total[OF h n, of "Some d"])
    case (1 x k1)
    obtain r where r: "block_at d (InReceiveAt n dst cap d) k1 = Some r"
      by (rule block_at_total[OF 1(2), of "InReceiveAt n dst cap d"]) (use n 1(4) in \<open>auto simp: cont_ok_def\<close>)
    have del: "\<exists>y k2. deliver msg dst cap k1 = Some (y, k2)" for msg
      using deliver_total[of R k1 dst cap msg] base_invD(1)[OF handling_base[OF 1(2)]] pl c 1(3) by simp
    have run: "on_channel n (receive_at_pass kern_sched d) k = Some (x, k1)" using 1(1) unfolding recv_pass_eq .
    show ?thesis
    proof (cases "x = WaitAt i d")
      case False
      with 1(5) obtain y where y: "x = Done y" by auto
      then show ?thesis
      proof (cases y)
        case (Inr msg)
        obtain z k2 where "deliver msg dst cap k1 = Some (z, k2)" using del by blast
        then show ?thesis using run y Inr by (simp add: receive_at_on_def)
      qed (use run y in \<open>simp add: receive_at_on_def\<close>)
    qed (use run r in \<open>simp add: receive_at_on_def\<close>)
  qed
qed

subsection \<open>The heap\<close>

lemma map_user_data_page_pa_total:
  assumes inv: "vm_inv R m" and a: "root_pa a \<in> R" and va: "unat va + 4096 < 2 ^ 64"
  shows "\<exists>x m'. map_user_data_page_pa a va m = Some (x, m')"
proof (cases "va_index va Level0 = 511")
  case False
  show ?thesis using inv a False by (cases rule: map_user_data_page_pa_spec) blast+
next
  case True
  from vm_invD(1)[OF inv] show ?thesis
  proof (cases rule: allocate_physpage_cases)
    case full
    then show ?thesis by (simp add: map_user_data_page_pa_def)
  next
    case (page f m1)
    note F = frame_range[OF page(4)]
    have "map_to (with_phys_addr rw_user_data (of_nat (f * 4096))) va Page4K root_type.User (root_pa a) m1 = Some (Inl MappingRecursiveIndex, m1)"
      by (rule map_to_recursive[OF True])
    moreover have "map_phys_range \<lparr>pstart = of_nat (f * 4096), pend = of_nat (f * 4096) + 4096\<rparr> (Addr va) rw_user_data Page4K root_type.User (root_pa a) m1 =
        and_then (map_to (with_phys_addr rw_user_data (of_nat (f * 4096))) va Page4K root_type.User (root_pa a) m1)
          (\<lambda>_ m'. Some (Inr \<lparr>vstart = va, vend = va + 4096\<rparr>, m'))"
      using map_phys_range_page[of "of_nat (f * 4096)" "Addr va" rw_user_data root_type.User "root_pa a" m1] va page(4)
      by (simp add: unat_of_nat64 del: of_nat_mult)
    ultimately show ?thesis using page(1) F
      by (simp add: map_user_data_page_pa_def map_err_unable_def and_then_def del: of_nat_mult)
  qed
qed

lemma KZERO_nat: "unat KZERO = 0xffff800000000000"
  by (simp add: KZERO_def)

lemma map_heap_pages_total:
  "vm_inv R m \<Longrightarrow> root_pa a \<in> R \<Longrightarrow> nb \<le> unat KZERO \<Longrightarrow> \<exists>x m'. map_heap_pages a pg nb m = Some (x, m')"
proof (induction a pg nb m rule: map_heap_pages.induct)
  case (1 a pg nb m)
  show ?case
  proof (cases "pg < nb")
    case True
    have pg: "unat (of_nat pg :: u64) = pg" "pg + 4096 < 2 ^ 64" using True "1.prems"(3) by (simp_all add: unat_of_nat64 KZERO_nat)
    have "\<exists>y. map_user_data_page a (of_nat pg) m = Some y"
      using map_user_data_page_pa_total[OF "1.prems"(1,2), of "of_nat pg"] pg by (auto simp: map_user_data_page_def)
    then obtain r m1 where r: "map_user_data_page a (of_nat pg) m = Some (r, m1)" by fast
    have k: "vm_inv R m1" using keepsD(1)[OF map_user_data_page_keeps[OF "1.prems"(1,2) r]] .
    have c: "checked_add pg PAGE_SIZE_4K = Some (pg + PAGE_SIZE_4K)" using pg(2) by (simp add: checked_add_def PAGE_SIZE_4K_def usize_bound_def)
    show ?thesis
    proof (cases r)
      case (Inl _)
      then show ?thesis using r True by (simp add: map_heap_pages.simps)
    next
      case (Inr u)
      from "1.IH"[OF True r refl Inr c k "1.prems"(2,3)] show ?thesis using r True Inr c by (subst map_heap_pages.simps) simp
    qed
  qed (simp add: map_heap_pages.simps)
qed

lemma heap_calls_total:
  assumes h: "handling R i k"
  shows "\<exists>x. sys_alloc c k = Some x" and "\<exists>x. sys_alloc_page k = Some x"
proof -
  from heap_slot[OF h] obtain p where p: "slot_at (ptab k) i = Some p" "current_id k = Some i" .
  note D = procs_okD[OF base_invD(2)[OF handling_base[OF h]] p(1)] and v = base_invD(1)[OF handling_base[OF h]]
  have "\<exists>x. heap_grow c k = Some x"
  proof (cases "brk_grow (heap_brk p) (unat c) (unat KZERO)")
    case (Some nb)
    obtain r m1 where "map_heap_pages (paspace p) (heap_hwm p) nb (mem k) = Some (r, m1)"
      using map_heap_pages_total[OF v D(3) brk_grow_spec(2)[OF Some]] by blast
    then show ?thesis using p Some by (simp add: heap_grow_def)
  qed (use p in \<open>simp add: heap_grow_def\<close>)
  then show "\<exists>x. sys_alloc c k = Some x" by (auto simp: sys_alloc_def)
  have hw: "heap_hwm p \<le> unat KZERO" using D(7) by (simp add: heap_ok_def)
  then have "unat (of_nat (heap_hwm p) :: u64) + 4096 < 2 ^ 64" by (simp add: KZERO_nat unat_of_nat64)
  then obtain r m1 where "map_user_data_page_pa (paspace p) (of_nat (heap_hwm p)) (mem k) = Some (r, m1)"
    using map_user_data_page_pa_total[OF v D(3)] by blast
  then have "\<exists>x. heap_alloc_page k = Some x" using p by (simp add: heap_alloc_page_def split: option.split)
  then obtain x where "heap_alloc_page k = Some x" ..
  then show "\<exists>x. sys_alloc_page k = Some x" by (cases x) (simp add: sys_alloc_page_def)
qed

subsection \<open>The end of a process\<close>

lemma leave_total:
  assumes l: "leaving R i p k"
  shows "\<exists>r. leave k = Some r"
proof -
  have b: "base_inv R k" "starter k" using l by (simp_all add: leaving_def)
  show ?thesis using switch_out_eq[OF l, of Runnable Exiting] to_starter_eq[OF b]
    by (cases "next_of Runnable i p k") (simp_all add: leave_def resched_def)
qed

lemma end_of_process_total:
  assumes h: "handling R i k"
  shows "\<exists>r. exit_current st k = Some r" "\<exists>r. fault k = Some r"
proof -
  have "\<exists>r. leave (exited_state i st k) = Some r" for st
    by (rule exiting_leaving[OF h, of st]) (rule leave_total)
  then show "\<exists>r. exit_current st k = Some r" "\<exists>r. fault k = Some r" unfolding end_of_process_eq[OF h] by blast+
qed

subsection \<open>The calls\<close>

text \<open>The buffers a call names, cut to what the kernel copies, lie below the addresses of the recursive slot.\<close>

definition buffers_ok :: "trap_frame \<Rightarrow> bool" where
  "buffers_ok f \<longleftrightarrow>
     (let x = gpr f; n = x 8 in
      (n = SYCSEND \<or> n = SYCREPLY \<longrightarrow> unat (x 1) + min (unat (x 2)) MSG_MAX \<le> USER_TOP) \<and>
      (n = SYCRECEIVE \<or> n = SYS_RECEIVE_AT \<longrightarrow> unat (x 1) + unat (x 2) \<le> USER_TOP) \<and>
      (n = SYS_PRINT \<longrightarrow> unat (x 0) + min (unat (x 1)) 256 \<le> USER_TOP))"

lemma message_calls_total:
  assumes h: "handling R i k" and pl: "page_leaves (mem k)"
  shows "unat s + min (unat l) MSG_MAX \<le> USER_TOP \<Longrightarrow> \<exists>r. sys_send a s l op tg k = Some r"
    "unat s + min (unat l) MSG_MAX \<le> USER_TOP \<Longrightarrow> \<exists>r. sys_reply a s l op tg k = Some r"
    "unat d + unat c \<le> USER_TOP \<Longrightarrow> \<exists>r. sys_receive a d c k = Some r"
    "unat d + unat c \<le> USER_TOP \<Longrightarrow> \<exists>r. sys_receive_at a d c dl k = Some r"
proof -
  note v = base_invD(1)[OF handling_base[OF h]]
  have send: "\<exists>r. send_on n msg k = Some r" if "channel_of (unat a) k = Some n" for n msg
    using send_on_total[OF h, of n msg] channel_ofD[OF that] by metis
  have rd: "\<exists>x. read_user MSG_MAX s (min (unat l) MSG_MAX) k = Some x" if "unat s + min (unat l) MSG_MAX \<le> USER_TOP"
    by (rule read_user_total[OF v pl]) (use that in simp)
  show "\<exists>r. sys_send a s l op tg k = Some r" if "unat s + min (unat l) MSG_MAX \<le> USER_TOP"
    using rd[OF that] send by (auto simp: sys_send_def split: option.split)
  show "\<exists>r. sys_reply a s l op tg k = Some r" if "unat s + min (unat l) MSG_MAX \<le> USER_TOP"
    using rd[OF that] send by (auto simp: sys_reply_def Let_def split: option.split)
  show "\<exists>r. sys_receive a d c k = Some r" "\<exists>r. sys_receive_at a d c dl k = Some r" if "unat d + unat c \<le> USER_TOP"
    using receive_on_total[OF h _ pl that] by (auto simp: sys_receive_def sys_receive_at_def split: option.split dest: channel_ofD)
qed

lemma yield_total: "handling R i k \<Longrightarrow> \<exists>r. yield_current k = Some r"
proof -
  assume h: "handling R i k"
  from handling_leaving[OF h] obtain p where l: "leaving R i p k" by metis
  show ?thesis using switch_out_eq[OF l, of Runnable Yielded]
    by (cases "next_of Runnable i p k") (simp_all add: yield_current_def resched_def)
qed

lemma print_total:
  assumes h: "handling R i k" and pl: "page_leaves (mem k)" and c: "unat va + min (unat l) 256 \<le> USER_TOP"
  shows "\<exists>r. sys_print va l k = Some r"
proof -
  obtain x where "read_user (min (unat l) 256) va (min (unat l) 256) k = Some x"
    using read_user_total[OF base_invD(1)[OF handling_base[OF h]] pl, of va "min (unat l) 256" "min (unat l) 256"] c by auto
  then have "\<exists>x. sys_print va l k = Some x" by (simp add: sys_print_def Let_def)
  then show ?thesis by blast
qed

lemma ret_total:
  "\<exists>r. y = Some r \<Longrightarrow> \<exists>r. y \<bind> ret1 = Some r" "\<exists>r. z = Some r \<Longrightarrow> \<exists>r. z \<bind> ret2 = Some r"
  "\<exists>r. ret1 x = Some r" "\<exists>r. (let (a, t) = w in ret2 (a, k t)) = Some r"
  by (auto simp: ret1_def ret2_def case_prod_beta)

lemma if_total: "(c \<Longrightarrow> \<exists>r. x = Some r) \<Longrightarrow> (\<not> c \<Longrightarrow> \<exists>r. y = Some r) \<Longrightarrow> \<exists>r. (if c then x else y) = Some r"
  by simp

lemma svc_total:
  assumes h: "handling R i k" and pl: "page_leaves (mem k)" and bf: "buffers_ok f"
    and n: "gpr f 8 \<noteq> SYSMAPMMIO" "gpr f 8 \<noteq> SYS_SPAWN"
  shows "\<exists>r. svc f k = Some r"
proof -
  let ?x = "gpr f"
  note b = bf[unfolded buffers_ok_def Let_def]
  have m: "?x 8 = SYCSEND \<Longrightarrow> \<exists>r. sys_send (?x 0) (?x 1) (?x 2) (?x 3) (?x 4) k = Some r"
    "?x 8 = SYCREPLY \<Longrightarrow> \<exists>r. sys_reply (?x 0) (?x 1) (?x 2) (?x 3) (?x 4) k = Some r"
    "?x 8 = SYCRECEIVE \<Longrightarrow> \<exists>r. sys_receive (?x 0) (?x 1) (?x 2) k = Some r"
    "?x 8 = SYS_RECEIVE_AT \<Longrightarrow> \<exists>r. sys_receive_at (?x 0) (?x 1) (?x 2) (?x 3) k = Some r"
    by (rule message_calls_total[OF h pl], use b in blast)+
  have p: "?x 8 = SYS_PRINT \<Longrightarrow> \<exists>r. sys_print (?x 0) (?x 1) k \<bind> ret1 = Some r"
    by (intro ret_total(1) print_total[OF h pl]) (use b in simp)
  note always = yield_total[OF h] end_of_process_total(1)[OF h] ret_total(1)[OF heap_calls_total(1)[OF h]]
    ret_total(2)[OF heap_calls_total(2)[OF h]] ret_total(3) ret_total(4)[unfolded Let_def]
  show ?thesis unfolding svc_def Let_def
    by (intro if_total) (erule m p | rule always | (erule notE[rotated], rule n))+
qed

end
