(* ===== verification/Kernel_Props.thy ===== *)
theory Kernel_Props
  imports Kernel_Total
begin

section \<open>Properties of the running kernel\<close>

text \<open>
  The properties of the scheduler, the traps and the system calls, stated on the kernel as it is between
  two steps, and a kernel with two processes on which they are exercised.
\<close>

subsection \<open>A kernel with two processes\<close>

definition duo_mem :: memory where "duo_mem = snd (the (aspace_new demo_mem))"
definition duo_root :: phys_addr where "duo_root = root_pa (fst (the (aspace_new demo_mem)))"
definition duo_roots :: "phys_addr set" where "duo_roots = {duo_root, 0, 4096}"

lemma duo_all:
  "vm_inv duo_roots duo_mem \<and> duo_root \<notin> {0, 4096} \<and> ttbr0 duo_mem = 0 \<and> ttbr1 duo_mem = 4096 \<and>
    (\<forall>v. va_index v Level0 \<noteq> 511 \<longrightarrow> lookup duo_mem 0 v = None) \<and> 250 \<le> free_frames duo_mem"
proof -
  have r: "ttbr0 demo_mem = 0" "ttbr1 demo_mem = 4096" by (simp_all add: demo_mem_def)
  from demo_inv show ?thesis
  proof (cases rule: aspace_new_spec)
    case panic
    then show ?thesis using demo_free demo_room by (auto simp: kernel_room_def)
  next
    case (new a m')
    have "\<forall>v. va_index v Level0 \<noteq> 511 \<longrightarrow> lookup m' 0 v = None" using new(6)[of 0] demo_lookup[of 0] r by simp
    then show ?thesis using new r demo_free by (simp add: duo_mem_def duo_root_def duo_roots_def)
  qed
qed

lemma duo:
  "vm_inv duo_roots duo_mem" "duo_root \<noteq> 0" "duo_root \<noteq> 4096" "ttbr0 duo_mem = 0" "ttbr1 duo_mem = 4096"
  "page_leaves duo_mem" "va_index v Level0 \<noteq> 511 \<Longrightarrow> lookup duo_mem 0 v = None" "250 \<le> free_frames duo_mem"
  using duo_all by (auto simp: page_leaves_def)

definition demo_proc :: "pstate \<Rightarrow> usize \<Rightarrow> u8 \<Rightarrow> phys_addr \<Rightarrow> process" where
  "demo_proc s i pr r = (new_process \<lparr>root_pa = r\<rparr> i 0x500000 pr None)\<lparr>pstate := s\<rparr>"

text \<open>Process 1 of priority 128 is on the CPU, process 2 of priority 100 is in the state given.\<close>

definition demo_pair :: "pstate \<Rightarrow> u64 option \<Rightarrow> ptable" where
  "demo_pair s dl = [None, Some (demo_proc Running 1 128 0), Some ((demo_proc s 2 100 duo_root)\<lparr>deadline := dl\<rparr>),
     None, None, None, None, None]"

definition demo_kernel :: "ptable \<Rightarrow> usize option \<Rightarrow> kernel" where
  "demo_kernel t cur =
     \<lparr>tmr = (\<lambda>_. timer_periodic TICK_PERIOD), timers = replicate 8 None, cval = 0, timer_on = False, ptab = t, cursor = 1,
      tpidr = cur, starter = True, core = 0, depths = replicate MAX_CPUS 0, need_resched = False, preemptions = 0,
      tick_started = True, canaries = replicate NPROCS KSTACK_CANARY, frames = replicate NPROCS zero_frame, count = 1000,
      freq = 62500000, mem = duo_mem, channels = replicate NCHANNELS (channel_new 0), nused = 2,
      irq_routes = replicate NIRQS None, nirqueued = 0, gic_up = True, gic_enabled = {}, timer_intid = Some 30,
      uart_up = False, console = [], registry = replicate NIMAGES None, nregistered = 0\<rparr>"

lemmas demo_sizes = NPROCS_def NCHANNELS_def NIRQS_def NIMAGES_def MAX_CPUS_def

lemma demo_slots:
  "slot_at (demo_pair s dl) i = (if i = 1 then Some (demo_proc Running 1 128 0)
     else if i = 2 then Some ((demo_proc s 2 100 duo_root)\<lparr>deadline := dl\<rparr>) else None)"
proof -
  have "i = 0 \<or> i = 1 \<or> i = 2 \<or> i = 3 \<or> i = 4 \<or> i = 5 \<or> i = 6 \<or> i = 7 \<or> 8 \<le> i" by linarith
  then show ?thesis by (auto simp: slot_at_def demo_pair_def)
qed

lemma demo_proc_sel [simp]:
  "pstate (demo_proc s i pr r) = s" "kstack (demo_proc s i pr r) = i" "pcontext (demo_proc s i pr r) = ForkRet"
  "paspace (demo_proc s i pr r) = \<lparr>root_pa = r\<rparr>" "prio (demo_proc s i pr r) = priority_state_new pr"
  "deadline (demo_proc s i pr r) = None"
  by (simp_all add: demo_proc_def new_process_def)

lemma demo_heap: "heap_ok (demo_proc s i pr r)"
  by (simp add: heap_ok_def demo_proc_def new_process_def PAGE_SIZE_4K_def KZERO_nat)

lemma demo_base: "base_inv duo_roots (demo_kernel (demo_pair s dl) cur)"
proof -
  have "procs_ok duo_roots 4096 (replicate NPROCS KSTACK_CANARY) 2 (demo_pair s dl)"
    unfolding procs_ok_def demo_slots using duo(2,3)
    by (auto simp: proc_ok_def cont_ok_def duo_roots_def demo_sizes demo_heap split: if_splits) (simp add: demo_pair_def)
  then show ?thesis using duo(1,5)
    by (simp add: base_inv_def demo_kernel_def tables_ok chan_new_inv channel_new_def) (simp add: demo_sizes)
qed

lemma demo_on_cpu: "s \<noteq> Running \<Longrightarrow> on_cpu (demo_kernel (demo_pair s dl) (Some 1)) 1"
  using duo(4) by (auto simp: on_cpu_def demo_kernel_def root_of_def demo_slots in_state_def)

lemma demo_sel [simp]:
  "ptab (demo_kernel t c) = t" "tpidr (demo_kernel t c) = c" "cursor (demo_kernel t c) = 1" "starter (demo_kernel t c)"
  "depth (demo_kernel t c) = 0" "mem (demo_kernel t c) = duo_mem" "core (demo_kernel t c) = 0" "count (demo_kernel t c) = 1000"
  "nused (demo_kernel t c) = 2" "nirqueued (demo_kernel t c) = 0" "gic_up (demo_kernel t c)"
  "timer_intid (demo_kernel t c) = Some 30" "channels (demo_kernel t c) = replicate NCHANNELS (channel_new 0)"
  "irq_routes (demo_kernel t c) = replicate NIRQS None"
  by (simp_all add: demo_kernel_def depth_def MAX_CPUS_def)

lemma demo_kernel_inv: "s \<noteq> Running \<Longrightarrow> kernel_inv duo_roots (User, demo_kernel (demo_pair s dl) (Some 1))"
  using demo_base[of s dl "Some 1"] demo_on_cpu[of s dl] by auto

text \<open>A system call from EL0 with number \<open>n\<close> and arguments \<open>a\<close>, \<open>b\<close>.\<close>

definition demo_svc :: "u64 \<Rightarrow> u64 \<Rightarrow> u64 \<Rightarrow> trap_frame" where
  "demo_svc n a b = zero_frame\<lparr>gpr := (\<lambda>_. 0)(0 := a, 1 := b, 8 := n), esr_el1 := 0x56000000, interrupt_type := 8\<rparr>"

subsection \<open>Entering and leaving the kernel\<close>

definition entry_state :: "trap_frame \<Rightarrow> usize \<Rightarrow> kernel \<Rightarrow> kernel" where
  "entry_state f i k = k\<lparr>frames := (frames k)[i := f], depths := (depths k)[core k := 1]\<rparr>"

lemma entry_sel [simp]:
  "ptab (entry_state f i k) = ptab k" "cursor (entry_state f i k) = cursor k" "mem (entry_state f i k) = mem k"
  "tpidr (entry_state f i k) = tpidr k" "count (entry_state f i k) = count k" "need_resched (entry_state f i k) = need_resched k"
  "tmr (entry_state f i k) = tmr k" "timers (entry_state f i k) = timers k" "timer_intid (entry_state f i k) = timer_intid k"
  "gic_up (entry_state f i k) = gic_up k"
  by (simp_all add: entry_state_def)

lemma trap_entry:
  assumes inv: "kernel_inv R (User, k)" and i: "tpidr k = Some i"
  shows "trap_unsafe f iar k = trap f iar (entry_state f i k) \<bind> trap_exit User" and "handling R i (entry_state f i k)"
proof -
  from inv obtain i' where b: "base_inv R k" "depth k = 0" "starter k" "on_cpu k i'" by auto
  have "i' = i" using b(4) i by (simp add: on_cpu_def)
  note o = b(4)[unfolded this]
  let ?k = "k\<lparr>frames := (frames k)[i := f]\<rparr>"
  have e: "enter_interrupt ?k = Some (entry_state f i k)"
    using enter_interrupt_eq[of ?k] base_invD(5)[OF b(1)] b(2) by (simp add: entry_state_def depth_def)
  then show "trap_unsafe f iar k = trap f iar (entry_state f i k) \<bind> trap_exit User" using i by (simp add: trap_unsafe_def)
  have "base_inv R ?k" "depth ?k = 0" "on_cpu ?k i" "starter ?k"
    using b(1-3) o by (simp_all add: base_inv_def tables_ok depth_def on_cpu_def root_of_def)
  from entered_handling(1)[OF this e] show "handling R i (entry_state f i k)" .
qed

lemmas call_numbers = SYSYIELD_def SYCSEND_def SYCRECEIVE_def SYCREPLY_def SYSIRQCLAIM_def SYSMAPMMIO_def SYCCREATECHAN_def
  SYS_ALLOC_def SYS_FREE_def SYS_SPAWN_def SYS_CLOCK_def SYS_RECEIVE_AT_def SYS_ALLOC_PAGE_def SYS_WAIT_def SYS_KILL_def
  SYS_SETPRIO_def SYS_PRINT_def SYSEXIT_def

text \<open>A \<open>svc\<close> instruction in EL0.\<close>

definition is_svc :: "trap_frame \<Rightarrow> bool" where
  "is_svc f \<longleftrightarrow> interrupt_type f = 8 \<and> exception_class_enum (esr_el1 f) = Inr SvcAarch64"

lemma trap_svc: "is_svc f \<Longrightarrow> trap f iar k = svc f k"
  by (simp add: trap_def is_svc_def exception_type_of_def is_irq_def)

lemma trap_irq: "interrupt_type f = 9 \<Longrightarrow> trap f iar k = irq iar k"
  by (simp add: trap_def exception_type_of_def is_irq_def)

lemma demo_svc_is: "is_svc (demo_svc n a b)"
proof -
  have "esr_ec 0x56000000 = 21" unfolding esr_ec_def by code_simp
  then show ?thesis by (simp add: is_svc_def demo_svc_def exception_class_enum_def ec_numbers_def)
qed

lemma demo_svc_sel [simp]: "gpr (demo_svc n a b) = (\<lambda>_. 0)(0 := a, 1 := b, 8 := n)" "interrupt_type (demo_svc n a b) = 8"
  by (simp_all add: demo_svc_def)

lemma stay_exit:
  assumes "handling R i k"
  shows "trap_exit User (Stay, k) = Some (User, k\<lparr>depths := (depths k)[core k := 0]\<rparr>)"
  using exit_interrupt_eq[OF base_invD(5)[OF handling_base[OF assms]]] assms by (simp add: trap_exit_def handling_def depth_def)

subsection \<open>Who runs next\<close>

text \<open>Process \<open>n\<close> with record \<open>q\<close> is the choice of the scheduler when \<open>i\<close> leaves the CPU: the most urgent ready
  process, and of equals the next one after the cursor.\<close>

definition most_urgent :: "ptable \<Rightarrow> usize \<Rightarrow> usize \<Rightarrow> usize \<Rightarrow> bool" where
  "most_urgent t c i n \<longleftrightarrow> n \<noteq> i \<and> in_state Runnable (slot_at t n) \<and>
     (\<forall>j. j \<noteq> i \<and> in_state Runnable (slot_at t j) \<longrightarrow>
        (let p = effective_priority n t; q = effective_priority j t in
         the p < the q \<or> p = q \<and> rr_dist NPROCS c n \<le> rr_dist NPROCS c j))"

lemma ready_view:
  assumes "i < length t"
  shows "ready_at (map slot_view (t[i := s])) i j \<longleftrightarrow> j \<noteq> i \<and> in_state Runnable (slot_at t j)"
  using assms by (auto simp: ready_at_def slot_view_def slot_at_def in_state_def split: option.splits)

lemma view_priority:
  assumes "j \<noteq> i" and "in_state Runnable (slot_at t j)"
  shows "snd (map slot_view (t[i := s]) ! j) = the (effective_priority j t)" "effective_priority j t \<noteq> None"
  using assms by (auto simp: slot_view_def slot_at_def in_state_def effective_priority_def split: option.splits if_splits)

lemma next_of_urgent:
  assumes l: "leaving R i p k" and n: "next_of d i p k = Some n"
  shows "most_urgent (ptab k) (cursor k) i n"
proof -
  have b: "base_inv R k" and p: "slot_at (ptab k) i = Some p" using l by (simp_all add: leaving_def)
  let ?v = "map slot_view ((ptab k)[i := Some (demoted d p)])"
  have len: "length ?v = NPROCS" using base_invD(9)[OF b] by simp
  have c: "cursor k < length ?v" using base_invD(8)[OF b] len by simp
  note P = pick_next_Some[OF n[unfolded next_of_def] c] and V = ready_view[OF slot_at_lt[OF p]]
  have rn: "n \<noteq> i" "in_state Runnable (slot_at (ptab k) n)" using P(1) V by blast+
  have "let x = effective_priority n (ptab k); y = effective_priority j (ptab k) in
     the x < the y \<or> x = y \<and> rr_dist NPROCS (cursor k) n \<le> rr_dist NPROCS (cursor k) j"
    if j: "j \<noteq> i" "in_state Runnable (slot_at (ptab k) j)" for j
  proof -
    have r: "ready_at ?v i j" using j V by blast
    have ord: "the (effective_priority n (ptab k)) \<le> the (effective_priority j (ptab k))"
      using P(2)[OF r] unfolding view_priority(1)[OF rn] view_priority(1)[OF j] .
    have tie: "rr_dist NPROCS (cursor k) n \<le> rr_dist NPROCS (cursor k) j"
      if "the (effective_priority j (ptab k)) = the (effective_priority n (ptab k))"
      using P(3)[OF r] that unfolding view_priority(1)[OF rn] view_priority(1)[OF j] len .
    show ?thesis using ord tie view_priority(2)[OF rn] view_priority(2)[OF j] by (auto simp: Let_def order.order_iff_strict)
  qed
  then show ?thesis using rn unfolding most_urgent_def by blast
qed

lemma next_of_none:
  assumes "leaving R i p k"
  shows "next_of d i p k = None \<longleftrightarrow> (\<forall>j. j \<noteq> i \<longrightarrow> \<not> in_state Runnable (slot_at (ptab k) j))"
proof -
  have p: "slot_at (ptab k) i = Some p" using assms by (simp add: leaving_def)
  show ?thesis unfolding next_of_def pick_next_None ready_view[OF slot_at_lt[OF p]] by blast
qed

text \<open>A call that may switch, seen from the process that made it.\<close>

lemma resched_urgent:
  assumes h: "handling R i k"
  obtains "resched c k = Some (False, k)" and "\<forall>j. j \<noteq> i \<longrightarrow> \<not> in_state Runnable (slot_at (ptab k) j)"
  | n k' where "resched c k = Some (True, k')" and "most_urgent (ptab k) (cursor k) i n" and "tpidr k' = Some n"
    and "in_state Running (slot_at (ptab k') n)" and "in_state Runnable (slot_at (ptab k') i)"
    and "\<And>j. j \<noteq> i \<Longrightarrow> j \<noteq> n \<Longrightarrow> slot_at (ptab k') j = slot_at (ptab k) j"
    and "ttbr0 (mem k') = root_of k n" and "cursor k' = n"
proof -
  from handling_leaving[OF h] obtain p where l: "leaving R i p k" "pstate p = Running" "slot_at (ptab k) i = Some p" by metis
  note eq = switch_out_eq[OF l(1), of Runnable c]
  show thesis
  proof (cases "next_of Runnable i p k")
    case None
    show thesis by (rule that(1)) (use None eq next_of_none[OF l(1)] in \<open>simp_all add: resched_def\<close>)
  next
    case (Some n)
    from next_of_Some[OF l(1) Some] obtain q where q: "slot_at (ptab k) n = Some q" "n \<noteq> i" by metis
    let ?k = "switched Runnable c i p n q k"
    have il: "i < length (ptab k)" "n < length (ptab k)" using slot_at_lt[OF l(3)] slot_at_lt[OF q(1)] .
    show thesis
    proof (rule that(2)[of ?k n])
      show "resched c k = Some (True, ?k)" using eq Some q(1) by (simp add: resched_def)
      show "most_urgent (ptab k) (cursor k) i n" by (rule next_of_urgent[OF l(1) Some])
    qed (use l(2) q il in \<open>simp_all add: switched_def slot_at_upd in_state_def demoted_def root_of_def\<close>)
  qed
qed

subsection \<open>Properties of runs\<close>

lemma run_one: "sys_step e (c, k) t \<Longrightarrow> polite e k \<Longrightarrow> sys_run (c, k) [e] t"
  using sys_run.step[OF sys_run.empty] by simp

lemma yield_exit:
  assumes inv: "kernel_inv R (User, k)" and i: "tpidr k = Some i" and f: "is_svc f" "gpr f 8 = SYSYIELD"
  obtains k' where "trap_unsafe f iar k = Some (User, k')" and "ptab k' = ptab k" and "tpidr k' = Some i"
      and "\<forall>j. j \<noteq> i \<longrightarrow> \<not> in_state Runnable (slot_at (ptab k) j)"
  | n k' where "trap_unsafe f iar k = Some (Loaded, k')" and "most_urgent (ptab k) (cursor k) i n" and "tpidr k' = Some n"
    and "in_state Running (slot_at (ptab k') n)" and "in_state Runnable (slot_at (ptab k') i)"
    and "ttbr0 (mem k') = root_of k n" and "\<And>j. j \<noteq> i \<Longrightarrow> j \<noteq> n \<Longrightarrow> slot_at (ptab k') j = slot_at (ptab k) j"
proof -
  let ?k = "entry_state f i k"
  note e = trap_entry[OF inv i, of f]
  have s: "trap f iar ?k = yield_current ?k" by (simp add: trap_svc[OF f(1)] svc_def f(2))
  from e(2) show thesis
  proof (cases rule: resched_urgent[of R i ?k Yielded])
    case 1
    then have "trap_unsafe f iar k = trap_exit User (Stay, ?k)" unfolding e(1) s yield_current_def by simp
    then show thesis unfolding stay_exit[OF e(2)]
      by (rule that(1)) (use 1 i in simp_all)
  next
    case (2 n k')
    then have "trap_unsafe f iar k = Some (Loaded, k')" unfolding e(1) s yield_current_def by (simp add: trap_exit_def)
    then show thesis by (rule that(2)) (use 2 in \<open>simp_all add: root_of_def\<close>)
  qed
qed

text \<open>C1: in every run of the system in which no process kills itself, the kernel invariant holds after every step:
  the page tables are well formed trees over the roots in use; every process has its own root, its own
  kstack with an intact canary and, when it may be switched to, a context to resume; exactly one process
  is Running while a process is on the CPU, TPIDR names it and TTBR0 holds its root, and none is Running
  otherwise; every channel is consistent and every interrupt route names a created channel and a
  different interrupt; the interrupt depth is back at zero outside of traps.\<close>

theorem kernel_invariant_in_every_run:
  assumes "kernel_inv R s" and "sys_run s es t"
  shows "\<exists>R'. R \<subseteq> R' \<and> kernel_inv R' t"
  using sys_run_inv[OF assms(2,1)] .

theorem kernel_invariant_in_every_run_witness:
  "\<exists>k' R'. sys_run (User, demo_kernel (demo_pair Runnable None) (Some 1)) [TrapEv (demo_svc SYSYIELD 0 0) 0] (Loaded, k') \<and>
     tpidr k' = Some 2 \<and> kernel_inv R' (Loaded, k')"
proof -
  let ?k = "demo_kernel (demo_pair Runnable None) (Some 1)" and ?f = "demo_svc SYSYIELD 0 0"
  have inv: "kernel_inv duo_roots (User, ?k)" by (rule demo_kernel_inv) simp
  have "\<exists>k'. trap_unsafe ?f 0 ?k = Some (Loaded, k') \<and> tpidr k' = Some 2"
  proof (cases rule: yield_exit[OF inv, of 1 ?f 0])
    case (4 k')
    then show ?thesis by (auto simp: demo_slots in_state_def dest: spec[of _ 2])
  next
    case (5 n k')
    then show ?thesis by (auto simp: most_urgent_def demo_slots in_state_def split: if_splits)
  qed (simp_all add: demo_svc_is)
  then obtain k' where k': "trap_unsafe ?f 0 ?k = Some (Loaded, k')" "tpidr k' = Some 2" by blast
  have "sys_step (TrapEv ?f 0) (User, ?k) (Loaded, k')" by (rule sys_step.user_trap[OF _ k'(1)]) simp
  then have "sys_run (User, ?k) [TrapEv ?f 0] (Loaded, k')"
    by (rule run_one) (simp add: polite_def kills_self_def SYSYIELD_def SYS_KILL_def)
  then show ?thesis using kernel_invariant_in_every_run[OF inv, of "[TrapEv ?f 0]" "(Loaded, k')"] k'(2) by blast
qed

text \<open>C2: one step of the system, whatever the process on the CPU does with system calls, stores or faults (a call
  to kill itself apart), leaves every translation of every other process as it was: the addresses another process can reach,
  the pages behind them and their permissions do not change.\<close>

theorem steps_keep_other_address_spaces:
  assumes "kernel_inv R (c, k)" and "sys_step e (c, k) (c', k')" and "polite e k"
    and "slot_at (ptab k) j = Some q" and "tpidr k \<noteq> Some j" and "va_index v Level0 \<noteq> 511"
  shows "lookup (mem k') (root_pa (paspace q)) v = lookup (mem k) (root_pa (paspace q)) v"
proof -
  from sys_step_inv[OF assms(2,1,3)] obtain R' where m: "mem_step R (served k) (mem k) R' (mem k')" by blast
  have b: "base_inv R k" using assms(1) by (cases c) auto
  note Q = procs_okD[OF base_invD(2)[OF b] assms(4)]
  have "root_pa (paspace q) \<noteq> served k"
  proof (cases "tpidr k")
    case None
    then show ?thesis using Q(4) by (simp add: served_def)
  next
    case (Some i)
    have "on_cpu k i" using assms(1) Some by (cases c) (auto simp: on_cpu_def)
    from on_cpuD[OF this] obtain p where "slot_at (ptab k) i = Some p" by metis
    moreover have "\<forall>i j p q. slot_at (ptab k) i = Some p \<and> slot_at (ptab k) j = Some q \<and> root_pa (paspace p) = root_pa (paspace q) \<longrightarrow> i = j"
      using base_invD(2)[OF b] by (simp add: procs_ok_def)
    ultimately show ?thesis using assms(4,5) Some by (auto simp: served_def root_of_def)
  qed
  then show ?thesis using m Q(3,4) assms(6) by (simp add: mem_step_def)
qed

theorem steps_keep_other_address_spaces_witness:
  "\<exists>k'. sys_step (TrapEv (demo_svc SYS_CLOCK 0 0) 0) (User, demo_kernel (demo_pair Runnable None) (Some 1)) (User, k') \<and>
     lookup (mem k') duo_root 0x400000 = lookup duo_mem duo_root 0x400000"
proof -
  let ?k = "demo_kernel (demo_pair Runnable None) (Some 1)" and ?f = "demo_svc SYS_CLOCK 0 0"
  have inv: "kernel_inv duo_roots (User, ?k)" by (rule demo_kernel_inv) simp
  note e = trap_entry[OF inv, of 1 ?f]
  let ?k1 = "set_reg 0 1000 (entry_state ?f 1 ?k)"
  have "trap ?f 0 (entry_state ?f 1 ?k) = Some (Stay, ?k1)"
    unfolding trap_svc[OF demo_svc_is] by (simp add: svc_def call_numbers) (simp add: ret1_def sys_clock_def)
  moreover have "handling duo_roots 1 ?k1"
    by (rule during_handling[OF calm_during[OF e(2) calm_set_reg[OF handling_base[OF e(2)]]]]) simp_all
  ultimately obtain k' where k': "trap_unsafe ?f 0 ?k = Some (User, k')" using stay_exit e(1) by simp
  have "sys_step (TrapEv ?f 0) (User, ?k) (User, k')" by (rule sys_step.user_trap[OF _ k']) simp
  moreover have "polite (TrapEv ?f 0) ?k" by (simp add: polite_def kills_self_def SYS_CLOCK_def SYS_KILL_def)
  ultimately show ?thesis
    using steps_keep_other_address_spaces[OF inv, of "TrapEv ?f 0" User k' 2 _ "0x400000"]
    by (simp add: demo_slots va_index.simps) blast
qed

text \<open>C4: yielding always returns control somewhere and never stops the kernel.  When no other process is
  ready the caller goes on, with the process table as it was.  Otherwise the process that runs next is
  the one of smallest effective priority number among the ready others, of equals the first after the
  round-robin cursor; its address space is installed, the caller becomes Runnable, and no other process
  changes state.\<close>

theorem yield_runs_most_urgent:
  assumes "kernel_inv R (User, k)" and "tpidr k = Some i" and "is_svc f" and "gpr f 8 = SYSYIELD"
  shows "if \<exists>j. j \<noteq> i \<and> in_state Runnable (slot_at (ptab k) j)
    then \<exists>n k'. trap_unsafe f iar k = Some (Loaded, k') \<and> most_urgent (ptab k) (cursor k) i n \<and> tpidr k' = Some n \<and>
       ttbr0 (mem k') = root_of k n \<and> in_state Running (slot_at (ptab k') n) \<and> in_state Runnable (slot_at (ptab k') i) \<and>
       (\<forall>j. j \<noteq> i \<and> j \<noteq> n \<longrightarrow> slot_at (ptab k') j = slot_at (ptab k) j)
    else \<exists>k'. trap_unsafe f iar k = Some (User, k') \<and> ptab k' = ptab k \<and> tpidr k' = Some i"
proof (cases rule: yield_exit[OF assms, of iar])
  case (1 k')
  then show ?thesis by auto
next
  case (2 n k')
  have "\<exists>j. j \<noteq> i \<and> in_state Runnable (slot_at (ptab k) j)" using 2(2) by (auto simp: most_urgent_def)
  moreover have "\<forall>j. j \<noteq> i \<and> j \<noteq> n \<longrightarrow> slot_at (ptab k') j = slot_at (ptab k) j" using 2(7) by blast
  ultimately show ?thesis using 2(1-6) by (simp only: if_True) blast
qed

theorem yield_runs_most_urgent_witness:
  "(\<exists>n k'. trap_unsafe (demo_svc SYSYIELD 0 0) 0 (demo_kernel (demo_pair Runnable None) (Some 1)) = Some (Loaded, k') \<and>
      tpidr k' = Some 2) \<and>
   (\<exists>k'. trap_unsafe (demo_svc SYSYIELD 0 0) 0 (demo_kernel (demo_pair Blocked None) (Some 1)) = Some (User, k') \<and>
      tpidr k' = Some 1)"
proof -
  have r: "in_state Runnable (slot_at (demo_pair Runnable dl) j) \<longleftrightarrow> j = 2" "\<not> in_state Runnable (slot_at (demo_pair Blocked dl) j)" for dl j
    by (auto simp: demo_slots in_state_def)
  have f: "is_svc (demo_svc SYSYIELD 0 0)" "gpr (demo_svc SYSYIELD 0 0) 8 = SYSYIELD" by (simp_all add: demo_svc_is)
  have inv: "kernel_inv duo_roots (User, demo_kernel (demo_pair Runnable None) (Some 1))"
    "kernel_inv duo_roots (User, demo_kernel (demo_pair Blocked None) (Some 1))" by (simp_all only: demo_kernel_inv pstate.distinct simp_thms)
  show ?thesis
    using yield_runs_most_urgent[OF inv(1) demo_sel(2) f, of 0] yield_runs_most_urgent[OF inv(2) demo_sel(2) f, of 0]
    by (simp add: r most_urgent_def) metis
qed

subsection \<open>Calls return\<close>

lemma self_kill_eq:
  assumes h: "handling R i k" and i: "unat pid = i"
  shows "sys_kill pid k = (0, exited_state i KILL_STATUS k)"
proof -
  from handling_leaving[OF h] obtain p where p: "slot_at (ptab k) i = Some p" "pstate p = Running" by metis
  have l: "i < length (ptab k)" "i < NPROCS" using slot_at_lt[OF p(1)] base_invD(9)[OF handling_base[OF h]] by simp_all
  have "with_slot i (mark_exited KILL_STATUS) (ptab k) = (ptab k)[i := Some (mark_exited KILL_STATUS p)]"
    using p(1) l(1) by (simp add: with_slot_def slot_nth)
  then show ?thesis using p l i by (simp add: sys_kill_def kill_slot_def exited_state_def)
qed

lemma trap_exit_total: "base_inv R k \<Longrightarrow> \<exists>x. trap_exit User (sw, k) = Some x"
  using exit_interrupt_eq[of k] by (cases sw) (simp_all add: trap_exit_def base_invD(5))

lemma handled_exit_total: "handled R i k r \<Longrightarrow> \<exists>x. trap_exit User r = Some x"
proof -
  assume h: "handled R i k r"
  obtain sw k1 where r: "r = (sw, k1)" by (cases r)
  have "\<exists>R'. base_inv R' k1" using h unfolding handled_def r by (cases sw) (auto simp: handling_def)
  then show ?thesis unfolding r using trap_exit_total by blast
qed

text \<open>C3: a process cannot stop the kernel with a system call.  For every call number, known or not, except
  \<open>SYSMAPMMIO\<close> and \<open>SYS_SPAWN\<close>, and all arguments, the trap returns: to the process, to the process the
  scheduler chose, or to the kernel's main loop.  The buffers the call names must lie below the addresses of
  the recursive page-table slot, and the process's half must be mapped by pages.\<close>

theorem system_calls_never_stop_kernel:
  assumes "kernel_inv R (User, k)" and "is_svc f" and "gpr f 8 \<noteq> SYSMAPMMIO" and "gpr f 8 \<noteq> SYS_SPAWN"
    and "buffers_ok f" and "page_leaves (mem k)"
  shows "\<exists>x. trap_unsafe f iar k = Some x"
proof -
  from assms(1) obtain i where i: "tpidr k = Some i" by (auto simp: on_cpu_def)
  note e = trap_entry[OF assms(1) i, of f]
  let ?k = "entry_state f i k"
  have pl: "page_leaves (mem ?k)" using assms(6) by simp
  from svc_total[OF e(2) pl assms(5,3,4)] obtain r where r: "svc f ?k = Some r" by blast
  have "\<exists>x. trap_exit User r = Some x"
  proof (cases "kills_self f i")
    case False
    from handled_exit_total[OF svc_handled[OF e(2) False r]] show ?thesis .
  next
    case True
    then have "svc f ?k = ret1 (0, exited_state i KILL_STATUS ?k)"
      using self_kill_eq[OF e(2), of "gpr f 0"] by (simp add: svc_def kills_self_def call_numbers)
    then have r': "r = (Stay, set_reg 0 0 (exited_state i KILL_STATUS ?k))" using r by (simp add: ret1_def)
    from exiting_leaving[OF e(2), of KILL_STATUS] have b: "base_inv R (exited_state i KILL_STATUS ?k)" by (auto simp: leaving_def)
    show ?thesis unfolding r' by (rule trap_exit_total[OF calm_base[OF b calm_set_reg[OF b]]])
  qed
  then show ?thesis using r e(1) by (simp add: trap_svc[OF assms(2)])
qed

theorem system_calls_never_stop_kernel_witness:
  "\<exists>x. trap_unsafe (demo_svc SYCRECEIVE 1 0x400000) 0 (demo_kernel (demo_pair Blocked None) (Some 1)) = Some x"
proof -
  have inv: "kernel_inv duo_roots (User, demo_kernel (demo_pair Blocked None) (Some 1))" by (rule demo_kernel_inv) simp
  have "buffers_ok (demo_svc SYCRECEIVE 1 0x400000)" by (simp add: buffers_ok_def Let_def call_numbers USER_TOP_def)
  then show ?thesis using system_calls_never_stop_kernel[OF inv demo_svc_is, of SYCRECEIVE 1 "0x400000" 0]
    by (simp add: duo(6) call_numbers)
qed

text \<open>C38: a process that kills itself with \<open>SYS_KILL\<close> keeps running although its slot says Exited; its own
  exit then finds no Running process and stops the kernel.\<close>

theorem self_kill_then_exit_stops_kernel:
  assumes "kernel_inv R (User, k)" and "tpidr k = Some i" and "is_svc f" and "gpr f 8 = SYS_KILL" and "unat (gpr f 0) = i"
    and "is_svc g" and "gpr g 8 = SYSEXIT"
  shows "\<exists>k'. trap_unsafe f iar k = Some (User, k') \<and> tpidr k' = Some i \<and> status i (ptab k') = Some KILL_STATUS \<and>
    trap_unsafe g iar' k' = None"
proof -
  note e = trap_entry[OF assms(1,2), of f]
  let ?k = "entry_state f i k" let ?x = "exited_state i KILL_STATUS ?k"
  let ?k1 = "set_reg 0 0 ?x"
  have "svc f ?k = Some (Stay, ?k1)"
    using self_kill_eq[OF e(2), of "gpr f 0"] assms(4,5) by (simp add: svc_def call_numbers ret1_def)
  from exiting_leaving[OF e(2), of KILL_STATUS] obtain q where q: "leaving R i q ?x" "pstate q = Exited" "exit_status q = KILL_STATUS" .
  have b: "base_inv R ?x" and t: "tpidr ?x = Some i" and s: "slot_at (ptab ?x) i = Some q"
    and none: "\<not> in_state Running (slot_at (ptab ?x) j)" for j
    using q by (auto simp: leaving_def in_state_def)
  have k1: "tpidr ?k1 = Some i" "ptab ?k1 = ptab ?x" "core ?k1 < length (depths ?k1)"
    using t base_invD(5)[OF b] by (simp_all add: set_reg_def Let_def)
  let ?k2 = "?k1\<lparr>depths := (depths ?k1)[core ?k1 := depths ?k1 ! core ?k1 - 1]\<rparr>"
  have run: "trap_unsafe f iar k = Some (User, ?k2)"
    using \<open>svc f ?k = _\<close> e(1) exit_interrupt_eq[OF k1(3)] by (simp add: trap_svc[OF assms(3)] trap_exit_def)
  have "position (in_state Running) (ptab ?x) = None"
    unfolding position_None_nth using none by (metis slot_at_def)
  then have "exit_current st l = None" if "ptab l = ptab ?x" for st l using that by (simp add: exit_current_def)
  then have "trap_unsafe g iar' ?k2 = None"
    using k1 enter_interrupt_eq[of "?k2\<lparr>frames := (frames ?k2)[i := g]\<rparr>"]
    by (simp add: trap_unsafe_def trap_svc[OF assms(6)] svc_def assms(7) call_numbers)
  moreover have "status i (ptab ?k2) = Some KILL_STATUS" using s q k1(2) by (simp add: status_def)
  ultimately show ?thesis using run k1(1) by (intro exI[of _ ?k2]) simp
qed

theorem self_kill_then_exit_stops_kernel_witness:
  "\<exists>k'. trap_unsafe (demo_svc SYS_KILL 1 0) 0 (demo_kernel (demo_pair Runnable None) (Some 1)) = Some (User, k') \<and>
     trap_unsafe (demo_svc SYSEXIT 0 0) 0 k' = None"
proof -
  have inv: "kernel_inv duo_roots (User, demo_kernel (demo_pair Runnable None) (Some 1))" by (rule demo_kernel_inv) simp
  show ?thesis using self_kill_then_exit_stops_kernel[OF inv demo_sel(2) demo_svc_is[of SYS_KILL 1 0] _ _ demo_svc_is[of SYSEXIT 0 0], of 0 0]
    by auto
qed

end
