(* ===== verification/Kernel_Behaviour.thy ===== *)
theory Kernel_Behaviour
  imports Kernel_Props
begin

section \<open>Properties of the calls\<close>

text \<open>
  What the end of a process leaves behind, priorities, deadlines and the tick, interrupts as messages,
  and the heap.
\<close>

subsection \<open>The end of a process\<close>

lemma leave_slot:
  assumes l: "leaving R i q k" and e: "pstate q = Exited" and run: "leave k = Some r"
  shows "fst r \<noteq> Stay" and "\<exists>c. slot_at (ptab (snd r)) i = Some (q\<lparr>pcontext := c\<rparr>)"
proof -
  have b: "base_inv R k" "starter k" and s: "slot_at (ptab k) i = Some q" using l by (simp_all add: leaving_def)
  note eq = switch_out_eq[OF l, of Runnable Exiting]
  have "fst r \<noteq> Stay \<and> (\<exists>c. slot_at (ptab (snd r)) i = Some (q\<lparr>pcontext := c\<rparr>))"
  proof (cases "next_of Runnable i q k")
    case None
    then have "r = (ToStarter, k\<lparr>tpidr := None, depths := (depths k)[core k := depth k - 1]\<rparr>)"
      using run eq to_starter_eq[OF b] by (simp add: leave_def resched_def)
    then show ?thesis using s by (intro conjI exI[of _ "pcontext q"]) simp_all
  next
    case (Some n)
    then have "r = (Switched, switched Runnable Exiting i q n (the (slot_at (ptab k) n)) k)"
      using run eq by (simp add: leave_def resched_def)
    then show ?thesis using slot_at_lt[OF s] e by (auto simp: switched_def slot_at_upd demoted_def)
  qed
  then show "fst r \<noteq> Stay" "\<exists>c. slot_at (ptab (snd r)) i = Some (q\<lparr>pcontext := c\<rparr>)" by blast+
qed

lemma svc_exit: "\<not> svc_returns (gpr f 8) \<Longrightarrow> svc f k = exit_current (if gpr f 8 = SYSEXIT then gpr f 0 else gpr f 8) k"
  by (simp add: svc_returns_def svc_def Let_def)



subsection \<open>Closing the channels of a dead process\<close>

definition not_blocked :: "usize \<Rightarrow> kernel \<Rightarrow> bool" where
  "not_blocked j k \<longleftrightarrow> \<not> in_state Blocked (slot_at (ptab k) j)"

lemma wake_not_blocked: "not_blocked j (wake kern_sched j k)" "not_blocked j k \<Longrightarrow> not_blocked j (wake kern_sched i k)"
  by (auto simp: not_blocked_def kern_sched_def wake_slot_def slot_at_with_slot in_state_def split: option.split)

lemma wake_opt_not_blocked: "w = Some j \<or> not_blocked j k \<Longrightarrow> not_blocked j (wake_opt kern_sched w k)"
  using wake_not_blocked by (auto simp: wake_opt_def split: option.split)

lemma close_spec:
  "fst (close S ch k) = ch\<lparr>closed := True, recv_waiter := None, send_waiter := None\<rparr>"
  "is_blocked_on j ch \<or> not_blocked j k' \<Longrightarrow> not_blocked j (snd (close kern_sched ch k'))"
  by (auto simp: close_def Let_def is_blocked_on_def intro!: wake_opt_not_blocked)

lemma close_channels: "channels (snd (close kern_sched ch k)) = channels k"
  using table_only_sel(3)[OF kern.P_close] .

definition closed_channel :: "channel \<Rightarrow> channel" where
  "closed_channel c = c\<lparr>inner := (inner c)\<lparr>closed := True, recv_waiter := None, send_waiter := None\<rparr>\<rparr>"

lemma close_blocked_not_blocked: "not_blocked j k \<Longrightarrow> not_blocked j (close_blocked i hs k)"
proof (induction hs arbitrary: k)
  case (Cons h hs)
  have "not_blocked j (k'\<lparr>channels := c\<rparr>) = not_blocked j k'" for k' c by (simp add: not_blocked_def)
  then show ?case using Cons close_spec(2)[of j _ k] by (simp add: Let_def case_prod_beta)
qed simp

lemma close_blocked_spec:
  assumes "distinct hs" and "\<forall>h \<in> set hs. h < length (channels k)"
  shows "channels (close_blocked i hs k) ! h =
      (if h \<in> set hs \<and> is_blocked_on i (inner (channels k ! h)) then closed_channel (channels k ! h) else channels k ! h) \<and>
    (h \<in> set hs \<and> is_blocked_on i (inner (channels k ! h)) \<and> is_blocked_on j (inner (channels k ! h)) \<longrightarrow>
      not_blocked j (close_blocked i hs k))"
  using assms
proof (induction hs arbitrary: k)
  case (Cons x xs)
  let ?ch = "channels k ! x"
  let ?k1 = "(snd (close kern_sched (inner ?ch) k))\<lparr>channels := (channels k)[x := closed_channel ?ch]\<rparr>"
  let ?k = "if is_blocked_on i (inner ?ch) then ?k1 else k"
  have step: "close_blocked i (x # xs) k = close_blocked i xs ?k"
    by (simp add: Let_def case_prod_beta close_spec(1) close_channels closed_channel_def)
  have d: "distinct xs" "\<forall>h \<in> set xs. h < length (channels ?k)" "x \<notin> set xs" "x < length (channels k)" using Cons.prems by auto
  note IH = Cons.IH[OF d(1,2)]
  show ?case
  proof (cases "h = x")
    case True
    have "not_blocked j ?k" if "is_blocked_on i (inner ?ch)" "is_blocked_on j (inner ?ch)"
      using that close_spec(2)[of j "inner ?ch" k] by (simp add: not_blocked_def)
    then show ?thesis unfolding step using IH d(3,4) True close_blocked_not_blocked[of j ?k i xs] by auto
  next
    case False
    have "channels ?k ! h = channels k ! h" using False by simp
    then show ?thesis unfolding step using IH False by auto
  qed
qed simp

text \<open>C36: when a process ends, every channel it was recorded on as waiting is closed and forgets both its
  waiters, and nobody recorded there stays Blocked; a channel it was not recorded on is unchanged.  So no
  channel refers to the dead process, and no peer is left asleep on its account.\<close>

theorem exit_closes_its_channels:
  assumes "chans_ok k" and "h < nused k" and "k' = close_all_for i k"
  shows "\<not> is_blocked_on i (inner (channels k' ! h)) \<and>
    (if is_blocked_on i (inner (channels k ! h))
     then closed (inner (channels k' ! h)) \<and>
       (\<forall>j. is_blocked_on j (inner (channels k ! h)) \<longrightarrow> \<not> in_state Blocked (slot_at (ptab k') j))
     else channels k' ! h = channels k ! h)"
proof -
  let ?hs = "[0..<min (nused k) NCHANNELS]"
  have len: "length (channels k) = NCHANNELS" "nused k \<le> NCHANNELS" using assms(1) by (simp_all add: chans_ok_def)
  then have d: "distinct ?hs" "\<forall>h \<in> set ?hs. h < length (channels k)" and m: "h \<in> set ?hs" using assms(2) by auto
  note S = close_blocked_spec[OF d, of i h]
  have k': "k' = close_blocked i ?hs k" by (simp add: assms(3) close_all_for_def)
  have "\<not> is_blocked_on i (inner (closed_channel c))" "closed (inner (closed_channel c))" for c
    by (simp_all add: closed_channel_def is_blocked_on_def)
  then show ?thesis using S m unfolding k' not_blocked_def by simp
qed

theorem exit_closes_its_channels_witness:
  "\<not> is_blocked_on 2 (inner (channels (close_all_for 2 ((demo_kernel (demo_pair Blocked None) (Some 1))\<lparr>channels :=
      (replicate NCHANNELS (channel_new 0))[1 := (channel_new 0)\<lparr>inner := channel_inner_new\<lparr>recv_waiter := Some 2\<rparr>\<rparr>]\<rparr>)) ! 1))"
proof -
  let ?c = "(channel_new 0)\<lparr>inner := channel_inner_new\<lparr>recv_waiter := Some 2\<rparr>\<rparr>"
  let ?k = "(demo_kernel (demo_pair Blocked None) (Some 1))\<lparr>channels := (replicate NCHANNELS (channel_new 0))[1 := ?c]\<rparr>"
  have "chan_inv (inner ?c)" using chan_new_inv by (simp add: chan_inv_def channel_inner_new_def queue_new_list)
  moreover have "set ((replicate NCHANNELS (channel_new 0))[1 := ?c]) \<subseteq> {?c, channel_new 0}"
    using set_update_subset_insert[of "replicate NCHANNELS (channel_new 0)" 1 ?c] by (auto simp: NCHANNELS_def)
  moreover have "chan_inv (inner (channel_new 0))" using chan_new_inv by (simp add: channel_new_def)
  ultimately have "chans_ok ?k" by (auto simp: chans_ok_def NCHANNELS_def)
  from exit_closes_its_channels[OF this, of 1 _ 2] show ?thesis by simp
qed

subsection \<open>Priorities\<close>

lemma prio_set_base_min: "prio_effective (prio_set_base b p) = min (prio_effective p) b"
  by (auto simp: prio_set_base_def is_boosted_def Let_def min_def)



subsection \<open>Interrupts as messages\<close>

lemma flatten_append [simp]: "flatten (xs @ ys) = flatten xs @ flatten ys"
  by (induction xs rule: flatten.induct) simp_all

lemma find_append: "find P (xs @ ys) = (case find P xs of None \<Rightarrow> find P ys | Some x \<Rightarrow> Some x)"
  by (induction xs) simp_all

lemma claimed_added:
  assumes "nirqueued k < length (irq_routes k)"
  shows "claimed x (k\<lparr>irq_routes := (irq_routes k)[nirqueued k := Some r], nirqueued := Suc (nirqueued k)\<rparr>) =
    (case claimed x k of None \<Rightarrow> if route_intid r = x then Some r else None | Some y \<Rightarrow> Some y)"
  using assms by (simp add: claimed_def take_Suc_conv_app_nth find_append split: option.split)

lemma route_gic [simp]:
  "claimed x (k\<lparr>gic_enabled := g\<rparr>) = claimed x k" "route x (k\<lparr>gic_enabled := g\<rparr>) = route x k"
  "channel_of n (k\<lparr>gic_enabled := g\<rparr>) = channel_of n k"
  by (simp_all add: claimed_def route_def channel_of_def split: option.split)

lemmas result_codes = OK_def ERR_BAD_INTID_def ERR_BAD_HANDLE_def ERR_ALREADY_CLAIMED_def ERR_NO_SLOT_def

text \<open>C34: a successful claim routes its interrupt to its channel and enables it at the controller.  Every other
  interrupt keeps its route, and the interrupt cannot be claimed again, by anybody.\<close>

theorem irq_claim_routes_interrupt:
  assumes "routes_ok k" and "sys_irq_claim raw h k = (OK, k')"
  shows "route (ucast raw) k' = Some (unat h) \<and> (gic_up k \<longrightarrow> ucast raw \<in> gic_enabled k') \<and>
    (\<forall>x. x \<noteq> ucast raw \<longrightarrow> route x k' = route x k) \<and>
    (\<forall>h'. channel_of (unat h') k' \<noteq> None \<longrightarrow> sys_irq_claim raw h' k' = (ERR_ALREADY_CLAIMED, k'))"
proof -
  let ?x = "ucast raw :: u16"
  let ?r = "\<lparr>route_intid = ?x, route_channel = unat h, route_owner = case current_id k of Some i \<Rightarrow> i | None \<Rightarrow> 0\<rparr>"
  let ?k = "k\<lparr>irq_routes := (irq_routes k)[nirqueued k := Some ?r], nirqueued := Suc (nirqueued k)\<rparr>"
  have c: "raw \<le> 0xffff" "INTID_SPI_MIN \<le> ?x" "?x \<le> INTID_SPI_MAX" "channel_of (unat h) k \<noteq> None" "claimed ?x k = None"
    "nirqueued k < NIRQS" and k': "k' = enable_interrupt ?x ?k"
    using assms(2) by (auto simp: sys_irq_claim_def Let_def result_codes split: if_split_asm)
  have n: "nirqueued k < length (irq_routes k)" using c(6) assms(1) by (simp add: routes_ok_def)
  have ch: "channel_of m ?k = channel_of m k" for m by (simp add: channel_of_def)
  have cl: "claimed y ?k = (if y = ?x then Some ?r else claimed y k)" for y
    using claimed_added[OF n, of y ?r] c(5) by (simp split: option.split)
  have e: "claimed y k' = claimed y ?k" "channel_of m k' = channel_of m k" for y m
    unfolding k' using ch by (simp_all add: enable_interrupt_def)
  have "channel_of (unat h) k = Some (unat h)" using c(4) channel_ofD by blast
  then have "route ?x k' = Some (unat h)" by (simp add: route_def e cl)
  moreover have "route y k' = route y k" if "y \<noteq> ?x" for y using that by (simp only: route_def e cl if_False)
  moreover have "gic_up k \<longrightarrow> ?x \<in> gic_enabled k'" unfolding k' by (simp add: enable_interrupt_def)
  moreover have "sys_irq_claim raw h' k' = (ERR_ALREADY_CLAIMED, k')" if "channel_of (unat h') k' \<noteq> None" for h'
  proof -
    have "claimed ?x k' \<noteq> None" by (simp add: e cl)
    then show ?thesis using c(1-3) that by (auto simp: sys_irq_claim_def Let_def)
  qed
  ultimately show ?thesis by blast
qed

theorem irq_claim_routes_interrupt_witness:
  "\<exists>k'. sys_irq_claim 65 1 (demo_kernel (demo_pair Blocked None) (Some 1)) = (OK, k') \<and> route 65 k' = Some 1"
proof -
  let ?k = "demo_kernel (demo_pair Blocked None) (Some 1)"
  have ok: "routes_ok ?k" by (rule base_invD(4)[OF demo_base])
  have "channel_of 1 ?k \<noteq> None" "claimed 65 ?k = None" by (simp_all add: channel_of_def NCHANNELS_def claimed_def)
  then have "fst (sys_irq_claim 65 1 ?k) = OK"
    by (auto simp: sys_irq_claim_def Let_def INTID_SPI_MIN_def INTID_SPI_MAX_def NIRQS_def)
  then obtain k' where "sys_irq_claim 65 1 ?k = (OK, k')" by (metis prod.collapse)
  with irq_claim_routes_interrupt[OF ok this] show ?thesis by auto
qed

text \<open>C33: an interrupt other than the timer's is handled without stopping the kernel.  One with no route is
  disabled at the controller.  A routed one becomes a message at the end of its channel's queue and the
  receiver waiting there does not stay Blocked; if the channel is closed or its queue is full the message
  is dropped.  No other channel changes.\<close>

theorem interrupt_becomes_message:
  assumes "base_inv R k" and "timer_intid k = Some t" and "x \<noteq> t"
  shows "\<exists>k'. irq_source x k = Some k' \<and>
    (case route x k of
       None \<Rightarrow> k' = disable_interrupt x k
     | Some n \<Rightarrow>
         let ch = inner (channels k ! n); ch' = inner (channels k' ! n) in
         (if closed ch \<or> length (queue_list (queue ch)) = QUEUE_CAP
          then queue_list (queue ch') = queue_list (queue ch) \<and> ptab k' = ptab k
          else queue_list (queue ch') = queue_list (queue ch) @ [irq_message x] \<and> recv_waiter ch' = None \<and>
            (\<forall>j. recv_waiter ch = Some j \<longrightarrow> \<not> in_state Blocked (slot_at (ptab k') j))) \<and>
         (\<forall>h. h \<noteq> n \<longrightarrow> channels k' ! h = channels k ! h))"
proof (cases "route x k")
  case None
  then show ?thesis using assms(2,3) by (simp add: irq_source_def)
next
  case (Some n)
  note C = channel_in[OF base_invD(3)[OF assms(1)] route_used[OF Some]]
  let ?ch = "inner (channels k ! n)" let ?sp = "try_send_spec kern_sched (irq_message x) (chan_abs ?ch) k"
  from try_send_refines[OF C(2), of kern_sched "irq_message x" k] obtain c where
    c: "try_send kern_sched (irq_message x) ?ch k = Some (fst ?sp, c, snd (snd ?sp))" "chan_abs c = fst (snd ?sp)"
    by (auto simp: refines_by_def)
  let ?k1 = "snd (snd ?sp)"
  have k1: "channels ?k1 = channels k"
    by (auto simp: try_send_spec_def kern_sched_def split: option.split)
  let ?k' = "?k1\<lparr>channels := (channels k)[n := (channels k ! n)\<lparr>inner := c\<rparr>]\<rparr>"
  have run: "irq_source x k = Some ?k'"
    using Some assms(2,3) C(1) c(1) k1 by (simp add: irq_source_def on_channel_def)
  have sel: "queue_list (queue c) = msgs (fst (snd ?sp))" "recv_waiter c = areceiver (fst (snd ?sp))"
    unfolding c(2)[symmetric] by simp_all
  have full: "length (queue_list (queue ?ch)) \<le> QUEUE_CAP" using chan_invD(1)[OF C(2)] by (simp add: queue_inv_def queue_list_def)
  have room: "recv_waiter ?ch \<noteq> None \<Longrightarrow> queue_list (queue ?ch) = []" by (rule chan_invD(2)[OF C(2)])
  have other: "\<forall>h. h \<noteq> n \<longrightarrow> channels ?k' ! h = channels k ! h" and at: "inner (channels ?k' ! n) = c" using C(1) by simp_all
  have "if closed ?ch \<or> length (queue_list (queue ?ch)) = QUEUE_CAP
      then queue_list (queue c) = queue_list (queue ?ch) \<and> ptab ?k' = ptab k
      else queue_list (queue c) = queue_list (queue ?ch) @ [irq_message x] \<and> recv_waiter c = None \<and>
        (\<forall>j. recv_waiter ?ch = Some j \<longrightarrow> \<not> in_state Blocked (slot_at (ptab ?k') j))"
  proof (cases "recv_waiter ?ch")
    case w: None
    then show ?thesis using full unfolding sel by (simp add: try_send_spec_def)
  next
    case (Some r)
    then have "queue_list (queue ?ch) = []" using room by simp
    then show ?thesis using Some wake_not_blocked(1)[of r k] unfolding sel by (simp add: try_send_spec_def not_blocked_def QUEUE_CAP_def)
  qed
  then show ?thesis using run other at Some by (intro exI[of _ ?k']) (simp add: Let_def)
qed

theorem interrupt_becomes_message_witness:
  "\<exists>k k'. sys_irq_claim 65 1 (demo_kernel (demo_pair Blocked None) (Some 1)) = (OK, k) \<and> irq_source 65 k = Some k' \<and>
     queue_list (queue (inner (channels k' ! 1))) = [irq_message 65]"
proof -
  let ?k = "demo_kernel (demo_pair Blocked None) (Some 1)"
  let ?c = "snd (sys_irq_claim 65 1 ?k)"
  have b: "base_inv duo_roots ?k" by (rule demo_base)
  have ch: "channel_of (unat (1 :: u64)) ?k = Some 1" "claimed 65 ?k = None" by (simp_all add: channel_of_def NCHANNELS_def claimed_def)
  have c: "sys_irq_claim 65 1 ?k = (OK, enable_interrupt 65 (?k\<lparr>irq_routes := (irq_routes ?k)[0 :=
      Some \<lparr>route_intid = 65, route_channel = 1, route_owner = case current_id ?k of Some i \<Rightarrow> i | None \<Rightarrow> 0\<rparr>], nirqueued := 1\<rparr>))"
    using ch by (simp add: sys_irq_claim_def Let_def INTID_SPI_MIN_def INTID_SPI_MAX_def NIRQS_def)
  have "(replicate NIRQS None)[0 := Some r] = Some r # replicate 15 None" for r :: irq_route by (simp add: NIRQS_def numeral_eq_Suc)
  then have r: "route 65 ?c = Some 1" unfolding c by (simp add: enable_interrupt_def route_def claimed_def channel_of_def NCHANNELS_def)
  have s: "timer_intid ?c = Some 30" "channels ?c = replicate NCHANNELS (channel_new 0)" unfolding c by (simp_all add: enable_interrupt_def)
  have "base_inv duo_roots ?c" by (rule calm_base[OF b sys_irq_claim_calm[OF b]])
  note I = interrupt_becomes_message[OF this s(1), of 65]
  have n: "inner ((replicate NCHANNELS (channel_new 0)) ! 1) = channel_inner_new" by (simp add: NCHANNELS_def channel_new_def)
  have q: "queue_list (queue channel_inner_new) = []" "\<not> closed channel_inner_new" by (simp_all add: channel_inner_new_def queue_new_list)
  obtain k' where "irq_source 65 ?c = Some k'" "queue_list (queue (inner (channels k' ! 1))) = [irq_message 65]"
    using I unfolding r s(2) option.case Let_def n q(1) by (auto simp: q(2) QUEUE_CAP_def)
  then show ?thesis using c by (intro exI[of _ ?c] exI[of _ k']) simp
qed

subsection \<open>The tick and deadlines\<close>

lemma fire_timer_tick:
  assumes "can_rearm tm (tmr k i)"
  obtains t' where "fire_timer tick_fire tm i k =
      Some (k\<lparr>tmr := (tmr k)(i := t'), need_resched := need_resched k \<or> due tm (tmr k i)\<rparr>)" and "can_rearm tm t'"
proof (cases "due tm (tmr k i)")
  case False
  show thesis by (rule that[of "tmr k i"]) (use False assms in \<open>auto simp: fire_timer_def due_def Let_def\<close>)
next
  case True
  then have d: "t_active (tmr k i)" "t_deadline (tmr k i) \<le> tm" "\<not> tm < t_deadline (tmr k i)" by (auto simp: due_def)
  show thesis
  proof (cases "t_repeat (tmr k i)")
    case False
    show thesis by (rule that[of "(tmr k i)\<lparr>t_active := False\<rparr>"])
      (use False d True in \<open>simp_all add: fire_timer_def tick_fire_def upd_timer_def can_rearm_def Let_def\<close>)
  next
    case r: True
    then have p: "0 < t_period (tmr k i)" "unat tm + unat (t_period (tmr k i)) < 2 ^ 64" using assms by (simp_all add: can_rearm_def)
    from next_deadline_spec[OF d(2) p] obtain d' where "next_deadline (t_deadline (tmr k i)) tm (t_period (tmr k i)) = Some d'" by metis
    then show thesis by (intro that[of "(tmr k i)\<lparr>t_deadline := d'\<rparr>"])
      (use r d True p in \<open>simp_all add: fire_timer_def tick_fire_def upd_timer_def can_rearm_def Let_def\<close>)
  qed
qed

lemma fire_due_tick:
  "(\<And>i. Some i \<in> set ts \<Longrightarrow> can_rearm tm (tmr k i)) \<Longrightarrow>
     \<exists>k'. fire_due tick_fire tm ts k = Some k' \<and> (need_resched k \<or> (\<exists>i. Some i \<in> set ts \<and> due tm (tmr k i)) \<longrightarrow> need_resched k')"
proof (induction ts arbitrary: k)
  case (Cons x ts)
  show ?case
  proof (cases x)
    case None
    then show ?thesis using Cons by simp
  next
    case (Some i)
    from fire_timer_tick[of tm k i] Cons.prems Some obtain t' where
      t': "fire_timer tick_fire tm i k = Some (k\<lparr>tmr := (tmr k)(i := t'), need_resched := need_resched k \<or> due tm (tmr k i)\<rparr>)"
        "can_rearm tm t'" by auto
    let ?k = "k\<lparr>tmr := (tmr k)(i := t'), need_resched := need_resched k \<or> due tm (tmr k i)\<rparr>"
    have "can_rearm tm (tmr ?k j)" if "Some j \<in> set ts" for j using Cons.prems that t'(2) by simp
    from Cons.IH[of ?k, OF this] obtain k' where k': "fire_due tick_fire tm ts ?k = Some k'"
      "need_resched ?k \<or> (\<exists>i. Some i \<in> set ts \<and> due tm (tmr ?k i)) \<longrightarrow> need_resched k'" by blast
    have "need_resched k'" if "need_resched k \<or> (\<exists>j. Some j \<in> set (x # ts) \<and> due tm (tmr k j))"
      by (rule k'(2)[rule_format]) (use that Some in auto)
    moreover have "fire_due tick_fire tm (x # ts) k = Some k'" using t'(1) k'(1) Some by simp
    ultimately show ?thesis by blast
  qed
qed simp

lemma tick_handler:
  assumes "\<And>i. Some i \<in> set (timers k) \<Longrightarrow> can_rearm (count k) (tmr k i)" and "Some x \<in> set (timers k)" and "due (count k) (tmr k x)"
  obtains k' where "timer_interrupt_handler tick_fire (count k) k = Some k'" and "timer_only k k'" and "need_resched k'"
proof -
  from fire_due_tick[of "timers k" "count k" k, OF assms(1)] assms(2,3) obtain k1 where
    k1: "fire_due tick_fire (count k) (timers k) k = Some k1" "need_resched k1" by blast
  have "need_resched (arm_hardware k1)" using k1(2) by (simp add: arm_hardware_def split: list.split)
  moreover have run: "timer_interrupt_handler tick_fire (count k) k = Some (arm_hardware k1)"
    using k1(1) by (simp add: timer_interrupt_handler_def)
  ultimately show thesis using timer_handler_only[OF run] by (rule that[rotated 2])
qed

lemma expired_slot:
  "slot_at (check_deadlines tm t) i = (case slot_at t i of None \<Rightarrow> None | Some p \<Rightarrow> expire tm (Some p))"
  by (auto simp: slot_at_def check_deadlines_def expire_def split: option.split)

lemma expired_runnable:
  "in_state Runnable (slot_at (check_deadlines tm t) i) \<longleftrightarrow>
     (\<exists>p. slot_at t i = Some p \<and> (pstate p = Runnable \<or> pstate p = Blocked \<and> (\<exists>d. deadline p = Some d \<and> d \<le> tm)))"
  "effective_priority i (check_deadlines tm t) = effective_priority i t"
  by (auto simp: expired_slot expire_def in_state_def effective_priority_def split: option.split)

lemma timer_only_sel:
  assumes "timer_only k k'"
  shows "ptab k' = ptab k" "tpidr k' = tpidr k" "count k' = count k" "cursor k' = cursor k" "mem k' = mem k"
  using assms by (auto simp: timer_only_def)


definition demo_tick :: timer where
  "demo_tick = (timer_periodic TICK_PERIOD)\<lparr>t_period := 6250000, t_deadline := 900, t_active := True\<rparr>"


end
