(* ===== verification/Heap_Props.thy ===== *)
theory Heap_Props
  imports Kernel_Props
begin

section \<open>The heap of a process\<close>

text \<open>
  The pages behind the heap watermarks: a grant of \<open>SYS_ALLOC\<close> is mapped, and what \<open>SYS_ALLOC_PAGE\<close> returns
  after part of the heap was freed.
\<close>

subsection \<open>Mapped ranges\<close>

definition heap_mapped :: "memory \<Rightarrow> phys_addr \<Rightarrow> usize \<Rightarrow> usize \<Rightarrow> bool" where
  "heap_mapped m r lo hi \<longleftrightarrow> (\<forall>n. lo \<le> n \<and> n < hi \<longrightarrow> (\<exists>pa. lookup m r (of_nat n) = Some (leaf rw_user_data pa)))"

lemma same_page_idxs:
  assumes "p mod 4096 = 0" and "p \<le> n" and "n < p + 4096"
  shows "idxs (of_nat n) = idxs (of_nat p)"
proof -
  have "take_bit 12 (of_nat p :: u64) = of_nat (take_bit 12 p)" by (simp add: of_nat_take_bit)
  moreover have "take_bit 12 p = 0" using assms(1) by (simp add: take_bit_eq_mod)
  ultimately have "(of_nat p :: u64) AND mask 12 = 0" by (simp add: take_bit_eq_mask)
  from page_offset(1)[OF this, of "n - p"] assms(2,3) show ?thesis
    by (simp add: idxs_def of_nat_diff)
qed

lemma page_gap: "a < b \<Longrightarrow> a mod 4096 = 0 \<Longrightarrow> b mod 4096 = 0 \<Longrightarrow> a + 4096 \<le> (b :: nat)"
  by (auto elim!: dvdE simp: mod_eq_0_iff_dvd)

lemma page_of: "p mod 4096 = 0 \<Longrightarrow> n div 4096 = p div 4096 \<Longrightarrow> p \<le> n \<and> n < p + (4096 :: nat)"
  by (auto elim!: dvdE simp: mod_eq_0_iff_dvd)

lemma div_ceil_bounds:
  assumes "0 < b" shows "a \<le> div_ceil a b * b" and "div_ceil a b * b < a + b"
proof -
  have d: "a div b * b + a mod b = a" "a mod b < b" using assms by simp_all
  have c: "div_ceil a b * b = (if a mod b = 0 then a div b * b else a div b * b + b)" by (simp add: div_ceil_def)
  show "a \<le> div_ceil a b * b" and "div_ceil a b * b < a + b" unfolding c using d by (simp_all only: split: if_split) linarith+
qed

lemma map_heap_pages_maps:
  "vm_inv R m \<Longrightarrow> root_pa a \<in> R \<Longrightarrow> nb \<le> USER_TOP \<Longrightarrow> pg mod 4096 = 0 \<Longrightarrow> nb mod 4096 = 0 \<Longrightarrow>
     map_heap_pages a pg nb m = Some (Inr (), m') \<Longrightarrow>
     heap_mapped m' (root_pa a) pg nb \<and>
     (\<forall>n < USER_TOP. n < pg \<or> nb \<le> n \<longrightarrow> lookup m' (root_pa a) (of_nat n) = lookup m (root_pa a) (of_nat n))"
proof (induction a pg nb m rule: map_heap_pages.induct)
  case (1 a pg nb m)
  let ?r = "root_pa a"
  show ?case
  proof (cases "pg < nb")
    case False
    then show ?thesis using "1.prems"(6) by (auto simp: map_heap_pages.simps heap_mapped_def)
  next
    case True
    have pt: "pg < USER_TOP" using True "1.prems"(3) by linarith
    from True "1.prems"(6) obtain r m1 where s: "map_user_data_page a (of_nat pg) m = Some (r, m1)"
      "(case r of Inl _ \<Rightarrow> Some (Inl pg, m1) | Inr _ \<Rightarrow> do { p' \<leftarrow> checked_add pg PAGE_SIZE_4K; map_heap_pages a p' nb m1 }) = Some (Inr (), m')"
      by (subst (asm) map_heap_pages.simps) (auto simp: bind_eq_Some_conv)
    then obtain u p' where u: "r = Inr u" "checked_add pg PAGE_SIZE_4K = Some p'" "map_heap_pages a p' nb m1 = Some (Inr (), m')"
      by (cases r) (auto simp: bind_eq_Some_conv)
    have p': "p' = pg + 4096" using u(2) by (simp add: checked_add_def PAGE_SIZE_4K_def split: if_splits)
    from "1.prems"(1,2) user_top_index[OF pt] obtain pa where
      pa: "vm_inv R m1" "only_maps R m m1 {(?r, of_nat pg)}" "lookup m1 ?r (of_nat pg) = Some (leaf rw_user_data pa)"
    proof (cases rule: map_user_data_page_pa_spec)
      case (ok pa m2)
      have "m2 = m1" using s(1) ok(1) by (simp add: map_user_data_page_def)
      then show ?thesis using ok(2-4) by (intro that[of pa]) simp_all
    next
      case (err x m2)
      then show ?thesis using s(1) u(1) by (simp add: map_user_data_page_def)
    qed
    have al: "p' mod 4096 = 0" using "1.prems"(4) unfolding p' by simp
    note IH = "1.IH"[OF True s(1) refl u(1,2) pa(1) "1.prems"(2,3) al "1.prems"(5) u(3), THEN conjunct1]
      "1.IH"[OF True s(1) refl u(1,2) pa(1) "1.prems"(2,3) al "1.prems"(5) u(3), THEN conjunct2, rule_format]
    have in_page: "lookup m' ?r (of_nat n) = Some (leaf rw_user_data pa)" if n: "pg \<le> n" "n < p'" "n < USER_TOP" for n
      using IH(2)[OF n(3)] n(2) pa(3) lookup_idxs[OF same_page_idxs[OF "1.prems"(4) n(1)]] by (simp add: p')
    have "heap_mapped m' ?r pg nb"
      unfolding heap_mapped_def
    proof (intro allI impI)
      fix n assume n: "pg \<le> n \<and> n < nb"
      then show "\<exists>pa. lookup m' ?r (of_nat n) = Some (leaf rw_user_data pa)"
        using IH(1) in_page[of n] "1.prems"(3) unfolding heap_mapped_def by (cases "n < p'") auto
    qed
    moreover have "lookup m' ?r (of_nat n) = lookup m ?r (of_nat n)" if n: "n < USER_TOP" "n < pg \<or> nb \<le> n" for n
    proof -
      have ne: "idxs (of_nat n) \<noteq> idxs (of_nat pg)"
      proof
        assume "idxs (of_nat n) = idxs (of_nat pg :: u64)"
        from idxs_inj[OF n(1) pt this] have "n div 4096 = pg div 4096" .
        then have "pg \<le> n \<and> n < pg + 4096" by (rule page_of[OF "1.prems"(4)])
        moreover have "pg + 4096 \<le> nb" by (rule page_gap[OF True "1.prems"(4,5)])
        ultimately show False using n(2) by linarith
      qed
      have "lookup m1 ?r (of_nat n) = lookup m ?r (of_nat n)"
        by (rule only_mapsD(1)[OF pa(2) "1.prems"(2) user_top_index[OF n(1)]]) (use ne in auto)
      moreover have "n < p' \<or> nb \<le> n" using n(2) p' by linarith
      ultimately show ?thesis using IH(2)[OF n(1)] by simp
    qed
    ultimately show ?thesis by blast
  qed
qed

text \<open>C37: a successful \<open>SYS_ALLOC\<close> grants what it says.  The grant starts at the old break and covers the requested
  bytes, rounded up to pages; every byte of it translates to a user read-write page of the caller, also
  the part below the high-water mark that an earlier free had released.  Bytes below the mark keep their
  translation, and everything from the base to the new mark stays mapped, ready for the next grant.\<close>

theorem alloc_grants_mapped_pages:
  assumes "handling R i k" and "slot_at (ptab k) i = Some p" and "heap_mapped (mem k) (root_of k i) (heap_base p) (heap_hwm p)"
    and "heap_grow c k = Some (Some va, k')" and "heap_brk p + unat c + 4096 \<le> USER_TOP"
  shows "\<exists>p'. slot_at (ptab k') i = Some p' \<and> va = heap_brk p \<and>
    va + unat c \<le> heap_brk p' \<and> heap_brk p' < va + unat c + 4096 \<and> heap_brk p' mod 4096 = 0 \<and>
    heap_mapped (mem k') (root_of k i) va (heap_brk p') \<and>
    heap_mapped (mem k') (root_of k i) (heap_base p') (heap_hwm p') \<and>
    (\<forall>n < heap_hwm p. n < USER_TOP \<longrightarrow> lookup (mem k') (root_of k i) (of_nat n) = lookup (mem k) (root_of k i) (of_nat n))"
proof -
  from heap_slot[OF assms(1)] have ci: "current_id k = Some i" and r: "root_of k i = root_pa (paspace p)"
    using assms(2) by (metis option.inject)+
  note D = procs_okD[OF base_invD(2)[OF handling_base[OF assms(1)]] assms(2)]
  from assms(2,4) ci obtain nb m1 where nb: "brk_grow (heap_brk p) (unat c) (unat KZERO) = Some nb"
    "map_heap_pages (paspace p) (heap_hwm p) nb (mem k) = Some (Inr (), m1)" "va = heap_brk p"
    "k' = set_current (p\<lparr>heap_brk := nb, heap_hwm := nb\<rparr>) i m1 k"
    by (auto simp: heap_grow_def results)
  have e: "nb = heap_brk p + div_ceil (unat c) 4096 * 4096"
    using nb(1) by (auto simp: brk_grow_def Let_def checked_add_def checked_mul_def bind_eq_Some_conv PAGE_SIZE_4K_def split: if_split_asm)
  have ce: "unat c \<le> div_ceil (unat c) 4096 * 4096" "div_ceil (unat c) 4096 * 4096 < unat c + 4096"
    by (rule div_ceil_bounds, simp)+
  have ho: "heap_base p \<le> heap_brk p" "heap_brk p \<le> heap_hwm p" "heap_brk p mod 4096 = 0" "heap_hwm p mod 4096 = 0"
    using D(7) by (simp_all add: heap_ok_def PAGE_SIZE_4K_def)
  have top: "nb \<le> USER_TOP" "nb mod 4096 = 0" using assms(5) ce e ho(3) by simp_all
  note M = map_heap_pages_maps[OF base_invD(1)[OF handling_base[OF assms(1)]] D(3) top(1) ho(4) top(2) nb(2), folded r]
  have old: "\<forall>n < heap_hwm p. n < USER_TOP \<longrightarrow> lookup m1 (root_of k i) (of_nat n) = lookup (mem k) (root_of k i) (of_nat n)"
    using M by blast
  have all: "heap_mapped m1 (root_of k i) (heap_base p) nb"
    unfolding heap_mapped_def
  proof (intro allI impI)
    fix n assume n: "heap_base p \<le> n \<and> n < nb"
    show "\<exists>pa. lookup m1 (root_of k i) (of_nat n) = Some (leaf rw_user_data pa)"
    proof (cases "n < heap_hwm p")
      case True
      then show ?thesis using old n top(1) assms(3) unfolding heap_mapped_def by simp
    next
      case False
      then show ?thesis using M n unfolding heap_mapped_def by simp
    qed
  qed
  then have "heap_mapped m1 (root_of k i) (heap_brk p) nb" using ho(1) unfolding heap_mapped_def by simp
  then show ?thesis using all old nb(3,4) e ce top(2) slot_at_lt[OF assms(2)]
    by (intro exI[of _ "p\<lparr>heap_brk := nb, heap_hwm := nb\<rparr>"]) (simp add: set_current_def slot_at_upd)
qed

definition demo_call :: kernel where
  "demo_call = entry_state zero_frame 1 (demo_kernel (demo_pair Blocked None) (Some 1))"

lemma demo_call_handling: "handling duo_roots 1 demo_call"
  unfolding demo_call_def by (rule trap_entry(2)[OF demo_kernel_inv]) simp_all

lemma demo_call_slot: "slot_at (ptab demo_call) 1 = Some (demo_proc Running 1 128 0)" "root_of demo_call 1 = 0" "mem demo_call = duo_mem"
  by (simp_all add: demo_call_def demo_slots root_of_def)

lemma demo_grow: "\<exists>k'. heap_grow 100 demo_call = Some (Some 0x500000, k')"
proof -
  let ?a = "\<lparr>root_pa = 0\<rparr> :: aspace"
  have v: "va_index 0x500000 Level0 \<noteq> 511" by (simp add: va_index.simps)
  have R: "root_pa ?a \<in> duo_roots" by (simp add: duo_roots_def)
  have "\<exists>m1. map_user_data_page ?a 0x500000 duo_mem = Some (Inr (), m1)"
    using duo(1) R v
  proof (cases rule: map_user_data_page_pa_spec)
    case (ok pa m')
    then show ?thesis by (simp add: map_user_data_page_def)
  next
    case (err x m')
    then show ?thesis using duo(7)[OF v] duo(8) by (simp add: in_block_def)
  qed
  then obtain m1 where m1: "map_user_data_page ?a 0x500000 duo_mem = Some (Inr (), m1)" by blast
  have "map_heap_pages ?a 0x500000 0x501000 duo_mem = Some (Inr (), m1)"
    using m1 by (simp add: map_heap_pages.simps checked_add_def PAGE_SIZE_4K_def usize_bound_def)
  moreover have "brk_grow 0x500000 100 (unat KZERO) = Some 0x501000"
    by (simp add: brk_grow_def checked_mul_def checked_add_def PAGE_SIZE_4K_def usize_bound_def div_ceil_def KZERO_nat)
  moreover have "current_id demo_call = Some 1" by (simp add: current_id_def demo_call_def demo_slots)
  ultimately show ?thesis using demo_call_slot
    by (simp add: heap_grow_def demo_proc_def new_process_def)
qed

theorem alloc_grants_mapped_pages_witness:
  "\<exists>k' p'. heap_grow 100 demo_call = Some (Some 0x500000, k') \<and> slot_at (ptab k') 1 = Some p' \<and> heap_brk p' = 0x501000 \<and>
     heap_mapped (mem k') 0 0x500000 0x501000"
proof -
  from demo_grow obtain k' where k': "heap_grow 100 demo_call = Some (Some 0x500000, k')" by blast
  have h: "heap_base (demo_proc Running 1 128 0) = 0x500000" "heap_hwm (demo_proc Running 1 128 0) = 0x500000"
    "heap_brk (demo_proc Running 1 128 0) = 0x500000" by (simp_all add: demo_proc_def new_process_def)
  have "heap_mapped (mem demo_call) (root_of demo_call 1) (heap_base (demo_proc Running 1 128 0)) (heap_hwm (demo_proc Running 1 128 0))"
    unfolding h by (auto simp: heap_mapped_def)
  from alloc_grants_mapped_pages[OF demo_call_handling demo_call_slot(1) this k']
  obtain p' where p': "slot_at (ptab k') 1 = Some p'" "0x500000 + 100 \<le> heap_brk p'" "heap_brk p' < 0x500000 + 100 + 4096"
    "heap_brk p' mod 4096 = 0" "heap_mapped (mem k') 0 0x500000 (heap_brk p')"
    unfolding h demo_call_slot by (auto simp: USER_TOP_def)
  have "heap_brk p' = 0x501000"
    using page_gap[of "0x500000" "heap_brk p'"] page_gap[of "0x501000" "heap_brk p'"] p'(2-4)
    by (cases "0x501000 < heap_brk p'") simp_all
  then show ?thesis using k' p'(1,5) by metis
qed

subsection \<open>One page with its physical address\<close>

text \<open>C39: after part of the heap was freed, \<open>SYS_ALLOC_PAGE\<close> returns a pair that does not belong together: the
  virtual address is the lowered break, whose page keeps its old frame, and the physical address is the
  frame of a new page mapped at the high-water mark.\<close>

theorem alloc_page_after_free_mismatch:
  assumes "handling R i k" and "slot_at (ptab k) i = Some p" and "heap_brk p < heap_hwm p" and "heap_hwm p < USER_TOP"
    and "lookup (mem k) (root_of k i) (of_nat (heap_brk p)) = Some e" and "frame_used (mem k) (phys_addr_of e)"
    and "heap_alloc_page k = Some (Some (va, pa), k')"
  shows "va = heap_brk p \<and> lookup (mem k') (root_of k i) (of_nat va) = Some e \<and> phys_addr_of e \<noteq> pa"
proof -
  from heap_slot[OF assms(1)] have ci: "current_id k = Some i" and r: "root_of k i = root_pa (paspace p)"
    using assms(2) by (metis option.inject)+
  note D = procs_okD[OF base_invD(2)[OF handling_base[OF assms(1)]] assms(2)]
  from assms(2,7) ci obtain m1 where m1: "map_user_data_page_pa (paspace p) (of_nat (heap_hwm p)) (mem k) = Some (Inr pa, m1)"
    "va = heap_brk p" "mem k' = m1"
    by (auto simp: heap_alloc_page_def results set_current_def)
  have ho: "heap_brk p mod 4096 = 0" "heap_hwm p mod 4096 = 0" using D(7) by (simp_all add: heap_ok_def PAGE_SIZE_4K_def)
  have bt: "heap_brk p < USER_TOP" using assms(3,4) by linarith
  have ne: "idxs (of_nat (heap_brk p)) \<noteq> idxs (of_nat (heap_hwm p) :: u64)"
    using user_page_inj[of "heap_brk p" "heap_hwm p"] bt assms(3,4) ho by (auto simp: user_page_def)
  from base_invD(1)[OF handling_base[OF assms(1)]] D(3) user_top_index[OF assms(4)] show ?thesis
  proof (cases rule: map_user_data_page_pa_spec)
    case (ok pa' m')
    then have "pa' = pa" "m' = m1" using m1(1) by simp_all
    moreover have "lookup m' (root_pa (paspace p)) (of_nat (heap_brk p)) = lookup (mem k) (root_pa (paspace p)) (of_nat (heap_brk p))"
      by (rule only_mapsD(1)[OF ok(3) D(3) user_top_index[OF bt]]) (use ne in auto)
    ultimately show ?thesis using ok(5) assms(5,6) m1(2,3) r by auto
  qed (use m1(1) in simp)
qed

text \<open>A heap of one page of which all has been freed again.\<close>

lemma demo_freed:
  obtains k e where "handling duo_roots 1 k" and "slot_at (ptab k) 1 = Some ((demo_proc Running 1 128 0)\<lparr>heap_hwm := 0x501000\<rparr>)"
    and "root_of k 1 = 0" and "lookup (mem k) 0 0x500000 = Some e" and "frame_used (mem k) (phys_addr_of e)"
    and "\<exists>pa k'. heap_alloc_page k = Some (Some (0x500000, pa), k')"
proof -
  let ?a = "\<lparr>root_pa = 0\<rparr> :: aspace" and ?p = "(demo_proc Running 1 128 0)\<lparr>heap_hwm := 0x501000\<rparr>"
  have v: "va_index 0x500000 Level0 \<noteq> 511" "va_index 0x501000 Level0 \<noteq> 511" by (simp_all add: va_index.simps)
  have R: "root_pa ?a \<in> duo_roots" by (simp add: duo_roots_def)
  obtain pa m1 where m1: "vm_inv duo_roots m1" "only_maps duo_roots duo_mem m1 {(0, 0x500000)}"
    "lookup m1 0 0x500000 = Some (leaf rw_user_data pa)" "frame_used m1 pa" "4 \<le> free_frames m1"
    using duo(1) R v(1)
  proof (cases rule: map_user_data_page_pa_spec)
    case (ok pa m')
    then show ?thesis using duo(8) by (intro that[of m' pa]) simp_all
  next
    case (err x m')
    then show ?thesis using duo(7)[OF v(1)] duo(8) by (simp add: in_block_def)
  qed
  have kp: "keeps duo_roots {0} duo_mem m1" by (rule only_maps_keeps[OF m1(1,2)]) simp
  let ?t = "(ptab demo_call)[1 := Some ?p]" let ?k = "demo_call\<lparr>ptab := ?t, mem := m1\<rparr>"
  have s: "slot_at ?t 1 = Some ?p" using slot_at_lt[OF demo_call_slot(1)] by (simp add: slot_at_upd)
  have "heap_brk (demo_proc Running 1 128 0) = 0x500000" "heap_base (demo_proc Running 1 128 0) = 0x500000"
    by (simp_all add: demo_proc_def new_process_def)
  then have "mild (demo_proc Running 1 128 0) ?p"
    using mild_heap[of "demo_proc Running 1 128 0" "0x500000" "0x501000"] by (simp add: PAGE_SIZE_4K_def KZERO_nat demo_proc_def new_process_def)
  then have "mild_change (ptab demo_call) ?t" by (intro mild_change_upd) (simp add: slot_nth[OF demo_call_slot(1)] slot_mild_def del: One_nat_def)
  then have c: "calm duo_roots {root_of demo_call 1} demo_call ?k"
    using kp by (intro calm_table_mem[OF handling_base[OF demo_call_handling]]) (simp_all add: demo_call_slot del: One_nat_def)
  have h: "handling duo_roots 1 ?k" by (rule during_handling[OF calm_during[OF demo_call_handling c]])
  have pl: "phys_addr_of (leaf rw_user_data pa) = pa" by (rule phys_addr_leaf[OF vm_invD(1)[OF m1(1)] m1(4)])
  have "lookup m1 0 0x501000 = lookup duo_mem 0 0x501000"
    by (rule only_mapsD(1)[OF m1(2) _ v(2)]) (auto simp: duo_roots_def idxs_def va_index.simps)
  then have nb: "\<not> in_block m1 0 0x501000" using duo(7)[OF v(2)] by (simp add: in_block_def)
  have "\<exists>pa' m2. map_user_data_page_pa ?a 0x501000 m1 = Some (Inr pa', m2)"
    using m1(1) R v(2)
  proof (cases rule: map_user_data_page_pa_spec)
    case (err x m')
    then show ?thesis using nb m1(5) by simp
  qed blast
  then obtain pa' m2 where "map_user_data_page_pa ?a 0x501000 m1 = Some (Inr pa', m2)" by blast
  moreover have "brk_grow 0x500000 PAGE_SIZE_4K (unat KZERO) = Some 0x501000"
    by (simp add: brk_grow_def checked_mul_def checked_add_def PAGE_SIZE_4K_def usize_bound_def div_ceil_def KZERO_nat)
  moreover have "current_id ?k = Some 1" using s by (simp add: current_id_def) (simp add: demo_call_def)
  ultimately have "\<exists>pa k'. heap_alloc_page ?k = Some (Some (0x500000, pa), k')"
    using s by (simp add: heap_alloc_page_def demo_proc_def new_process_def)
  then show thesis using h s m1(3,4) pl by (intro that[of ?k "leaf rw_user_data pa"]) (simp_all add: root_of_def)
qed

theorem alloc_page_after_free_mismatch_witness:
  "\<exists>k e va pa k'. handling duo_roots 1 k \<and> heap_alloc_page k = Some (Some (va, pa), k') \<and>
     lookup (mem k') 0 (of_nat va) = Some e \<and> phys_addr_of e \<noteq> pa"
proof -
  from demo_freed obtain k e pa k' where k: "handling duo_roots 1 k"
    "slot_at (ptab k) 1 = Some ((demo_proc Running 1 128 0)\<lparr>heap_hwm := 0x501000\<rparr>)"
    "root_of k 1 = 0" "lookup (mem k) 0 0x500000 = Some e" "frame_used (mem k) (phys_addr_of e)"
    "heap_alloc_page k = Some (Some (0x500000, pa), k')" by metis
  have "heap_brk ((demo_proc Running 1 128 0)\<lparr>heap_hwm := 0x501000\<rparr>) = 0x500000" by (simp add: demo_proc_def new_process_def)
  then have "lookup (mem k') 0 0x500000 = Some e \<and> phys_addr_of e \<noteq> pa"
    using alloc_page_after_free_mismatch[OF k(1,2) _ _ _ k(5,6)] k(3,4) by (simp add: USER_TOP_def)
  then show ?thesis using k(1,6) by (intro exI[of _ k] exI[of _ e] exI[of _ "0x500000"] exI[of _ pa] exI[of _ k']) simp
qed

end
