(* ===== verification/Name_Server.thy ===== *)
theory Name_Server
  imports Elf_Reader Ipc_Channel
begin

section \<open>The nameserver (\<open>cmd/nameserver/src/bind_table.rs\<close>, \<open>main.rs\<close>)\<close>

text \<open>
  The first server: a table of eight names, each bound to the channel pair of a file server, and the
  loop that answers \<open>BIND\<close>, \<open>RESOLVE\<close> and \<open>UNBIND\<close> requests from it.  The specification is a finite map
  from names to pairs; the table with its fixed entries and the byte layout of the messages implements
  it.  As in the kernel, \<open>None\<close> at the outside is a panic, here of the server process.
\<close>

subsection \<open>The bind table\<close>

record chan_pair =
  in_h :: u32
  out_h :: u32

definition R_OK :: u16 where "R_OK = 0"
definition R_ENOENT :: u16 where "R_ENOENT = 1"
definition R_EFULL :: u16 where "R_EFULL = 2"

definition NAME_MAX :: usize where "NAME_MAX = 32"
definition NENT :: usize where "NENT = 8"

record bind_entry =
  ent_name :: "u8 list"
  namelen :: u8
  ent_pair :: chan_pair
  used :: bool

definition EMPTY_entry :: bind_entry where
  "EMPTY_entry = \<lparr>ent_name = replicate NAME_MAX 0, namelen = 0, ent_pair = \<lparr>in_h = 0, out_h = 0\<rparr>, used = False\<rparr>"

record bind_table =
  entries :: "bind_entry list"

definition bind_table_new :: bind_table where
  "bind_table_new = \<lparr>entries = replicate NENT EMPTY_entry\<rparr>"

text \<open>\<open>&xs[..n]\<close>.\<close>

definition slice_to :: "'a list \<Rightarrow> usize \<Rightarrow> 'a list option" where
  "slice_to xs n = (if n \<le> length xs then Some (take n xs) else None)"

definition matches :: "bind_entry \<Rightarrow> u8 list \<Rightarrow> bool option" where
  "matches e nm =
     (if used e \<and> unat (namelen e) = length nm
      then do { s \<leftarrow> slice_to (ent_name e) (length nm); Some (s = nm) }
      else Some False)"

definition bind :: "u8 list \<Rightarrow> chan_pair \<Rightarrow> bind_table \<Rightarrow> u16 \<times> bind_table" where
  "bind nm p t =
     (let n = min (length nm) NAME_MAX; es = entries t in
      case position (\<lambda>e. used e \<and> unat (namelen e) = n \<and> take n (ent_name e) = take n nm) es of
        Some i \<Rightarrow> (R_OK, t\<lparr>entries := es[i := (es ! i)\<lparr>ent_pair := p\<rparr>]\<rparr>)
      | None \<Rightarrow>
          (case position (\<lambda>e. \<not> used e) es of
             Some i \<Rightarrow>
               (R_OK, t\<lparr>entries := es[i := (es ! i)\<lparr>ent_name := take n nm @ drop n (ent_name (es ! i)),
                  namelen := of_nat n, ent_pair := p, used := True\<rparr>]\<rparr>)
           | None \<Rightarrow> (R_EFULL, t)))"

fun find_entry :: "u8 list \<Rightarrow> bind_entry list \<Rightarrow> usize option option" where
  "find_entry nm [] = Some None"
| "find_entry nm (e # es) =
     do { b \<leftarrow> matches e nm;
          if b then Some (Some 0) else do { r \<leftarrow> find_entry nm es; Some (map_option Suc r) } }"

definition resolve :: "u8 list \<Rightarrow> bind_table \<Rightarrow> chan_pair option option" where
  "resolve nm t = do { r \<leftarrow> find_entry nm (entries t); Some (map_option (\<lambda>i. ent_pair (entries t ! i)) r) }"

definition unbind :: "u8 list \<Rightarrow> bind_table \<Rightarrow> (u16 \<times> bind_table) option" where
  "unbind nm t =
     do { r \<leftarrow> find_entry nm (entries t);
          Some (case r of
                  Some i \<Rightarrow> (R_OK, t\<lparr>entries := (entries t)[i := (entries t ! i)\<lparr>used := False\<rparr>]\<rparr>)
                | None \<Rightarrow> (R_ENOENT, t)) }"

subsection \<open>The server loop\<close>

definition OP_BIND :: u16 where "OP_BIND = 0"
definition OP_RESOLVE :: u16 where "OP_RESOLVE = 1"
definition OP_UNBIND :: u16 where "OP_UNBIND = 2"

record name_reply =
  reply_to :: u64
  reply_result :: u16
  reply_tag :: u32
  reply_out :: "u8 list"

text \<open>\<open>u32::from_le_bytes(xs[a..b].try_into().unwrap())\<close> for \<open>b = a + 4\<close>.\<close>

definition u32_at :: "u8 list \<Rightarrow> usize \<Rightarrow> u32 option" where
  "u32_at xs a = (if a + 4 \<le> length xs then Some (of_nat (from_le (take 4 (drop a xs)))) else None)"

definition dispatch :: "u16 \<Rightarrow> u8 list \<Rightarrow> bind_table \<Rightarrow> ((u16 \<times> chan_pair option) \<times> bind_table) option" where
  "dispatch op payload t =
     (if op = OP_BIND then
        do { name_len \<leftarrow> checked_sub (length payload) 12;
             nm \<leftarrow> slice_to payload name_len;
             i \<leftarrow> u32_at payload name_len;
             u \<leftarrow> u32_at payload (name_len + 4);
             (let (r, t') = bind nm \<lparr>in_h = i, out_h = u\<rparr> t in Some ((r, None), t')) }
      else if op = OP_RESOLVE then
        do { n \<leftarrow> checked_sub (length payload) 4;
             nm \<leftarrow> slice_to payload n;
             f \<leftarrow> resolve nm t;
             Some (case f of Some p \<Rightarrow> (R_OK, Some p) | None \<Rightarrow> (R_ENOENT, None), t) }
      else if op = OP_UNBIND then
        do { n \<leftarrow> checked_sub (length payload) 4;
             nm \<leftarrow> slice_to payload n;
             (r, t') \<leftarrow> unbind nm t;
             Some ((r, None), t') }
      else Some ((R_ENOENT, None), t))"

text \<open>One turn of the loop, from the message that \<open>receive\<close> left in the buffer to the reply.\<close>

definition serve :: "u16 \<Rightarrow> usize \<Rightarrow> u32 \<Rightarrow> u8 list \<Rightarrow> bind_table \<Rightarrow> (name_reply \<times> bind_table) option" where
  "serve op bytes tg bs t =
     do { payload \<leftarrow> slice_to bs (min bytes MSG_MAX);
          n \<leftarrow> checked_sub (length payload) 4;
          reply_chan \<leftarrow> u32_at payload n;
          ((result, found), t') \<leftarrow> dispatch op payload t;
          Some (\<lparr>reply_to = ucast reply_chan, reply_result = result, reply_tag = tg,
                 reply_out = (case found of Some p \<Rightarrow> to_le 4 (unat (in_h p)) @ to_le 4 (unat (out_h p)) | None \<Rightarrow> [])\<rparr>, t') }"

text \<open>The loop over a sequence of messages.  A receive overwrites the front of the buffer and leaves the
  rest of the previous message behind it.\<close>

fun serve_all :: "(u16 \<times> u8 list \<times> u32) list \<Rightarrow> u8 list \<Rightarrow> bind_table \<Rightarrow> (name_reply list \<times> bind_table) option" where
  "serve_all [] bs t = Some ([], t)"
| "serve_all ((op, d, tg) # ms) bs t =
     (let bs' = take (length bs) d @ drop (length d) bs in
      do { (r, t') \<leftarrow> serve op (min (length d) (length bs)) tg bs' t;
           (rs, t'') \<leftarrow> serve_all ms bs' t';
           Some (r # rs, t'') })"

subsection \<open>The specification: a finite map of names\<close>

datatype name_request =
    Bind "u8 list" chan_pair
  | Resolve "u8 list"
  | Unbind "u8 list"
  | Unknown u16 "u8 list"

text \<open>What a client sends: the verb as the opcode, the name, for a \<open>BIND\<close> the pair, and the channel for the
  reply.\<close>

definition request_msg :: "name_request \<times> u32 \<times> u32 \<Rightarrow> u16 \<times> u8 list \<times> u32" where
  "request_msg r =
     (case r of (q, rc, tg) \<Rightarrow>
        (case q of Bind _ _ \<Rightarrow> OP_BIND | Resolve _ \<Rightarrow> OP_RESOLVE | Unbind _ \<Rightarrow> OP_UNBIND | Unknown op _ \<Rightarrow> op,
         (case q of
            Bind nm p \<Rightarrow> nm @ to_le 4 (unat (in_h p)) @ to_le 4 (unat (out_h p))
          | Resolve nm \<Rightarrow> nm
          | Unbind nm \<Rightarrow> nm
          | Unknown _ d \<Rightarrow> d) @ to_le 4 (unat rc),
         tg))"

definition well_formed :: "name_request \<times> u32 \<times> u32 \<Rightarrow> bool" where
  "well_formed r \<longleftrightarrow>
     length (fst (snd (request_msg r))) \<le> MSG_MAX \<and>
     (case fst r of Unknown op _ \<Rightarrow> op \<notin> {OP_BIND, OP_RESOLVE, OP_UNBIND} | _ \<Rightarrow> True)"

text \<open>A name is bound under its first \<open>NAME_MAX\<close> bytes; at most \<open>NENT\<close> names are bound at a time.\<close>

fun answer :: "name_request \<Rightarrow> (u8 list \<rightharpoonup> chan_pair) \<Rightarrow> (u16 \<times> chan_pair option) \<times> (u8 list \<rightharpoonup> chan_pair)" where
  "answer (Bind nm p) m =
     (if take NAME_MAX nm \<in> dom m \<or> card (dom m) < NENT
      then ((R_OK, None), m(take NAME_MAX nm \<mapsto> p)) else ((R_EFULL, None), m))"
| "answer (Resolve nm) m = (case m nm of Some p \<Rightarrow> (R_OK, Some p) | None \<Rightarrow> (R_ENOENT, None), m)"
| "answer (Unbind nm) m = (if nm \<in> dom m then ((R_OK, None), m(nm := None)) else ((R_ENOENT, None), m))"
| "answer (Unknown op d) m = ((R_ENOENT, None), m)"

fun answer_all :: "(name_request \<times> u32 \<times> u32) list \<Rightarrow> (u8 list \<rightharpoonup> chan_pair) \<Rightarrow> name_reply list" where
  "answer_all [] m = []"
| "answer_all ((q, rc, tg) # rs) m =
     (let ((result, found), m') = answer q m in
      \<lparr>reply_to = ucast rc, reply_result = result, reply_tag = tg,
       reply_out = (case found of Some p \<Rightarrow> to_le 4 (unat (in_h p)) @ to_le 4 (unat (out_h p)) | None \<Rightarrow> [])\<rparr>
      # answer_all rs m')"

subsection \<open>The table implements the map\<close>

definition ent_key :: "bind_entry \<Rightarrow> u8 list" where
  "ent_key e = take (unat (namelen e)) (ent_name e)"

definition used_at :: "bind_entry list \<Rightarrow> nat set" where
  "used_at es = {i. i < length es \<and> used (es ! i)}"

definition table_ok :: "bind_table \<Rightarrow> bool" where
  "table_ok t \<longleftrightarrow> length (entries t) = NENT \<and>
     (\<forall>e \<in> set (entries t). length (ent_name e) = NAME_MAX \<and> unat (namelen e) \<le> NAME_MAX) \<and>
     inj_on (\<lambda>i. ent_key (entries t ! i)) (used_at (entries t))"

definition bound :: "bind_table \<Rightarrow> (u8 list \<rightharpoonup> chan_pair)" where
  "bound t nm = map_option (\<lambda>i. ent_pair (entries t ! i)) (position (\<lambda>e. used e \<and> ent_key e = nm) (entries t))"

lemma table_okD:
  assumes "table_ok t"
  shows "length (entries t) = NENT"
    and "\<And>i. i < NENT \<Longrightarrow> length (ent_name (entries t ! i)) = NAME_MAX \<and> unat (namelen (entries t ! i)) \<le> NAME_MAX"
    and "\<And>i j. i \<in> used_at (entries t) \<Longrightarrow> j \<in> used_at (entries t) \<Longrightarrow>
           ent_key (entries t ! i) = ent_key (entries t ! j) \<Longrightarrow> i = j"
  using assms by (auto simp: table_ok_def inj_on_def)

lemma position_key:
  assumes "table_ok t"
  shows "position (\<lambda>e. used e \<and> ent_key e = nm) (entries t) = Some i \<longleftrightarrow>
    i \<in> used_at (entries t) \<and> ent_key (entries t ! i) = nm" (is "?P = _ \<longleftrightarrow> ?R")
proof
  show ?R if "?P = Some i" using position_Some[OF that] by (simp add: used_at_def)
  show "?P = Some i" if ?R
    using that table_okD(3)[OF assms] by (intro position_unique) (auto simp: used_at_def)
qed

lemma bound_iff:
  assumes "table_ok t"
  shows "bound t nm = Some p \<longleftrightarrow> (\<exists>i \<in> used_at (entries t). ent_key (entries t ! i) = nm \<and> ent_pair (entries t ! i) = p)"
  unfolding bound_def by (auto simp: position_key[OF assms])

lemma bound_None:
  assumes "table_ok t"
  shows "bound t nm = None \<longleftrightarrow> (\<forall>i \<in> used_at (entries t). ent_key (entries t ! i) \<noteq> nm)"
  using bound_iff[OF assms, of nm] by (metis not_None_eq)

lemma card_bound:
  assumes "table_ok t" shows "card (dom (bound t)) = card (used_at (entries t))"
proof -
  have "dom (bound t) = (\<lambda>i. ent_key (entries t ! i)) ` used_at (entries t)"
    by (auto simp: dom_def bound_iff[OF assms])
  then show ?thesis using assms by (simp add: card_image table_ok_def)
qed

lemma used_at_full:
  assumes "table_ok t" shows "card (used_at (entries t)) < NENT \<longleftrightarrow> position (\<lambda>e. \<not> used e) (entries t) \<noteq> None"
proof -
  have sub: "used_at (entries t) \<subseteq> {..<NENT}" using table_okD(1)[OF assms] by (auto simp: used_at_def)
  have "card (used_at (entries t)) < NENT \<longleftrightarrow> used_at (entries t) \<noteq> {..<NENT}"
    using psubset_card_mono[OF finite_lessThan, of "used_at (entries t)" NENT] sub by (metis card_lessThan nat_less_le psubsetI)
  also have "\<dots> \<longleftrightarrow> (\<exists>i < NENT. \<not> used (entries t ! i))"
    using sub table_okD(1)[OF assms] by (auto simp: used_at_def)
  finally show ?thesis using table_okD(1)[OF assms] by (simp add: position_None_nth)
qed

text \<open>The comparison of an entry with a name never leaves the entry's array.\<close>

definition entry_ok :: "bind_entry \<Rightarrow> bool" where
  "entry_ok e \<longleftrightarrow> length (ent_name e) = NAME_MAX \<and> unat (namelen e) \<le> NAME_MAX"

lemma length_ent_key: "entry_ok e \<Longrightarrow> length (ent_key e) = unat (namelen e)"
  by (simp add: entry_ok_def ent_key_def)

lemma key_eq:
  assumes "entry_ok e" and "n = length nm"
  shows "unat (namelen e) = n \<and> take n (ent_name e) = nm \<longleftrightarrow> ent_key e = nm"
  using length_ent_key[OF assms(1)] assms(2) by (auto simp: ent_key_def)

lemma matches_key: "entry_ok e \<Longrightarrow> matches e nm = Some (used e \<and> ent_key e = nm)"
  using key_eq[of e "length nm" nm] by (auto simp: matches_def slice_to_def entry_ok_def)

lemma find_entry_position:
  "(\<And>e. e \<in> set es \<Longrightarrow> entry_ok e) \<Longrightarrow> find_entry nm es = Some (position (\<lambda>e. used e \<and> ent_key e = nm) es)"
  by (induction es) (simp_all add: matches_key)

lemma table_ok_entries: "table_ok t \<Longrightarrow> e \<in> set (entries t) \<Longrightarrow> entry_ok e"
  by (simp add: table_ok_def entry_ok_def)

lemma resolve_spec: "table_ok t \<Longrightarrow> resolve nm t = Some (bound t nm)"
  by (simp add: resolve_def find_entry_position table_ok_entries bound_def)

lemma used_at_upd: "i < length es \<Longrightarrow> used_at (es[i := e]) = used_at es - {i} \<union> (if used e then {i} else {})"
  by (auto simp: used_at_def nth_list_update split: if_split_asm)

text \<open>Writing one entry: the name it had is unbound, the name it gets is bound.\<close>

lemma table_upd:
  assumes ok: "table_ok t" and i: "i < NENT" and e: "entry_ok e"
    and free: "used e \<Longrightarrow> \<forall>j \<in> used_at (entries t) - {i}. ent_key (entries t ! j) \<noteq> ent_key e"
  defines "t' \<equiv> t\<lparr>entries := (entries t)[i := e]\<rparr>"
  shows "table_ok t'"
    and "bound t' nm = (if used e \<and> nm = ent_key e then Some (ent_pair e)
      else if used (entries t ! i) \<and> nm = ent_key (entries t ! i) then None else bound t nm)"
proof -
  note len = table_okD(1)[OF ok]
  have U: "used_at (entries t') = used_at (entries t) - {i} \<union> (if used e then {i} else {})"
    using i len by (simp add: t'_def used_at_upd)
  have N: "entries t' ! j = (if j = i then e else entries t ! j)" for j
    using i len by (cases "j = i") (simp_all add: t'_def)
  have "inj_on (\<lambda>j. ent_key (entries t' ! j)) (used_at (entries t'))"
  proof (rule inj_onI)
    fix a b assume "a \<in> used_at (entries t')" "b \<in> used_at (entries t')" "ent_key (entries t' ! a) = ent_key (entries t' ! b)"
    then show "a = b" using table_okD(3)[OF ok, of a b] free unfolding U N by (auto split: if_split_asm)
  qed
  moreover have "entry_ok x" if "x \<in> set (entries t')" for x
    using that e table_ok_entries[OF ok] set_update_subset_insert[of "entries t" i e] by (auto simp: t'_def)
  ultimately show ok': "table_ok t'" using len by (simp add: table_ok_def entry_ok_def t'_def)
  have "bound t' nm = Some p \<longleftrightarrow> (used e \<and> nm = ent_key e \<and> ent_pair e = p) \<or>
      (\<exists>j \<in> used_at (entries t) - {i}. ent_key (entries t ! j) = nm \<and> ent_pair (entries t ! j) = p)" for p
    unfolding bound_iff[OF ok'] U N by auto
  moreover have "(\<exists>j \<in> used_at (entries t) - {i}. ent_key (entries t ! j) = nm \<and> ent_pair (entries t ! j) = p) \<longleftrightarrow>
      \<not> (used (entries t ! i) \<and> nm = ent_key (entries t ! i)) \<and> bound t nm = Some p" for p
    unfolding bound_iff[OF ok] using table_okD(3)[OF ok, of _ i] i len by (fastforce simp: used_at_def)
  ultimately have "bound t' nm = Some p \<longleftrightarrow> (if used e \<and> nm = ent_key e then Some (ent_pair e)
      else if used (entries t ! i) \<and> nm = ent_key (entries t ! i) then None else bound t nm) = Some p" for p
    using free by (auto simp: bound_iff[OF ok])
  then show "bound t' nm = (if used e \<and> nm = ent_key e then Some (ent_pair e)
      else if used (entries t ! i) \<and> nm = ent_key (entries t ! i) then None else bound t nm)"
    by (metis option.exhaust)
qed

lemma position_cong: "(\<And>x. x \<in> set xs \<Longrightarrow> P x \<longleftrightarrow> Q x) \<Longrightarrow> position P xs = position Q xs"
  by (induction xs) simp_all

lemma unbind_spec:
  assumes ok: "table_ok t"
  obtains t' where "unbind nm t = Some (fst (fst (answer (Unbind nm) (bound t))), t')" and "table_ok t'"
    and "bound t' = snd (answer (Unbind nm) (bound t))" and "snd (fst (answer (Unbind nm) (bound t))) = None"
proof (cases "position (\<lambda>e. used e \<and> ent_key e = nm) (entries t)")
  case None
  then have "nm \<notin> dom (bound t)" by (simp add: bound_def domIff)
  with None ok show ?thesis
    by (intro that[of t]) (simp_all add: unbind_def find_entry_position table_ok_entries)
next
  case (Some i)
  then have i: "i \<in> used_at (entries t)" "ent_key (entries t ! i) = nm" by (simp_all add: position_key[OF ok])
  have d: "nm \<in> dom (bound t)" using Some by (simp add: bound_def domIff)
  have n: "i < NENT" "used (entries t ! i)" using i table_okD(1)[OF ok] by (simp_all add: used_at_def)
  let ?e = "(entries t ! i)\<lparr>used := False\<rparr>"
  have "entry_ok ?e" using table_okD(2)[OF ok n(1)] by (simp add: entry_ok_def)
  note u = table_upd[OF ok n(1) this]
  have "bound (t\<lparr>entries := (entries t)[i := ?e]\<rparr>) = (bound t)(nm := None)"
    using u(2) n(2) i(2) by (auto simp: fun_eq_iff)
  with Some ok d u(1) show ?thesis
    by (intro that[of "t\<lparr>entries := (entries t)[i := ?e]\<rparr>"]) (simp_all add: unbind_def find_entry_position table_ok_entries)
qed

text \<open>A \<open>BIND\<close> looks for the name cut to the length of an entry.\<close>

lemma bind_position:
  assumes "table_ok t"
  shows "position (\<lambda>e. used e \<and> unat (namelen e) = min (length nm) NAME_MAX \<and>
      take (min (length nm) NAME_MAX) (ent_name e) = take (min (length nm) NAME_MAX) nm) (entries t) =
    position (\<lambda>e. used e \<and> ent_key e = take NAME_MAX nm) (entries t)"
proof (rule position_cong)
  fix e assume "e \<in> set (entries t)"
  then have "entry_ok e" by (rule table_ok_entries[OF assms])
  from key_eq[OF this, of "min (length nm) NAME_MAX" "take NAME_MAX nm"]
  show "used e \<and> unat (namelen e) = min (length nm) NAME_MAX \<and>
      take (min (length nm) NAME_MAX) (ent_name e) = take (min (length nm) NAME_MAX) nm \<longleftrightarrow>
    used e \<and> ent_key e = take NAME_MAX nm" by (auto simp: min_def)
qed

lemma bind_spec:
  assumes ok: "table_ok t"
  obtains t' where "bind nm p t = (fst (fst (answer (Bind nm p) (bound t))), t')" and "table_ok t'"
    and "bound t' = snd (answer (Bind nm p) (bound t))" and "snd (fst (answer (Bind nm p) (bound t))) = None"
proof (cases "position (\<lambda>e. used e \<and> ent_key e = take NAME_MAX nm) (entries t)")
  case (Some i)
  then have i: "i \<in> used_at (entries t)" "ent_key (entries t ! i) = take NAME_MAX nm" by (simp_all add: position_key[OF ok])
  have d: "take NAME_MAX nm \<in> dom (bound t)" using Some by (simp add: bound_def domIff)
  have n: "i < NENT" "used (entries t ! i)" using i table_okD(1)[OF ok] by (simp_all add: used_at_def)
  let ?e = "(entries t ! i)\<lparr>ent_pair := p\<rparr>"
  have e: "entry_ok ?e" using table_okD(2)[OF ok n(1)] by (simp add: entry_ok_def)
  have k: "ent_key ?e = take NAME_MAX nm" using i(2) by (simp add: ent_key_def)
  have "\<forall>j \<in> used_at (entries t) - {i}. ent_key (entries t ! j) \<noteq> ent_key ?e"
    unfolding k using table_okD(3)[OF ok _ i(1)] i(2) by auto
  note u = table_upd[OF ok n(1) e this]
  have "bound (t\<lparr>entries := (entries t)[i := ?e]\<rparr>) = (bound t)(take NAME_MAX nm \<mapsto> p)"
    using u(2) n(2) i(2) k by (auto simp: fun_eq_iff)
  with Some d u(1) show ?thesis
    by (intro that[of "t\<lparr>entries := (entries t)[i := ?e]\<rparr>"]) (simp_all add: bind_def Let_def bind_position[OF ok])
next
  case absent: None
  then have d: "take NAME_MAX nm \<notin> dom (bound t)" by (simp add: bound_def domIff)
  note full = used_at_full[OF ok, folded card_bound[OF ok]]
  show ?thesis
  proof (cases "position (\<lambda>e. \<not> used e) (entries t)")
    case None
    with absent d full ok show ?thesis
      by (intro that[of t]) (simp_all add: bind_def Let_def bind_position)
  next
    case (Some i)
    let ?n = "min (length nm) NAME_MAX"
    let ?e = "(entries t ! i)\<lparr>ent_name := take ?n nm @ drop ?n (ent_name (entries t ! i)), namelen := of_nat ?n,
      ent_pair := p, used := True\<rparr>"
    have n: "i < NENT" "\<not> used (entries t ! i)" using position_Some[OF Some] table_okD(1)[OF ok] by simp_all
    have w: "unat (of_nat ?n :: u8) = ?n" by (simp add: unsigned_of_nat take_bit_eq_mod NAME_MAX_def)
    have e: "entry_ok ?e" using table_okD(2)[OF ok n(1)] by (simp add: entry_ok_def w)
    have k: "ent_key ?e = take NAME_MAX nm" using w by (simp add: ent_key_def) (simp add: min_def)
    have "\<forall>j \<in> used_at (entries t) - {i}. ent_key (entries t ! j) \<noteq> ent_key ?e"
      using d unfolding k by (auto simp: domIff bound_None[OF ok])
    note u = table_upd[OF ok n(1) e this]
    have "bound (t\<lparr>entries := (entries t)[i := ?e]\<rparr>) = (bound t)(take NAME_MAX nm \<mapsto> p)"
      using u(2) n(2) k by (auto simp: fun_eq_iff)
    with Some absent full u(1) show ?thesis
      by (intro that[of "t\<lparr>entries := (entries t)[i := ?e]\<rparr>"]) (simp_all add: bind_def Let_def bind_position[OF ok])
  qed
qed

subsection \<open>The loop answers like the map\<close>

lemma from_le_u32: "of_nat (from_le (to_le 4 (unat w))) = (w :: u32)"
proof -
  have "unat w < 2 ^ LENGTH(32)" by (rule unsigned_less)
  then show ?thesis using from_to_le[of "unat w" 4] by simp
qed

lemma u32_at_append: "u32_at (xs @ to_le 4 (unat w) @ ys) (length xs) = Some w"
  by (simp add: u32_at_def from_le_u32)

lemma u32_at_last: "n = length xs \<Longrightarrow> u32_at (xs @ to_le 4 (unat w)) n = Some w"
  using u32_at_append[of xs w "[]"] by simp

lemma u32_at_second: "n = length xs + 4 \<Longrightarrow> u32_at (xs @ to_le 4 v @ to_le 4 (unat w) @ ys) n = Some w"
  using u32_at_append[of "xs @ to_le 4 v" w ys] by simp

lemma slice_to_append: "n = length xs \<Longrightarrow> slice_to (xs @ ys) n = Some xs"
  by (simp add: slice_to_def)

lemmas op_codes = OP_BIND_def OP_RESOLVE_def OP_UNBIND_def
lemmas request_bytes = u32_at_append u32_at_last u32_at_second slice_to_append checked_sub_def

lemma dispatch_spec:
  assumes ok: "table_ok t" and w: "well_formed (q, rc, tg)" and m: "request_msg (q, rc, tg) = (op, d, tg')"
  obtains t' where "dispatch op d t = Some (fst (answer q (bound t)), t')" and "table_ok t'" and "bound t' = snd (answer q (bound t))"
proof (cases q)
  case (Bind nm p)
  obtain t' where t': "bind nm p t = (fst (fst (answer q (bound t))), t')" "table_ok t'" "bound t' = snd (answer q (bound t))"
    "snd (fst (answer q (bound t))) = None" using bind_spec[OF ok] Bind by metis
  have "d = nm @ to_le 4 (unat (in_h p)) @ to_le 4 (unat (out_h p)) @ to_le 4 (unat rc)" "op = OP_BIND"
    using m Bind by (simp_all add: request_msg_def)
  then have "dispatch op d t = Some ((fst (bind nm p t), None), snd (bind nm p t))"
    by (cases p) (simp add: dispatch_def request_bytes split: prod.split)
  then show ?thesis using t' by (intro that[of t']) (simp_all add: prod_eq_iff del: answer.simps)
next
  case (Resolve nm)
  then show ?thesis using m ok
    by (intro that[of t]) (auto simp: dispatch_def request_msg_def op_codes request_bytes resolve_spec)
next
  case (Unbind nm)
  obtain t' where t': "unbind nm t = Some (fst (fst (answer q (bound t))), t')" "table_ok t'" "bound t' = snd (answer q (bound t))"
    "snd (fst (answer q (bound t))) = None" using unbind_spec[OF ok] Unbind by metis
  then show ?thesis using m Unbind
    by (intro that[of t']) (auto simp: dispatch_def request_msg_def op_codes request_bytes prod_eq_iff)
next
  case (Unknown u x)
  then show ?thesis using m w ok
    by (intro that[of t]) (auto simp: dispatch_def request_msg_def well_formed_def)
qed

lemma serve_spec:
  assumes ok: "table_ok t" and w: "well_formed (q, rc, tg)" and m: "request_msg (q, rc, tg) = (op, d, tg')"
  obtains t' where "serve op (length d) tg' (d @ rest) t = Some (hd (answer_all [(q, rc, tg)] (bound t)), t')"
    and "table_ok t'" and "bound t' = snd (answer q (bound t))"
proof -
  obtain t' where t': "dispatch op d t = Some (fst (answer q (bound t)), t')" "table_ok t'" "bound t' = snd (answer q (bound t))"
    by (rule dispatch_spec[OF ok w m])
  from m have d: "\<exists>xs. d = xs @ to_le 4 (unat rc)" "tg' = tg" by (auto simp: request_msg_def)
  then obtain xs where xs: "d = xs @ to_le 4 (unat rc)" by blast
  have "length d \<le> MSG_MAX" using w m by (simp add: well_formed_def)
  then have "slice_to (d @ rest) (min (length d) MSG_MAX) = Some d" by (simp add: slice_to_append)
  moreover have "checked_sub (length d) 4 = Some (length xs)" "u32_at d (length xs) = Some rc"
    by (simp_all add: xs checked_sub_def u32_at_last)
  ultimately have "serve op (length d) tg' (d @ rest) t = Some (hd (answer_all [(q, rc, tg)] (bound t)), t')"
    using t'(1) d(2) by (simp add: serve_def split: prod.split)
  then show thesis using t'(2,3) by (rule that)
qed

lemma table_ok_new: "table_ok bind_table_new" and bound_new: "bound bind_table_new = Map.empty"
proof -
  have u: "used_at (entries bind_table_new) = {}" by (auto simp: used_at_def bind_table_new_def EMPTY_entry_def)
  then show ok: "table_ok bind_table_new" by (auto simp: table_ok_def bind_table_new_def EMPTY_entry_def)
  show "bound bind_table_new = Map.empty" using u by (simp add: fun_eq_iff bound_None[OF ok])
qed

lemma serve_all_spec:
  "table_ok t \<Longrightarrow> (\<forall>r \<in> set rs. well_formed r) \<Longrightarrow> length bs = MSG_MAX \<Longrightarrow>
    \<exists>t'. serve_all (map request_msg rs) bs t = Some (answer_all rs (bound t), t') \<and> table_ok t'"
proof (induction rs arbitrary: bs t)
  case (Cons r rs)
  obtain q rc tg where r: "r = (q, rc, tg)" by (cases r)
  obtain op d tg' where m: "request_msg r = (op, d, tg')" by (cases "request_msg r")
  have w: "well_formed (q, rc, tg)" using Cons.prems(2) r by simp
  then have n: "length d \<le> MSG_MAX" using m r by (simp add: well_formed_def)
  obtain t' where t': "serve op (length d) tg' (d @ drop (length d) bs) t = Some (hd (answer_all [r] (bound t)), t')"
    "table_ok t'" "bound t' = snd (answer q (bound t))" using serve_spec[OF Cons.prems(1) w, of op d tg'] m r by metis
  have "length (d @ drop (length d) bs) = MSG_MAX" using n Cons.prems(3) by simp
  from Cons.IH[OF t'(2) _ this] Cons.prems(2) obtain t'' where
    "serve_all (map request_msg rs) (d @ drop (length d) bs) t' = Some (answer_all rs (bound t'), t'')" "table_ok t''" by auto
  then show ?case using t' m n r Cons.prems(3) by (simp add: split: prod.split)
qed simp

text \<open>What the server does not bear: a request with no room for the reply channel, as the empty result of a receive
  on a closed channel, makes it panic; a name longer than an entry is bound but cannot be resolved.\<close>

lemma short_request_stops:
  assumes "bytes < 4" shows "serve op bytes tg bs t = None"
  using assms by (auto simp: serve_def slice_to_def checked_sub_def bind_eq_None_conv split: if_split_asm)

lemma long_name_unresolvable:
  assumes "table_ok t" and "NAME_MAX < length nm" shows "resolve nm (snd (bind nm p t)) = Some None"
proof -
  obtain t' where t': "bind nm p t = (fst (fst (answer (Bind nm p) (bound t))), t')" "table_ok t'" by (rule bind_spec[OF assms(1)])
  have "ent_key (entries t' ! i) \<noteq> nm" if "i \<in> used_at (entries t')" for i
    using table_okD(1)[OF t'(2)] table_okD(2)[OF t'(2), of i] that assms(2) by (auto simp: ent_key_def used_at_def)
  then show ?thesis using t' by (simp add: resolve_spec bound_None)
qed

text \<open>C25: the nameserver answers every sequence of well-formed requests as a finite map from names to channel pairs
  would, starting from the empty map.  A \<open>BIND\<close> adds or replaces the pair of the name cut to 32 bytes and is refused
  only when eight other names are bound; a \<open>RESOLVE\<close> replies with the pair bound last to the name; an \<open>UNBIND\<close>
  withdraws it.  Every request gets exactly one reply, on the channel and with the tag it carries, and the server
  does not panic.\<close>

theorem name_server_answers_like_map:
  assumes "\<forall>r \<in> set rs. well_formed r"
  shows "\<exists>t'. serve_all (map request_msg rs) (replicate MSG_MAX 0) bind_table_new = Some (answer_all rs Map.empty, t')"
  using serve_all_spec[OF table_ok_new assms, of "replicate MSG_MAX 0"] by (auto simp: bound_new)

theorem name_server_answers_like_map_witness:
  "\<exists>t'. serve_all (map request_msg
       [(Bind [47, 100] \<lparr>in_h = 3, out_h = 4\<rparr>, 9, 1), (Resolve [47, 100], 9, 2), (Unbind [47, 100], 9, 3), (Resolve [47, 100], 9, 4)])
       (replicate MSG_MAX 0) bind_table_new =
     Some ([\<lparr>reply_to = 9, reply_result = R_OK, reply_tag = 1, reply_out = []\<rparr>,
            \<lparr>reply_to = 9, reply_result = R_OK, reply_tag = 2, reply_out = [3, 0, 0, 0, 4, 0, 0, 0]\<rparr>,
            \<lparr>reply_to = 9, reply_result = R_OK, reply_tag = 3, reply_out = []\<rparr>,
            \<lparr>reply_to = 9, reply_result = R_ENOENT, reply_tag = 4, reply_out = []\<rparr>], t')"
  using name_server_answers_like_map[of
      "[(Bind [47, 100] \<lparr>in_h = 3, out_h = 4\<rparr>, 9, 1), (Resolve [47, 100], 9, 2), (Unbind [47, 100], 9, 3), (Resolve [47, 100], 9, 4)]"]
  by (simp add: well_formed_def request_msg_def MSG_MAX_def NAME_MAX_def NENT_def to_le_def upt_rec)

end
