(* ===== verification/Spec2Isabelle.thy ===== *)
theory Spec2Isabelle
  imports Ipc_Props Kernel_Behaviour Heap_Props Name_Server
begin

text \<open>
  A verification of r9x, a message-passing kernel in the tradition of Plan 9 and its first user-space
  servers.  The development models the 64-bit ARM kernel (\<open>aarch64/src\<close>), the portable code it rests on
  (\<open>port/src\<close>, \<open>core/src/addr.rs\<close>, \<open>abi/src/lib.rs\<close>) and the nameserver (\<open>cmd/nameserver\<close>).  Paths are
  relative to \<open>src/\<close>; definitions carry the names of the code.

  \<^bold>\<open>The system.\<close>  User processes trap into the kernel to exchange messages over channels, to claim
  interrupts, to map device registers, to grow their heap and to control other processes.  \<open>trap\<close>
  dispatches; the call handlers of \<open>ipc.rs\<close> work on the channel table through the channel code of
  \<open>port/src/ipc.rs\<close>, which blocks and wakes processes through the scheduler of \<open>process.rs\<close>; the scheduler
  switches kernel stacks and address spaces (\<open>aspace.rs\<close> over \<open>vm.rs\<close> over the frame allocator
  \<open>bitmapalloc.rs\<close>); timers and device interrupts enter through \<open>trap\<close> as well and wake processes by
  deadline or by message.  \<open>load_elf\<close> over \<open>elf.rs\<close> builds the address space of a new process.

  \<^bold>\<open>Conventions\<close> (\<open>R9_Prelude\<close>).  Registers, table entries and wire fields are words of their width; a
  \<open>usize\<close> that counts or indexes is a natural number, with the overflow check of the code written out
  (\<open>checked_add\<close>, \<open>checked_sub\<close>, \<open>checked_mul\<close>).  The outer \<open>None\<close> of a computation is a stop: a panic, a
  failed assertion, an index out of range, an arithmetic overflow (the build keeps overflow checks on) or
  a fault inside the kernel.  \<open>Result\<close> is a sum with \<open>Inl\<close> the error.  State is passed explicitly: a field
  of a Rust structure is a field of a record, a static is a field of the kernel record.

  \<^bold>\<open>Memory.\<close>
  \<^item> \<open>Mem_Addr\<close>: \<open>core/src/addr.rs\<close> and \<open>port/src/maths.rs\<close>; rounding is exact within 64 bits.
  \<^item> \<open>Page_Bitmap\<close>: \<open>port/src/bitmapalloc.rs\<close>.  Boot frees exactly the unused pages, successive allocations
    are distinct free pages, and \<open>deallocate\<close> is shown to clear a bit of the first byte only.
  \<^item> \<open>Vm_Tables\<close>, \<open>Vm_Walk\<close>: \<open>aarch64/src/vm.rs\<close>, \<open>kmem.rs\<close>, \<open>pagealloc.rs\<close>.  Frames hold page tables; the kernel
    reaches the table of a walk through the recursive slot 511, and the hardware walk of that address
    (\<open>hw_frame\<close>) decides what it reads.  \<open>vm_inv R m\<close> says that the tables below the roots \<open>R\<close> are disjoint
    trees of allocated frames; \<open>lookup\<close> is the translation an address space gives.
  \<^item> \<open>Aspace\<close>, \<open>Vm_Props\<close>, \<open>Vm_Access\<close>: \<open>aspace.rs\<close>; mapping changes one translation, heap pages are private,
    \<open>user_range_ok\<close> accepts exactly the mapped user ranges; loads and stores through the tables.
  \<^item> \<open>Mem_Safe\<close>: what every memory operation keeps, whatever its arguments and its result (\<open>keeps\<close>).

  \<^bold>\<open>Programs.\<close>  \<open>Elf_Reader\<close> (\<open>port/src/elf.rs\<close>): the files accepted, exactly, and the round trip with a
  writer of images.  \<open>Elf_Loader\<close>, \<open>Load_Pages\<close>, \<open>Load_Props\<close> (\<open>load_elf\<close> of \<open>process.rs\<close>): the placements
  accepted, exactly, and that the address space built holds the image.

  \<^bold>\<open>Channels.\<close>  \<open>Bounded_Queue\<close>: the ring of a channel behind the locale \<open>fifo\<close>, the interface \<open>Ipc_Channel\<close> uses
  it through, interpreted on the ring.  \<open>Ipc_Channel\<close>: \<open>port/src/ipc.rs\<close>; a critical section under the lock is
  one operation, the scheduler is the record of functions the code takes as a trait object, and \<open>send\<close>,
  \<open>receive\<close> and \<open>receive_at\<close> are loops that may not return, hence partial functions with \<open>None\<close> for that.
  \<open>Ipc_Props\<close>: the operations refine an abstract list with a bound, lose and invent no message, and return
  once the awaited change has happened; with what can go wrong with the single waiter slot.

  \<^bold>\<open>Processes and the kernel.\<close>
  \<^item> \<open>Proc_Table\<close>, \<open>Timer\<close>, \<open>Sched\<close>, \<open>Proc_Heap\<close>: \<open>process.rs\<close>, \<open>timer.rs\<close> and the interrupt depth of
    \<open>port/src/irq.rs\<close>.  \<open>swtch\<close> suspends the kernel stack it leaves, so an operation that switches takes the
    rest of its handler as a value of \<open>cont\<close> and stores it as the context of the process.
  \<^item> \<open>Abi\<close>, \<open>Esr\<close>, \<open>Kernel\<close>, \<open>Trap\<close>: \<open>abi/src/lib.rs\<close>, \<open>reg/esr_el1.rs\<close>, \<open>ipc.rs\<close>, \<open>registry.rs\<close>,
    \<open>system.rs\<close>, \<open>trap.rs\<close>, the acknowledge and enable operations of \<open>gic.rs\<close>.  \<open>trap_unsafe\<close> is one trap
    from entry to return; \<open>sys_step\<close> is the whole system as a relation over traps, resumptions of suspended
    handlers, interrupts of an idle core, stores of the running process, the clock and the creation of
    processes and channels.
  \<^item> \<open>Kernel_Inv\<close>, \<open>Kernel_Switch\<close>, \<open>Kernel_Calls\<close>, \<open>Kernel_Steps\<close>, \<open>Kernel_System\<close>: the invariant \<open>kernel_inv\<close> and
    that every operation, every call and every step keeps it.  The locale \<open>sched_relation\<close> states what the
    channel code may do to the kernel state through the scheduler it is given; it is interpreted on the
    kernel's scheduler.
  \<^item> \<open>Kernel_Total\<close>: which calls return for all arguments, so that no process can stop the kernel with them.
  \<^item> \<open>Kernel_Props\<close>, \<open>Kernel_Behaviour\<close>, \<open>Heap_Props\<close>: the properties of the running kernel: the invariant in
    every run, isolation of address spaces, the choice of the scheduler, deadlines, interrupts as messages,
    exit and wait, closing of channels, priorities, the heap.

  \<^bold>\<open>Servers.\<close>  \<open>Name_Server\<close>: the bind table and the request loop implement a finite map of names.

  \<^bold>\<open>Bounds.\<close>  Sizes are those of the code: 8 messages of up to 256 bytes in a channel, 8 processes, 16
  channels, 512 entries in a page table of four levels, 8 bound names.  No fuel is used: loops over tables are
  structural, the heap and device mapping loops terminate by a measure on the remaining addresses, and the
  scan of the bitmap and the blocking calls are partial functions in the option type for which returning is
  proved as such.

  \<^bold>\<open>Assumptions.\<close>  One core runs the modelled code with interrupts masked, as the code has it today, so a
  kernel operation is one step; the lock of a channel matters only in \<open>send_gap_loses_message\<close>, which splits
  \<open>send\<close> where the code drops it.  Bytes of memory and page tables are kept apart: a store changes no
  table.  That is what the frame allocator ensures for heap and image pages; a process that maps a frame of
  a page table with the device mapping call, which bounds no address, is outside of the model.  The
  invariant of a run excludes a process that kills itself, which is shown to stop the kernel
  (\<open>self_kill_then_exit_stops_kernel\<close>).  That calls never stop the kernel is stated for buffers below the
  recursive slot, since \<open>user_range_ok\<close> also accepts addresses no translation covers.

  \<^bold>\<open>Not modelled.\<close>  Boot before and up to the first process (\<open>boot.rs\<close>, \<open>pre_mmu\<close>, \<open>main.rs\<close>, \<open>l.S\<close>) and
  the device tree reader (\<open>core/src/fdt.rs\<close>), whose results are the initial state and the parameters;
  assembly (\<open>swtch.S\<close>, \<open>trap.S\<close>), whose effect is the continuation argument; device registers (UARTs,
  mailbox, GIC bring-up); the kernel heap (\<open>port/src/allocator.rs\<close>) and the lock and once cells, which no
  modelled operation depends on; diagnostics; the user library and the other servers, since a user program
  is arbitrary for the kernel; the x86\_64 and riscv64 kernels, which have no processes yet; the build tool.
\<close>

end
